(* ===== verification/Prelude.thy ===== *)
theory Prelude
  imports Main "HOL-Library.Monad_Syntax" "HOL-Library.Word"
begin

text \<open>
  What every component of the development shares: results of fallible operations, machine
  integers with the overflow check of a checked Rust build, indexed access to vectors, and the
  part of \<open>BTreeMap\<close> the code uses, as a strictly sorted association list.

  A Rust panic (an arithmetic overflow, a shift by the width or more, a failed
  \<open>debug_assert!\<close>) is a value of the model: \<open>None\<close> for an operation that can
  only panic, the constructor \<open>Panic\<close> of the type \<open>outcome\<close> for an
  operation that also returns a Rust \<open>Result\<close>. A method that takes
  \<open>&mut self\<close> and returns a \<open>Result\<close> yields the new state beside the
  outcome, so that the state an error leaves behind is part of the model.
\<close>

section \<open>Collections of rules\<close>

named_theorems outcome_simps \<open>evaluation of outcomes and of their sequencing\<close>
named_theorems treemath_simps \<open>tree arithmetic on nodes given by level and position\<close>
named_theorems node_at_simps \<open>array positions by recursion on the level\<close>
named_theorems btm_simps \<open>what the operations of a sorted map do to a lookup\<close>

section \<open>Outcomes of fallible operations\<close>

datatype ('a, 'e) outcome = Ok 'a | Err 'e | Panic

fun outcome_bind :: "('a, 'e) outcome \<Rightarrow> ('a \<Rightarrow> ('b, 'e) outcome) \<Rightarrow> ('b, 'e) outcome" where
  "outcome_bind (Ok x) f = f x"
| "outcome_bind (Err e) f = Err e"
| "outcome_bind Panic f = Panic"

fun map_err :: "('e \<Rightarrow> 'f) \<Rightarrow> ('a, 'e) outcome \<Rightarrow> ('a, 'f) outcome" where
  "map_err g (Ok x) = Ok x"
| "map_err g (Err e) = Err (g e)"
| "map_err g Panic = Panic"

definition or_panic :: "'a option \<Rightarrow> ('a, 'e) outcome" where
  "or_panic x = (case x of None \<Rightarrow> Panic | Some y \<Rightarrow> Ok y)"

definition ok_or :: "'a option \<Rightarrow> 'e \<Rightarrow> ('a, 'e) outcome" where
  "ok_or x e = (case x of None \<Rightarrow> Err e | Some y \<Rightarrow> Ok y)"

definition debug_assert :: "bool \<Rightarrow> unit option" where
  "debug_assert b = (if b then Some () else None)"

lemma or_panic_simps [simp, outcome_simps]:
  "or_panic (Some x) = Ok x" "or_panic None = Panic"
  by (simp_all add: or_panic_def)

lemma ok_or_simps [simp, outcome_simps]:
  "ok_or (Some x) e = Ok x" "ok_or None e = Err e"
  by (simp_all add: ok_or_def)

lemma debug_assert_simps [simp, outcome_simps]:
  "debug_assert True = Some ()" "debug_assert False = None"
  by (simp_all add: debug_assert_def)

lemma debug_assert_Some [simp]: "debug_assert b = Some u \<longleftrightarrow> b"
  by (simp add: debug_assert_def)

lemma outcome_bind_Ok_iff:
  "outcome_bind m f = Ok y \<longleftrightarrow> (\<exists>x. m = Ok x \<and> f x = Ok y)"
  by (cases m) auto

lemma outcome_bind_assoc:
  "outcome_bind (outcome_bind m f) g = outcome_bind m (\<lambda>x. outcome_bind (f x) g)"
  by (cases m) auto

lemma map_err_Ok_iff [simp]: "map_err g m = Ok x \<longleftrightarrow> m = Ok x"
  by (cases m) auto

lemma map_err_Panic_iff [simp]: "map_err g m = Panic \<longleftrightarrow> m = Panic"
  by (cases m) auto

lemma outcome_bind_Panic_iff:
  "outcome_bind m f = Panic \<longleftrightarrow> m = Panic \<or> (\<exists>x. m = Ok x \<and> f x = Panic)"
  by (cases m) auto

lemma outcome_bind_Err_iff:
  "outcome_bind m f = Err e \<longleftrightarrow> m = Err e \<or> (\<exists>x. m = Ok x \<and> f x = Err e)"
  by (cases m) auto

lemma or_panic_Panic_iff [simp]: "or_panic m = Panic \<longleftrightarrow> m = None"
  by (cases m) auto

lemma ok_or_not_Panic [simp]: "ok_or m e \<noteq> Panic"
  by (cases m) auto

lemma ok_or_Ok_iff [simp]: "ok_or m e = Ok x \<longleftrightarrow> m = Some x"
  by (cases m) auto

text \<open>\<open>collect\<close> of an iterator of results: the values, or what the first failure is.\<close>

fun outcome_map :: "('a \<Rightarrow> ('b, 'e) outcome) \<Rightarrow> 'a list \<Rightarrow> ('b list, 'e) outcome" where
  "outcome_map f [] = Ok []"
| "outcome_map f (x # xs) = outcome_bind (f x) (\<lambda>y. outcome_bind (outcome_map f xs) (\<lambda>ys. Ok (y # ys)))"

lemma outcome_map_Ok_iff:
  "outcome_map f xs = Ok ys \<longleftrightarrow> length ys = length xs \<and> (\<forall>i < length xs. f (xs ! i) = Ok (ys ! i))"
proof (induction xs arbitrary: ys)
  case (Cons x xs)
  show ?case
    by (cases ys) (auto simp: outcome_bind_Ok_iff Cons.IH All_less_Suc2)
qed auto

lemma outcome_bind_cong [fundef_cong]:
  "m = m' \<Longrightarrow> (\<And>x. m' = Ok x \<Longrightarrow> f x = f' x) \<Longrightarrow> outcome_bind m f = outcome_bind m' f'"
  by (cases m') auto

text \<open>
  A method on \<open>&mut self\<close> that returns a \<open>Result\<close> gives the new state together
  with the outcome; \<open>?\<close> after such a call continues in the new state or returns early with
  what the state is by then.
\<close>

definition try_then ::
    "'s \<times> ('a, 'e) outcome \<Rightarrow> ('s \<Rightarrow> 'a \<Rightarrow> 's \<times> ('b, 'e) outcome) \<Rightarrow> 's \<times> ('b, 'e) outcome" where
  "try_then m k = (case m of
     (s, Ok x) \<Rightarrow> k s x
   | (s, Err e) \<Rightarrow> (s, Err e)
   | (s, Panic) \<Rightarrow> (s, Panic))"

lemma try_then_simps [simp, outcome_simps]:
  "try_then (s, Ok x) k = k s x"
  "try_then (s, Err e) k = (s, Err e)"
  "try_then (s, Panic) k = (s, Panic)"
  by (simp_all add: try_then_def)

lemma try_then_Ok_iff:
  "try_then m k = (s', Ok y) \<longleftrightarrow> (\<exists>s x. m = (s, Ok x) \<and> k s x = (s', Ok y))"
  by (cases m; cases "snd m") (auto simp: try_then_def)

lemma try_then_Panic_iff:
  "snd (try_then m k) = Panic \<longleftrightarrow> snd m = Panic \<or> (\<exists>s x. m = (s, Ok x) \<and> snd (k s x) = Panic)"
  by (cases m; cases "snd m") (auto simp: try_then_def)

text \<open>A \<open>for\<close> loop over such calls.\<close>

fun for_each_try ::
    "('x \<Rightarrow> 's \<Rightarrow> 's \<times> (unit, 'e) outcome) \<Rightarrow> 'x list \<Rightarrow> 's \<Rightarrow> 's \<times> (unit, 'e) outcome" where
  "for_each_try f [] s = (s, Ok ())"
| "for_each_try f (x # xs) s = try_then (f x s) (\<lambda>s' _. for_each_try f xs s')"

lemma for_each_try_append:
  "for_each_try f (xs @ ys) s = try_then (for_each_try f xs s) (\<lambda>s' _. for_each_try f ys s')"
proof (induction xs arbitrary: s)
  case (Cons x xs)
  then show ?case by (cases "f x s"; cases "snd (f x s)") simp_all
qed simp

lemma or_panic_Ok_iff [simp]: "or_panic m = Ok x \<longleftrightarrow> m = Some x"
  by (cases m) auto

lemma or_panic_not_Err [simp]: "or_panic m \<noteq> Err e"
  by (cases m) auto

section \<open>Unsigned machine integers as naturals with the overflow check\<close>

text \<open>
  A \<open>u32\<close> is a natural number below \<open>2 ^ 32\<close>; each operation that can leave the
  range yields \<open>None\<close> then, which is the panic of a checked build. A left shift drops
  the bits beyond the width and only panics on the shift amount.
\<close>

type_synonym u32 = nat

definition u32_MAX :: u32 where
  "u32_MAX = 2 ^ 32 - 1"

definition u32_add :: "u32 \<Rightarrow> u32 \<Rightarrow> u32 option" where
  "u32_add a b = (if a + b < 2 ^ 32 then Some (a + b) else None)"

definition u32_sub :: "u32 \<Rightarrow> u32 \<Rightarrow> u32 option" where
  "u32_sub a b = (if b \<le> a then Some (a - b) else None)"

definition u32_mul :: "u32 \<Rightarrow> u32 \<Rightarrow> u32 option" where
  "u32_mul a b = (if a * b < 2 ^ 32 then Some (a * b) else None)"

definition u32_shl :: "u32 \<Rightarrow> nat \<Rightarrow> u32 option" where
  "u32_shl a k = (if k < 32 then Some (take_bit 32 (push_bit k a)) else None)"

definition u32_shr :: "u32 \<Rightarrow> nat \<Rightarrow> u32 option" where
  "u32_shr a k = (if k < 32 then Some (drop_bit k a) else None)"

lemma u32_add_eq [simp]: "a + b < 2 ^ 32 \<Longrightarrow> u32_add a b = Some (a + b)"
  by (simp add: u32_add_def)

lemma u32_sub_eq [simp]: "b \<le> a \<Longrightarrow> u32_sub a b = Some (a - b)"
  by (simp add: u32_sub_def)

lemma u32_mul_eq [simp]: "a * b < 2 ^ 32 \<Longrightarrow> u32_mul a b = Some (a * b)"
  by (simp add: u32_mul_def)

lemma u32_shr_eq [simp]: "k < 32 \<Longrightarrow> u32_shr a k = Some (a div 2 ^ k)"
  by (simp add: u32_shr_def drop_bit_eq_div)

lemma u32_shl_eq: "k < 32 \<Longrightarrow> a * 2 ^ k < 2 ^ 32 \<Longrightarrow> u32_shl a k = Some (a * 2 ^ k)"
  by (simp add: u32_shl_def push_bit_eq_mult take_bit_eq_mod)

lemma u32_shl_one [simp]: "k < 32 \<Longrightarrow> u32_shl (Suc 0) k = Some (2 ^ k)"
  using power_strict_increasing [of k 32 "2::nat"] by (simp add: u32_shl_eq)

lemma power_two_Suc: obtains m where "(2::nat) ^ k = Suc m"
  using not0_implies_Suc [of "2 ^ k"] by auto

text \<open>The cast \<open>as u32\<close>, which keeps the low 32 bits.\<close>

definition as_u32 :: "nat \<Rightarrow> u32" where
  "as_u32 n = n mod 2 ^ 32"

lemma as_u32_eq [simp]: "n < 2 ^ 32 \<Longrightarrow> as_u32 n = n"
  by (simp add: as_u32_def)

text \<open>The ids of application components, a \<open>u16\<close> that the code takes bits of.\<close>

type_synonym ComponentId = "16 word"

text \<open>
  A \<open>SystemTime\<close> counts nanoseconds from the Unix epoch and may lie before it; a
  \<open>Duration\<close> counts nanoseconds.
\<close>

type_synonym u64 = nat
type_synonym SystemTime = int
type_synonym Duration = nat

definition SystemTime_duration_since :: "SystemTime \<Rightarrow> SystemTime \<Rightarrow> Duration option" where
  "SystemTime_duration_since now earlier = (if earlier \<le> now then Some (nat (now - earlier)) else None)"

definition Duration_as_secs :: "Duration \<Rightarrow> u64" where
  "Duration_as_secs d = d div 10 ^ 9"

section \<open>Vectors\<close>

text \<open>\<open>Vec::get\<close>: the element, or nothing out of range.\<close>

definition vec_get :: "'a list \<Rightarrow> nat \<Rightarrow> 'a option" where
  "vec_get xs i = (if i < length xs then Some (xs ! i) else None)"

text \<open>\<open>Vec::resize_with\<close>: truncates, or pads at the end with the default.\<close>

definition vec_resize :: "'a list \<Rightarrow> nat \<Rightarrow> 'a \<Rightarrow> 'a list" where
  "vec_resize xs n d = take n xs @ replicate (n - length xs) d"

lemma vec_get_in [simp]: "i < length xs \<Longrightarrow> vec_get xs i = Some (xs ! i)"
  by (simp add: vec_get_def)

lemma vec_get_out [simp]: "length xs \<le> i \<Longrightarrow> vec_get xs i = None"
  by (simp add: vec_get_def)

lemma vec_get_Some_iff: "vec_get xs i = Some x \<longleftrightarrow> i < length xs \<and> xs ! i = x"
  by (auto simp: vec_get_def)

lemma vec_get_list_update:
  "vec_get (xs[i := v]) j = (if i = j \<and> j < length xs then Some v else vec_get xs j)"
  by (auto simp: vec_get_def)

lemma length_vec_resize [simp]: "length (vec_resize xs n d) = n"
  by (simp add: vec_resize_def)

lemma nth_vec_resize:
  "i < n \<Longrightarrow> vec_resize xs n d ! i = (if i < length xs then xs ! i else d)"
  by (auto simp: vec_resize_def nth_append min_def)

lemma those_map_Some: "(\<And>x. x \<in> set xs \<Longrightarrow> f x = Some (g x)) \<Longrightarrow> those (map f xs) = Some (map g xs)"
  by (induction xs) auto

lemma takeWhile_zip_rev_upt:
  assumes "m \<le> n" "\<And>j. m \<le> j \<Longrightarrow> j < n \<Longrightarrow> f j = g j" "0 < m \<Longrightarrow> f (m - 1) \<noteq> g (m - 1)"
  shows "takeWhile (\<lambda>(a, b). a = b) (zip (rev (map f [0..<n])) (rev (map g [0..<n]))) =
    rev (map (\<lambda>j. (f j, g j)) [m..<n])"
proof -
  let ?h = "\<lambda>j. (f j, g j)" and ?P = "\<lambda>(a, b). a = b"
  have upt: "[0..<n] = [0..<m] @ [m..<n]"
    using assms(1) upt_add_eq_append [of 0 m "n - m"] by simp
  have "zip (rev (map f [0..<n])) (rev (map g [0..<n])) = rev (map ?h [0..<n])"
    by (simp add: zip_rev zip_map_map zip_same_conv_map)
  also have "\<dots> = rev (map ?h [m..<n]) @ rev (map ?h [0..<m])"
    by (simp only: upt map_append rev_append)
  finally have "zip (rev (map f [0..<n])) (rev (map g [0..<n])) =
      rev (map ?h [m..<n]) @ rev (map ?h [0..<m])" .
  moreover have "takeWhile ?P (rev (map ?h [0..<m])) = []"
    using assms(3) by (cases m) auto
  ultimately show ?thesis
    using assms(2) by (auto simp: takeWhile_append)
qed

text \<open>A loop over a list that updates a state and may panic.\<close>

fun for_each :: "('a \<Rightarrow> 's \<Rightarrow> 's option) \<Rightarrow> 'a list \<Rightarrow> 's \<Rightarrow> 's option" where
  "for_each f [] s = Some s"
| "for_each f (x # xs) s = (case f x s of None \<Rightarrow> None | Some s' \<Rightarrow> for_each f xs s')"

lemma for_each_append:
  "for_each f (xs @ ys) s = (case for_each f xs s of None \<Rightarrow> None | Some s' \<Rightarrow> for_each f ys s')"
  by (induction xs arbitrary: s) (auto split: option.split)

section \<open>Sorted maps\<close>

text \<open>
  \<open>BTreeMap\<close> as the list of its entries in key order: \<open>insert\<close>, \<open>get\<close>,
  \<open>remove\<close>, \<open>retain\<close> and iteration (the list itself).
\<close>

type_synonym ('k, 'v) btree_map = "('k \<times> 'v) list"

fun btm_insert :: "'k::linorder \<Rightarrow> 'v \<Rightarrow> ('k, 'v) btree_map \<Rightarrow> ('k, 'v) btree_map" where
  "btm_insert k v [] = [(k, v)]"
| "btm_insert k v ((k', v') # m) =
     (if k < k' then (k, v) # (k', v') # m
      else if k = k' then (k, v) # m
      else (k', v') # btm_insert k v m)"

definition btm_get :: "('k, 'v) btree_map \<Rightarrow> 'k \<Rightarrow> 'v option" where
  "btm_get m k = map_of m k"

definition btm_remove :: "'k \<Rightarrow> ('k, 'v) btree_map \<Rightarrow> ('k, 'v) btree_map" where
  "btm_remove k m = filter (\<lambda>e. fst e \<noteq> k) m"

definition btm_retain :: "('k \<Rightarrow> bool) \<Rightarrow> ('k, 'v) btree_map \<Rightarrow> ('k, 'v) btree_map" where
  "btm_retain P m = filter (\<lambda>e. P (fst e)) m"

definition btm_sorted :: "('k::linorder, 'v) btree_map \<Rightarrow> bool" where
  "btm_sorted m \<longleftrightarrow> sorted_wrt (<) (map fst m)"

text \<open>The contract of a finite map that is iterated in key order.\<close>

locale ordered_map =
  fixes empty :: "'m"
    and insert :: "'k::linorder \<Rightarrow> 'v \<Rightarrow> 'm \<Rightarrow> 'm"
    and get :: "'m \<Rightarrow> 'k \<Rightarrow> 'v option"
    and remove :: "'k \<Rightarrow> 'm \<Rightarrow> 'm"
    and retain :: "('k \<Rightarrow> bool) \<Rightarrow> 'm \<Rightarrow> 'm"
    and entries :: "'m \<Rightarrow> ('k \<times> 'v) list"
    and invar :: "'m \<Rightarrow> bool"
  assumes get_empty: "get empty k = None"
    and get_insert: "invar m \<Longrightarrow> get (insert k v m) k' = (if k' = k then Some v else get m k')"
    and get_remove: "invar m \<Longrightarrow> get (remove k m) k' = (if k' = k then None else get m k')"
    and get_retain: "invar m \<Longrightarrow> get (retain P m) k = (if P k then get m k else None)"
    and get_entries: "invar m \<Longrightarrow> get m k = map_of (entries m) k"
    and entries_sorted: "invar m \<Longrightarrow> sorted_wrt (<) (map fst (entries m))"
    and invar_empty: "invar empty"
    and invar_insert: "invar m \<Longrightarrow> invar (insert k v m)"
    and invar_remove: "invar m \<Longrightarrow> invar (remove k m)"
    and invar_retain: "invar m \<Longrightarrow> invar (retain P m)"
begin

lemma entries_keys: "invar m \<Longrightarrow> k \<in> fst ` set (entries m) \<longleftrightarrow> get m k \<noteq> None"
  by (simp add: get_entries map_of_eq_None_iff)

lemma entries_distinct: "invar m \<Longrightarrow> distinct (map fst (entries m))"
  using entries_sorted strict_sorted_iff by blast

lemma insert_idem:
  "invar m \<Longrightarrow> get (insert k v (insert k w m)) = get (insert k v m)"
  by (rule ext) (simp add: get_insert invar_insert)

lemma insert_remove: "invar m \<Longrightarrow> get (remove k (insert k v m)) = get (remove k m)"
  by (rule ext) (simp add: get_insert get_remove invar_insert)

end

lemma btm_get_insert [btm_simps]:
  "btm_sorted m \<Longrightarrow> btm_get (btm_insert k v m) k' = (if k' = k then Some v else btm_get m k')"
  unfolding btm_get_def
  by (induction k v m rule: btm_insert.induct) (auto simp: btm_sorted_def)

lemma btm_insert_keys [simp]: "fst ` set (btm_insert k v m) = insert k (fst ` set m)"
  by (induction k v m rule: btm_insert.induct) auto

lemma btm_sorted_insert [simp, intro]: "btm_sorted m \<Longrightarrow> btm_sorted (btm_insert k v m)"
  unfolding btm_sorted_def
proof (induction k v m rule: btm_insert.induct)
  case (2 k v k' v' m)
  then show ?case
    using btm_insert_keys [of k v m] by (fastforce simp: image_iff)
qed simp

lemma btm_get_remove [btm_simps]:
  "btm_get (btm_remove k m) k' = (if k' = k then None else btm_get m k')"
  unfolding btm_get_def btm_remove_def by (induction m) auto

lemma btm_get_retain [btm_simps]:
  "btm_get (btm_retain P m) k = (if P k then btm_get m k else None)"
  unfolding btm_get_def btm_retain_def by (induction m) auto

lemma btm_sorted_filter [simp]: "btm_sorted m \<Longrightarrow> btm_sorted (filter P m)"
  unfolding btm_sorted_def by (induction m) auto

interpretation btm: ordered_map "[]" btm_insert btm_get btm_remove btm_retain "\<lambda>m. m" btm_sorted
proof unfold_locales
  show "btm_sorted []"
    by (simp add: btm_sorted_def)
qed (simp_all add: btm_simps, simp_all add: btm_get_def btm_sorted_def btm_remove_def
  btm_retain_def flip: btm_sorted_def)

lemma btm_get_in_set: "btm_get m k = Some v \<Longrightarrow> (k, v) \<in> set m"
  by (simp add: btm_get_def map_of_SomeD)

section \<open>Strictly sorted keyed lists\<close>

lemma keyed_list_eq_map:
  "distinct (map fst xs) \<Longrightarrow> map (\<lambda>k. (k, the (map_of xs k))) (map fst xs) = xs"
  by (auto simp: comp_def intro!: map_idI)

lemma sorted_keyed_list_eqI:
  fixes xs ys :: "('k::linorder \<times> 'v) list"
  assumes "sorted_wrt (<) (map fst xs)" "sorted_wrt (<) (map fst ys)" "map_of xs = map_of ys"
  shows "xs = ys"
proof -
  have "set (map fst xs) = set (map fst ys)"
    using assms(3) by (metis dom_map_of_conv_image_fst list.set_map)
  then have "map fst xs = map fst ys"
    using assms(1,2) by (intro strict_sorted_equal)
  then show ?thesis
    using keyed_list_eq_map [of xs] keyed_list_eq_map [of ys] assms strict_sorted_iff by metis
qed

lemma filter_less_strict_sorted:
  "sorted_wrt (\<lambda>x y. f x < f y) xs \<Longrightarrow>
   filter (\<lambda>x. f x < n) xs = takeWhile (\<lambda>x. f x < (n::'k::linorder)) xs"
proof (induction xs)
  case (Cons x xs)
  show ?case
  proof (cases "f x < n")
    case False
    then have "\<forall>y \<in> set xs. \<not> f y < n"
      using Cons.prems by (auto dest: order.strict_trans)
    with False show ?thesis by (simp add: filter_empty_conv)
  qed (use Cons in simp)
qed simp

text \<open>
  In a list with strictly sorted natural keys that has every key below \<open>n\<close>, or only keys
  below \<open>n\<close>, the first \<open>n\<close> entries are those with a key below \<open>n\<close>.
\<close>

lemma take_eq_filter_less:
  fixes xs :: "(nat \<times> 'v) list"
  assumes "sorted_wrt (<) (map fst xs)"
    and dense: "fst ` set xs \<subseteq> {..<n} \<or> {..<n} \<subseteq> fst ` set xs"
  shows "take n xs = filter (\<lambda>e. fst e < n) xs"
proof -
  let ?w = "takeWhile (\<lambda>e. fst e < n) xs"
  have d: "distinct (map fst xs)" using assms(1) strict_sorted_iff by blast
  have f: "filter (\<lambda>e. fst e < n) xs = ?w"
    using assms(1) by (intro filter_less_strict_sorted) (simp add: sorted_wrt_map)
  from dense show ?thesis
  proof
    assume s: "fst ` set xs \<subseteq> {..<n}"
    then have "length xs \<le> n"
      using card_mono [OF _ s] distinct_card [OF d] by simp
    moreover have "filter (\<lambda>e. fst e < n) xs = xs"
      using s by (auto simp: filter_id_conv)
    ultimately show ?thesis by simp
  next
    assume s: "{..<n} \<subseteq> fst ` set xs"
    have "distinct (map fst ?w)"
      using d by (metis distinct_append map_append takeWhile_dropWhile_id)
    then have "length ?w = card (fst ` set ?w)"
      using distinct_card by fastforce
    also have "fst ` set ?w = {..<n}"
      using s by (auto simp flip: f)
    finally show ?thesis using f by (metis card_lessThan takeWhile_eq_take)
  qed
qed

section \<open>Keys that are handed out once\<close>

text \<open>
  What a run of operations hands out: \<open>opened\<close> gives the number of the key that an
  operation returns in a state, if it returns one.
\<close>

fun run_opened :: "('op \<Rightarrow> 's \<Rightarrow> 's) \<Rightarrow> ('op \<Rightarrow> 's \<Rightarrow> nat option) \<Rightarrow> 'op list \<Rightarrow> 's \<Rightarrow> nat list" where
  "run_opened step opened [] s = []"
| "run_opened step opened (op # ops) s =
     (case opened op s of None \<Rightarrow> [] | Some m \<Rightarrow> [m]) @ run_opened step opened ops (step op s)"

text \<open>
  A store of one-time keys: no operation makes an unavailable key available, and a key that is
  handed out was available and is no longer.
\<close>

locale one_time_keys =
  fixes step :: "'op \<Rightarrow> 's \<Rightarrow> 's"
    and opened :: "'op \<Rightarrow> 's \<Rightarrow> nat option"
    and available :: "'s \<Rightarrow> nat \<Rightarrow> bool"
    and invar :: "'s \<Rightarrow> bool"
  assumes step_invar: "invar s \<Longrightarrow> invar (step op s)"
    and step_available: "invar s \<Longrightarrow> available (step op s) m \<Longrightarrow> available s m"
    and opened_available: "invar s \<Longrightarrow> opened op s = Some m \<Longrightarrow> available s m"
    and opened_consumed: "invar s \<Longrightarrow> opened op s = Some m \<Longrightarrow> \<not> available (step op s) m"
begin

lemma run_invar: "invar s \<Longrightarrow> invar (fold step ops s)"
  by (induction ops arbitrary: s) (simp_all add: step_invar)

lemma run_available: "invar s \<Longrightarrow> m \<in> set (run_opened step opened ops s) \<Longrightarrow> available s m"
proof (induction ops arbitrary: s)
  case (Cons op ops)
  from Cons.prems(2) consider "opened op s = Some m" | "m \<in> set (run_opened step opened ops (step op s))"
    by (auto split: option.splits)
  then show ?case
    using Cons.IH [of "step op s"] Cons.prems(1) step_invar step_available opened_available by cases blast+
qed simp

lemma run_distinct: "invar s \<Longrightarrow> distinct (run_opened step opened ops s)"
proof (induction ops arbitrary: s)
  case (Cons op ops)
  then show ?case
    using step_invar opened_consumed [of s op] run_available [of "step op s" _ ops]
    by (auto split: option.splits)
qed simp

end

end
