(* ===== verification/TreeMath.thy ===== *)
theory TreeMath
  imports Prelude
begin

unbundle bit_operations_syntax

text \<open>
  The arithmetic of the array representation of a full, left-balanced binary tree
  (\<open>binary_tree/array_representation/treemath.rs\<close>): leaves at the even array positions,
  parents at the odd ones, and the navigation by bit operations on a position.

  The development reads a position as a level and an offset in that level
  (\<open>node_at\<close>); the lemmas show what each bit trick of the code does to these two
  numbers, and the paths of a leaf follow as explicit lists.
\<close>

section \<open>Indices\<close>

text \<open>The index newtypes of the code wrap a \<open>u32\<close>.\<close>

type_synonym LeafNodeIndex = u32
type_synonym ParentNodeIndex = u32
type_synonym TreeSize = u32

definition MAX_TREE_SIZE :: u32 where
  "MAX_TREE_SIZE = 2 ^ 30"

definition MIN_TREE_SIZE :: u32 where
  "MIN_TREE_SIZE = 1"

definition LeafNodeIndex_to_tree_index :: "LeafNodeIndex \<Rightarrow> u32 option" where
  "LeafNodeIndex_to_tree_index i = u32_mul i 2"

definition LeafNodeIndex_from_tree_index :: "u32 \<Rightarrow> LeafNodeIndex option" where
  "LeafNodeIndex_from_tree_index n = do { debug_assert (n mod 2 = 0); Some (n div 2) }"

definition ParentNodeIndex_to_tree_index :: "ParentNodeIndex \<Rightarrow> u32 option" where
  "ParentNodeIndex_to_tree_index i = do { d \<leftarrow> u32_mul i 2; u32_add d 1 }"

definition ParentNodeIndex_from_tree_index :: "u32 \<Rightarrow> ParentNodeIndex option" where
  "ParentNodeIndex_from_tree_index n = do {
     debug_assert (n > 0);
     debug_assert (n mod 2 = 1);
     Some ((n - 1) div 2) }"

datatype TreeNodeIndex = Leaf LeafNodeIndex | Parent ParentNodeIndex

definition TreeNodeIndex_new :: "u32 \<Rightarrow> TreeNodeIndex option" where
  "TreeNodeIndex_new index =
     (if index mod 2 = 0 then map_option Leaf (LeafNodeIndex_from_tree_index index)
      else map_option Parent (ParentNodeIndex_from_tree_index index))"

fun TreeNodeIndex_u32 :: "TreeNodeIndex \<Rightarrow> u32 option" where
  "TreeNodeIndex_u32 (Leaf index) = LeafNodeIndex_to_tree_index index"
| "TreeNodeIndex_u32 (Parent index) = ParentNodeIndex_to_tree_index index"

text \<open>
  The order of \<open>TreeNodeIndex\<close> is that of the array positions. The code compares them as \<open>u32\<close>, and
  computing one overflows for an index of \<open>2 ^ 31\<close> or more; no tree has such an index, and the order
  here has no bound.
\<close>

fun tree_position :: "TreeNodeIndex \<Rightarrow> nat" where
  "tree_position (Leaf i) = 2 * i"
| "tree_position (Parent i) = 2 * i + 1"

lemma tree_position_inj: "tree_position a = tree_position b \<longleftrightarrow> a = b"
  by (cases a; cases b) (simp_all, presburger+)

definition TreeNodeIndex_le :: "TreeNodeIndex \<Rightarrow> TreeNodeIndex \<Rightarrow> bool" where
  "TreeNodeIndex_le a b \<longleftrightarrow> tree_position a \<le> tree_position b"

instantiation TreeNodeIndex :: linorder
begin

definition less_eq_TreeNodeIndex :: "TreeNodeIndex \<Rightarrow> TreeNodeIndex \<Rightarrow> bool" where
  "less_eq_TreeNodeIndex a b \<longleftrightarrow> TreeNodeIndex_le a b"

definition less_TreeNodeIndex :: "TreeNodeIndex \<Rightarrow> TreeNodeIndex \<Rightarrow> bool" where
  "less_TreeNodeIndex a b \<longleftrightarrow> \<not> TreeNodeIndex_le b a"

instance
proof
  fix x y :: TreeNodeIndex
  assume "x \<le> y" "y \<le> x"
  then show "x = y"
    by (simp add: less_eq_TreeNodeIndex_def TreeNodeIndex_le_def flip: tree_position_inj)
qed (auto simp: less_eq_TreeNodeIndex_def less_TreeNodeIndex_def TreeNodeIndex_le_def)

end

section \<open>Sizes\<close>

fun bit_length :: "nat \<Rightarrow> nat" where
  "bit_length n = (if n = 0 then 0 else Suc (bit_length (n div 2)))"

declare bit_length.simps [simp del]

definition leading_zeros :: "u32 \<Rightarrow> nat" where
  "leading_zeros x = 32 - bit_length x"

definition log2 :: "u32 \<Rightarrow> nat" where
  "log2 x = (if x = 0 then 0 else 31 - leading_zeros x)"

definition TreeSize_new :: "u32 \<Rightarrow> TreeSize option" where
  "TreeSize_new nodes = do {
     let k = log2 nodes;
     s \<leftarrow> u32_shl 1 (k + 1);
     u32_sub s 1 }"

definition TreeSize_from_leaf_count :: "u32 \<Rightarrow> TreeSize option" where
  "TreeSize_from_leaf_count leaf_count = do { n \<leftarrow> u32_mul leaf_count 2; TreeSize_new n }"

definition TreeSize_leaf_count :: "TreeSize \<Rightarrow> u32" where
  "TreeSize_leaf_count sz = sz div 2 + 1"

definition TreeSize_parent_count :: "TreeSize \<Rightarrow> u32" where
  "TreeSize_parent_count sz = sz div 2"

definition TreeSize_leaf_is_left :: "TreeSize \<Rightarrow> LeafNodeIndex \<Rightarrow> bool" where
  "TreeSize_leaf_is_left sz leaf_index \<longleftrightarrow> leaf_index < TreeSize_leaf_count sz div 2"

definition TreeSize_inc :: "TreeSize \<Rightarrow> TreeSize option" where
  "TreeSize_inc sz = do { d \<leftarrow> u32_mul sz 2; u32_add d 1 }"

definition TreeSize_dec :: "TreeSize \<Rightarrow> TreeSize option" where
  "TreeSize_dec sz = do {
     debug_assert (sz \<ge> 2);
     if sz \<ge> 2 then u32_sub ((sz + 1) div 2) 1 else Some 0 }"

section \<open>Navigation\<close>

function level_loop :: "u32 \<Rightarrow> nat \<Rightarrow> nat option" where
  "level_loop x k =
     (case u32_shr x k of
        None \<Rightarrow> None
      | Some y \<Rightarrow> if y AND 1 = 1 then level_loop x (Suc k) else Some k)"
  by pat_completeness auto
termination
  by (relation "measure (\<lambda>(x, k). 33 - k)") (auto simp: u32_shr_def split: if_splits)

declare level_loop.simps [simp del]

definition level :: "u32 \<Rightarrow> nat option" where
  "level index = (if index AND 1 = 0 then Some 0 else level_loop index 0)"

definition root :: "TreeSize \<Rightarrow> TreeNodeIndex option" where
  "root sz = do {
     debug_assert (sz > 0);
     s \<leftarrow> u32_shl 1 (log2 sz);
     r \<leftarrow> u32_sub s 1;
     TreeNodeIndex_new r }"

definition left :: "ParentNodeIndex \<Rightarrow> TreeNodeIndex option" where
  "left index = do {
     x \<leftarrow> ParentNodeIndex_to_tree_index index;
     k \<leftarrow> level x;
     debug_assert (k > 0);
     m \<leftarrow> u32_shl 1 (k - 1);
     TreeNodeIndex_new (x XOR m) }"

definition right :: "ParentNodeIndex \<Rightarrow> TreeNodeIndex option" where
  "right index = do {
     x \<leftarrow> ParentNodeIndex_to_tree_index index;
     k \<leftarrow> level x;
     debug_assert (k > 0);
     m \<leftarrow> u32_shl 3 (k - 1);
     TreeNodeIndex_new (x XOR m) }"

definition parent :: "TreeNodeIndex \<Rightarrow> ParentNodeIndex option" where
  "parent index = do {
     x \<leftarrow> TreeNodeIndex_u32 index;
     k \<leftarrow> level x;
     s \<leftarrow> u32_shr x (k + 1);
     let b = s AND 1;
     m \<leftarrow> u32_shl 1 k;
     c \<leftarrow> u32_shl b (k + 1);
     ParentNodeIndex_from_tree_index ((x OR m) XOR c) }"

definition sibling :: "TreeNodeIndex \<Rightarrow> TreeNodeIndex option" where
  "sibling index = do {
     p \<leftarrow> parent index;
     x \<leftarrow> TreeNodeIndex_u32 index;
     y \<leftarrow> ParentNodeIndex_to_tree_index p;
     if x < y then right p else left p }"

definition is_node_in_tree :: "TreeNodeIndex \<Rightarrow> TreeSize \<Rightarrow> bool option" where
  "is_node_in_tree node_index sz = do { x \<leftarrow> TreeNodeIndex_u32 node_index; Some (x < sz) }"

section \<open>Positions as level and offset\<close>

definition node_at :: "nat \<Rightarrow> nat \<Rightarrow> nat" where
  "node_at k p = p * 2 ^ Suc k + 2 ^ k - 1"

definition tree_node :: "nat \<Rightarrow> nat \<Rightarrow> TreeNodeIndex" where
  "tree_node k p = (if k = 0 then Leaf p else Parent (node_at (k - 1) p))"

lemma node_at_0 [node_at_simps]: "node_at 0 p = 2 * p"
  by (simp add: node_at_def)

lemma node_at_Suc [node_at_simps]: "node_at (Suc k) p = 2 * node_at k p + 1"
  by (rule power_two_Suc [of k]) (simp add: node_at_def)

lemma node_at_exhaust: "\<exists>k p. x = node_at k p"
proof (induction x rule: less_induct)
  case (less x)
  show ?case
  proof (cases "even x")
    case True
    then have "x = node_at 0 (x div 2)" by (simp add: node_at_0)
    then show ?thesis by blast
  next
    case False
    then have "x div 2 < x" by (cases x) auto
    then obtain k p where "x div 2 = node_at k p" using less by blast
    moreover have "x = 2 * (x div 2) + 1" using False by simp
    ultimately have "x = node_at (Suc k) p" by (simp add: node_at_Suc)
    then show ?thesis by blast
  qed
qed

lemma node_at_inj [simp]: "node_at k p = node_at j q \<longleftrightarrow> k = j \<and> p = q"
proof (induction k arbitrary: j)
  case 0
  show ?case
    by (cases j) (simp_all add: node_at_simps double_not_eq_Suc_double)
next
  case (Suc k)
  show ?case
    by (cases j) (simp_all add: node_at_simps Suc Suc_double_not_eq_double)
qed

lemma node_at_plus_1: "node_at k p + 1 = (2 * p + 1) * 2 ^ k"
  using one_le_power [of "2::nat" k] by (simp add: node_at_def algebra_simps)

section \<open>What the bit operations do to level and offset\<close>

lemma and_one_mod [simp]: "(x::nat) AND 1 = x mod 2"
  by (simp add: and_one_eq)

lemma node_at_div: "j \<le> k \<Longrightarrow> node_at k p div 2 ^ j = node_at (k - j) p"
proof (induction j arbitrary: k)
  case (Suc j)
  then obtain i where k: "k = Suc i" by (cases k) auto
  have "node_at k p div 2 ^ Suc j = node_at i p div 2 ^ j"
    by (simp add: k node_at_Suc div_mult2_eq)
  then show ?case using Suc k by simp
qed simp

lemma node_at_div_Suc: "node_at k p div 2 ^ Suc k = p"
proof -
  have "node_at k p div 2 ^ k = 2 * p"
    by (simp add: node_at_div node_at_0)
  then show ?thesis by (simp only: power_Suc2 div_mult2_eq)
qed

lemma node_at_odd [simp]: "node_at k p mod 2 = (if k = 0 then 0 else 1)"
  by (cases k) (simp_all add: node_at_simps)

lemma level_loop_node_at:
  "j \<le> k \<Longrightarrow> level_loop (node_at k p) j = (if k < 32 then Some k else None)"
proof (induction "k - j" arbitrary: j)
  case 0
  then show ?case
    by (simp add: level_loop.simps [of _ j] node_at_div u32_shr_def drop_bit_eq_div)
next
  case (Suc n)
  then have "level_loop (node_at k p) (Suc j) = (if k < 32 then Some k else None)"
    by simp
  with Suc show ?case
    by (simp add: level_loop.simps [of _ j] node_at_div u32_shr_def drop_bit_eq_div)
qed

lemma level_node_at [treemath_simps]: "level (node_at k p) = (if k < 32 then Some k else None)"
  by (simp add: level_def level_loop_node_at)

lemma TreeNodeIndex_new_node_at [treemath_simps]:
  "TreeNodeIndex_new (node_at k p) = Some (tree_node k p)"
  by (cases k)
    (simp_all add: TreeNodeIndex_new_def LeafNodeIndex_from_tree_index_def tree_node_def
      ParentNodeIndex_from_tree_index_def node_at_simps)

lemma TreeNodeIndex_u32_tree_node [treemath_simps]:
  "node_at k p < 2 ^ 32 \<Longrightarrow> TreeNodeIndex_u32 (tree_node k p) = Some (node_at k p)"
  by (cases k)
    (simp_all add: tree_node_def LeafNodeIndex_to_tree_index_def
      ParentNodeIndex_to_tree_index_def node_at_simps mult.commute)

lemma TreeNodeIndex_u32_tree_node_Some:
  "TreeNodeIndex_u32 (tree_node k p) = Some x \<Longrightarrow> x = node_at k p \<and> x < 2 ^ 32"
  by (cases k)
    (auto simp: tree_node_def LeafNodeIndex_to_tree_index_def u32_mul_def u32_add_def
      ParentNodeIndex_to_tree_index_def node_at_simps split: if_splits bind_splits)

lemma LeafNodeIndex_to_tree_index_eq [treemath_simps]:
  "2 * l < 2 ^ 32 \<Longrightarrow> LeafNodeIndex_to_tree_index l = Some (2 * l)"
  by (simp add: LeafNodeIndex_to_tree_index_def mult.commute)

lemma ParentNodeIndex_to_tree_index_node_at [treemath_simps]:
  "node_at (Suc k) p < 2 ^ 32 \<Longrightarrow>
   ParentNodeIndex_to_tree_index (node_at k p) = Some (node_at (Suc k) p)"
  by (simp add: ParentNodeIndex_to_tree_index_def node_at_simps mult.commute)

lemma ParentNodeIndex_from_tree_index_node_at [treemath_simps]:
  "ParentNodeIndex_from_tree_index (node_at (Suc k) p) = Some (node_at k p)"
  by (simp add: ParentNodeIndex_from_tree_index_def node_at_simps)

lemma xor_double: "(2 * x + 1) XOR (2 * y) = 2 * (x XOR y) + (1::nat)"
  by (subst xor_rec) simp

lemma or_double: "(2 * x + 1) OR (2 * y) = 2 * (x OR y) + (1::nat)"
  by (subst or_rec) simp

lemma node_at_xor_left: "node_at (Suc k) p XOR 2 ^ k = node_at k (2 * p)"
proof (induction k)
  case 0
  show ?case by (subst xor_rec) (simp add: node_at_simps)
next
  case (Suc k)
  show ?case
    using Suc xor_double [of "node_at (Suc k) p" "2 ^ k"] by (simp add: node_at_simps)
qed

lemma node_at_xor_right: "node_at (Suc k) p XOR (3 * 2 ^ k) = node_at k (2 * p + 1)"
proof (induction k)
  case 0
  have "(2 * p) XOR 1 = 2 * p + (1::nat)" by (subst xor_rec) simp
  then show ?case by (subst xor_rec) (simp add: node_at_simps)
next
  case (Suc k)
  show ?case
    using Suc xor_double [of "node_at (Suc k) p" "3 * 2 ^ k"] by (simp add: node_at_simps)
qed

lemma node_at_parent:
  "(node_at k p OR 2 ^ k) XOR (p mod 2 * 2 ^ Suc k) = node_at (Suc k) (p div 2)"
proof (induction k)
  case 0
  have "2 * p OR 1 = 2 * p + (1::nat)" by (subst or_rec) simp
  moreover have "p XOR (p mod 2) = 2 * (p div 2)" by (subst xor_rec) simp
  ultimately show ?case
    using xor_double [of p "p mod 2"] by (simp add: node_at_simps mult.commute)
next
  case (Suc k)
  show ?case
    using Suc or_double [of "node_at k p" "2 ^ k"]
      xor_double [of "node_at k p OR 2 ^ k" "p mod 2 * 2 ^ Suc k"]
    by (simp add: node_at_simps algebra_simps)
qed

lemma node_at_Suc_level: "node_at (Suc k) p < 2 ^ 32 \<Longrightarrow> k < 32"
proof (rule ccontr)
  assume "\<not> k < 32" and "node_at (Suc k) p < 2 ^ 32"
  moreover from this have "(2::nat) ^ 32 \<le> 2 ^ k" by (intro power_increasing) auto
  ultimately show False by (simp add: node_at_def)
qed

lemma left_node_at [treemath_simps]:
  assumes "node_at (Suc k) p < 2 ^ 32" "k < 31"
  shows "left (node_at k p) = Some (tree_node k (2 * p))"
  using assms unfolding left_def
  by (simp add: ParentNodeIndex_to_tree_index_node_at level_node_at u32_shl_one node_at_xor_left
      TreeNodeIndex_new_node_at)

lemma u32_shl_three: "k < 31 \<Longrightarrow> u32_shl 3 k = Some (3 * 2 ^ k)"
  using power_increasing [of k 30 "2::nat"] by (simp add: u32_shl_eq)

lemma right_node_at [treemath_simps]:
  assumes "node_at (Suc k) p < 2 ^ 32" "k < 31"
  shows "right (node_at k p) = Some (tree_node k (2 * p + 1))"
  using assms unfolding right_def
  by (simp add: ParentNodeIndex_to_tree_index_node_at level_node_at u32_shl_three
      node_at_xor_right [unfolded Suc_eq_plus1] node_at_xor_right TreeNodeIndex_new_node_at)

lemma u32_shl_bit: "b < 2 \<Longrightarrow> k < 32 \<Longrightarrow> u32_shl b k = Some (b * 2 ^ k)"
  using power_increasing [of k 31 "2::nat"]
  by (cases "b = 0") (simp_all add: u32_shl_eq less_2_cases_iff)

lemma parent_tree_node [treemath_simps]:
  assumes "node_at k p < 2 ^ 32" "k < 31"
  shows "parent (tree_node k p) = Some (node_at k (p div 2))"
  using assms unfolding parent_def
  by (simp add: TreeNodeIndex_u32_tree_node level_node_at u32_shl_one u32_shl_bit
      node_at_div_Suc node_at_parent ParentNodeIndex_from_tree_index_node_at Let_def
      del: power_Suc)

lemma parent_tree_node_Some:
  assumes "parent (tree_node k p) = Some q"
  shows "k < 31 \<and> q = node_at k (p div 2)"
proof -
  from assms obtain x where x: "TreeNodeIndex_u32 (tree_node k p) = Some x"
    by (auto simp: parent_def split: bind_splits)
  then have "x = node_at k p" "node_at k p < 2 ^ 32"
    using TreeNodeIndex_u32_tree_node_Some by blast+
  moreover from this x assms have "k < 31"
    by (auto simp: parent_def level_node_at u32_shr_def split: bind_splits if_splits)
  ultimately show ?thesis
    using assms by (simp add: parent_tree_node)
qed

section \<open>Nodes of a full tree\<close>

text \<open>The number of nodes of the full tree with \<open>2 ^ d\<close> leaves.\<close>

definition depth_size :: "nat \<Rightarrow> TreeSize" where
  "depth_size d = 2 ^ Suc d - 1"

definition full_size :: "TreeSize \<Rightarrow> bool" where
  "full_size sz \<longleftrightarrow> (\<exists>d < 30. sz = depth_size d)"

definition in_tree :: "nat \<Rightarrow> nat \<Rightarrow> nat \<Rightarrow> bool" where
  "in_tree d k p \<longleftrightarrow> k \<le> d \<and> p < 2 ^ (d - k)"

lemma full_sizeE:
  assumes "full_size sz"
  obtains d where "d < 31" "d < 30" "sz = depth_size d"
  using assms that by (auto simp: full_size_def)

lemma full_size_depth_size [simp, intro]: "d < 30 \<Longrightarrow> full_size (depth_size d)"
  by (auto simp: full_size_def)

lemma full_size_7: "full_size 7"
  unfolding full_size_def by (rule exI [of _ 2]) (simp add: depth_size_def)

lemma depth_size_eq: "depth_size d = 2 * (2 ^ d - 1) + 1"
  by (rule power_two_Suc [of d]) (simp add: depth_size_def)

lemma depth_size_plus_1: "depth_size d + 1 = 2 ^ Suc d"
  by (simp add: depth_size_def)

lemma depth_size_less: "d < 31 \<Longrightarrow> depth_size d < 2 ^ 31"
  using power_increasing [of "Suc d" 31 "2::nat"] depth_size_plus_1 [of d] by simp

lemma leaf_count_depth_size [simp]: "TreeSize_leaf_count (depth_size d) = 2 ^ d"
  by (simp add: TreeSize_leaf_count_def depth_size_eq)

lemma parent_count_depth_size [simp]: "TreeSize_parent_count (depth_size d) = 2 ^ d - 1"
  by (simp add: TreeSize_parent_count_def depth_size_eq)

lemma node_at_less_iff: "node_at k p < depth_size d \<longleftrightarrow> in_tree d k p"
proof
  assume "node_at k p < depth_size d"
  then have lt: "(2 * p + 1) * 2 ^ k < (2::nat) ^ Suc d"
    using node_at_plus_1 [of k p] depth_size_plus_1 [of d] by linarith
  then have "(2::nat) ^ k < 2 ^ Suc d"
    by (rule le_less_trans [rotated]) simp
  then have k: "k \<le> d"
    using power_less_imp_less_exp [of "2::nat" k "Suc d"] by simp
  then have "(2::nat) ^ Suc d = (2 * 2 ^ (d - k)) * 2 ^ k"
    by (simp flip: power_add)
  with lt have "2 * p + 1 < 2 * 2 ^ (d - k)"
    using mult_less_cancel2 by metis
  with k show "in_tree d k p" by (simp add: in_tree_def)
next
  assume t: "in_tree d k p"
  then have "(2 * p + 1) * 2 ^ k < (2 * 2 ^ (d - k)) * 2 ^ k"
    by (intro mult_strict_right_mono) (simp_all add: in_tree_def)
  also have "\<dots> = (2::nat) ^ Suc d"
    using t by (simp add: in_tree_def flip: power_add)
  finally show "node_at k p < depth_size d"
    using node_at_plus_1 [of k p] depth_size_plus_1 [of d] by linarith
qed

lemma in_tree_bound:
  assumes "in_tree d k p" "d < 31"
  shows "node_at k p < 2 ^ 32" "k < 31"
  using assms node_at_less_iff [of k p d] depth_size_less [of d] by (auto simp: in_tree_def)

lemma half_power: "k < d \<Longrightarrow> (2::nat) ^ (d - k) = 2 * 2 ^ (d - Suc k)"
  by (simp add: Suc_diff_Suc flip: power_Suc)

lemma in_tree_children:
  assumes "in_tree d (Suc k) p"
  shows "in_tree d k (2 * p)" "in_tree d k (2 * p + 1)"
  using assms half_power [of k d] by (auto simp: in_tree_def)

lemma in_tree_parent: "in_tree d k p \<Longrightarrow> k < d \<Longrightarrow> in_tree d (Suc k) (p div 2)"
  using half_power [of k d] by (auto simp: in_tree_def)

lemma in_tree_leaf: "in_tree d 0 l \<longleftrightarrow> l < 2 ^ d"
  by (simp add: in_tree_def)

lemma in_tree_div: "l < 2 ^ d \<Longrightarrow> k \<le> d \<Longrightarrow> in_tree d k (l div 2 ^ k)"
  by (simp add: in_tree_def less_mult_imp_div_less flip: power_add)

lemma parent_index_in_tree:
  assumes "i < 2 ^ d - 1"
  obtains k p where "i = node_at k p" "in_tree d (Suc k) p"
proof -
  obtain k p where i: "i = node_at k p" using node_at_exhaust by blast
  have "node_at (Suc k) p < depth_size d"
    using assms by (simp add: i node_at_Suc depth_size_eq)
  with i that show ?thesis by (simp only: node_at_less_iff)
qed

lemma parent_in_tree_bound: "in_tree n (Suc k) p \<Longrightarrow> node_at k p < 2 ^ n - 1"
  using node_at_less_iff [of "Suc k" p n] by (simp add: node_at_Suc depth_size_eq)

lemma bit_length_power: "2 ^ d \<le> n \<Longrightarrow> n < 2 ^ Suc d \<Longrightarrow> bit_length n = Suc d"
proof (induction d arbitrary: n)
  case 0
  then have "n = 1" by simp
  then show ?case by (simp add: bit_length.simps)
next
  case (Suc d)
  then have "bit_length (n div 2) = Suc d" by (intro Suc.IH) auto
  moreover have "n \<noteq> 0" using Suc.prems by auto
  ultimately show ?case by (simp add: bit_length.simps [of n])
qed

lemma log2_eq: "2 ^ d \<le> n \<Longrightarrow> n < 2 ^ Suc d \<Longrightarrow> d < 32 \<Longrightarrow> log2 n = d"
  by (auto simp: log2_def leading_zeros_def bit_length_power)

lemma log2_depth_size [simp]: "d < 32 \<Longrightarrow> log2 (depth_size d) = d"
  using one_le_power [of "2::nat" d] by (intro log2_eq) (auto simp: depth_size_def)

lemma TreeSize_new_eq [treemath_simps]:
  assumes "2 ^ d \<le> n" "n < 2 ^ Suc d" "d < 31"
  shows "TreeSize_new n = Some (depth_size d)"
proof -
  have "log2 n = d" using assms by (intro log2_eq) auto
  moreover have "u32_shl (Suc 0) (Suc d) = Some (2 ^ Suc d)"
    using assms(3) by (simp del: power_Suc)
  ultimately show ?thesis
    using depth_size_plus_1 [of d] by (simp add: TreeSize_new_def depth_size_def)
qed

lemma depth_size_Suc: "depth_size (Suc d) = 2 * depth_size d + 1"
  by (rule power_two_Suc [of d]) (simp add: depth_size_def)

lemma TreeSize_inc_depth_size [treemath_simps]:
  "d < 30 \<Longrightarrow> TreeSize_inc (depth_size d) = Some (depth_size (Suc d))"
  using depth_size_less [of d] by (simp add: TreeSize_inc_def depth_size_Suc mult.commute)

lemma TreeSize_dec_depth_size [treemath_simps]:
  "TreeSize_dec (depth_size (Suc d)) = Some (depth_size d)"
  using depth_size_eq [of d] by (simp add: TreeSize_dec_def depth_size_Suc)

lemma node_at_root: "node_at d 0 = 2 ^ d - 1"
  by (simp add: node_at_def)

lemma root_depth_size [treemath_simps]:
  assumes "d < 31"
  shows "root (depth_size d) = Some (tree_node d 0)"
proof -
  have "depth_size d > 0" by (simp add: depth_size_eq)
  with assms TreeNodeIndex_new_node_at [of d 0] show ?thesis
    by (simp add: root_def node_at_root)
qed

lemmas tree_bounds = in_tree_bound in_tree_children in_tree_parent

section \<open>Paths\<close>

text \<open>
  The loop of \<open>direct_path\<close>. The level of the position grows with every step, and the
  shift in \<open>parent\<close> overflows at level 31, so the loop ends: at the root, or in a panic.
\<close>

definition levels_left :: "u32 \<Rightarrow> nat" where
  "levels_left x = (case level x of None \<Rightarrow> 0 | Some k \<Rightarrow> 32 - k)"

lemma parent_step:
  assumes "TreeNodeIndex_new (node_at k p) = Some i" "parent i = Some q"
    "ParentNodeIndex_to_tree_index q = Some y"
  shows "k < 31" "q = node_at k (p div 2)" "y = node_at (Suc k) (p div 2)"
proof -
  show q: "k < 31" "q = node_at k (p div 2)"
    using assms(1,2) parent_tree_node_Some by (auto simp: TreeNodeIndex_new_node_at)
  show "y = node_at (Suc k) (p div 2)"
    using assms(3) q
    by (auto simp: ParentNodeIndex_to_tree_index_def u32_mul_def u32_add_def node_at_simps
        split: bind_splits if_splits)
qed

lemma levels_left_parent:
  assumes "TreeNodeIndex_new x = Some i" "parent i = Some q"
    "ParentNodeIndex_to_tree_index q = Some y"
  shows "levels_left y < levels_left x"
proof -
  obtain k p where x: "x = node_at k p" using node_at_exhaust by blast
  with parent_step [OF assms [unfolded x]] show ?thesis
    by (simp add: levels_left_def level_node_at)
qed

function direct_path_loop :: "u32 \<Rightarrow> u32 \<Rightarrow> ParentNodeIndex list option" where
  "direct_path_loop r x =
     (if x = r then Some []
      else case TreeNodeIndex_new x of None \<Rightarrow> None | Some i \<Rightarrow>
        case parent i of None \<Rightarrow> None | Some q \<Rightarrow>
          case ParentNodeIndex_to_tree_index q of None \<Rightarrow> None | Some y \<Rightarrow>
            map_option ((#) q) (direct_path_loop r y))"
  by pat_completeness auto
termination
  by (relation "measure (\<lambda>(r, x). levels_left x)") (auto intro: levels_left_parent)

declare direct_path_loop.simps [simp del]

definition direct_path :: "LeafNodeIndex \<Rightarrow> TreeSize \<Rightarrow> ParentNodeIndex list option" where
  "direct_path node_index sz = do {
     rt \<leftarrow> root sz;
     r \<leftarrow> TreeNodeIndex_u32 rt;
     x \<leftarrow> LeafNodeIndex_to_tree_index node_index;
     direct_path_loop r x }"

definition copath :: "LeafNodeIndex \<Rightarrow> TreeSize \<Rightarrow> TreeNodeIndex list option" where
  "copath leaf_index sz = do {
     path \<leftarrow> direct_path leaf_index sz;
     those (map sibling (Leaf leaf_index # map Parent (butlast path))) }"

function lca_loop :: "u32 \<Rightarrow> u32 \<Rightarrow> nat \<Rightarrow> u32 \<times> nat" where
  "lca_loop xn yn k =
     (if xn = yn then (xn, k) else lca_loop (drop_bit 1 xn) (drop_bit 1 yn) (k + 1))"
  by pat_completeness auto
termination
  by (relation "measure (\<lambda>(xn, yn, k). xn + yn)") (auto simp: drop_bit_eq_div)

declare lca_loop.simps [simp del]

definition lowest_common_ancestor :: "LeafNodeIndex \<Rightarrow> LeafNodeIndex \<Rightarrow> ParentNodeIndex option" where
  "lowest_common_ancestor a b = do {
     x \<leftarrow> LeafNodeIndex_to_tree_index a;
     y \<leftarrow> LeafNodeIndex_to_tree_index b;
     kx \<leftarrow> level x;
     ky \<leftarrow> level y;
     let lx = kx + 1;
     let ly = ky + 1;
     y_above \<leftarrow> (if lx \<le> ly then do { s \<leftarrow> u32_shr x ly; t \<leftarrow> u32_shr y ly; Some (s = t) }
               else Some False);
     x_above \<leftarrow> (if \<not> y_above \<and> ly \<le> lx
               then do { s \<leftarrow> u32_shr x lx; t \<leftarrow> u32_shr y lx; Some (s = t) }
               else Some False);
     if y_above then ParentNodeIndex_from_tree_index y
     else if x_above then ParentNodeIndex_from_tree_index x
     else do {
       let (xn, k) = lca_loop x y 0;
       h \<leftarrow> u32_shl xn k;
       j \<leftarrow> u32_sub k 1;
       m \<leftarrow> u32_shl 1 j;
       s \<leftarrow> u32_add h m;
       n \<leftarrow> u32_sub s 1;
       ParentNodeIndex_from_tree_index n } }"

definition common_direct_path ::
    "LeafNodeIndex \<Rightarrow> LeafNodeIndex \<Rightarrow> TreeSize \<Rightarrow> ParentNodeIndex list option" where
  "common_direct_path x y sz = do {
     x_path \<leftarrow> direct_path x sz;
     y_path \<leftarrow> direct_path y sz;
     Some (rev (map fst (takeWhile (\<lambda>(a, b). a = b) (zip (rev x_path) (rev y_path))))) }"

lemma direct_path_loop_node_at:
  assumes "d < 31" "l < 2 ^ d" "k \<le> d"
  shows "direct_path_loop (node_at d 0) (node_at k (l div 2 ^ k)) =
           Some (map (\<lambda>j. node_at j (l div 2 ^ Suc j)) [k..<d])"
  using assms(3)
proof (induction "d - k" arbitrary: k)
  case 0
  then show ?case using assms by (simp add: direct_path_loop.simps)
next
  case (Suc n)
  then have k: "k < d" by simp
  have t: "in_tree d k (l div 2 ^ k)" "in_tree d (Suc k) (l div 2 ^ Suc k)"
    using assms k by (simp_all add: in_tree_div del: power_Suc)
  have half: "l div 2 ^ k div 2 = l div 2 ^ Suc k"
    by (simp only: power_Suc2 div_mult2_eq)
  have "direct_path_loop (node_at d 0) (node_at (Suc k) (l div 2 ^ Suc k)) =
      Some (map (\<lambda>j. node_at j (l div 2 ^ Suc j)) [Suc k..<d])"
    using Suc.hyps(1) [of "Suc k"] Suc.hyps(2) k by (simp del: power_Suc)
  with k t half in_tree_bound [OF t(1) assms(1)] in_tree_bound [OF t(2) assms(1)] show ?case
    by (simp add: direct_path_loop.simps [of _ "node_at k _"] treemath_simps upt_conv_Cons
        del: power_Suc)
qed

lemma direct_path_loop_outside:
  "(k \<le> d \<Longrightarrow> 0 < p div 2 ^ (d - k)) \<Longrightarrow> direct_path_loop (node_at d 0) (node_at k p) = None"
proof (induction "levels_left (node_at k p)" arbitrary: k p rule: less_induct)
  case less
  have ne: "node_at k p \<noteq> node_at d 0"
    using less.prems by auto
  have "direct_path_loop (node_at d 0) y = None"
    if step: "TreeNodeIndex_new (node_at k p) = Some i" "parent i = Some q"
      "ParentNodeIndex_to_tree_index q = Some y" for i q y
  proof -
    have "0 < p div 2 div 2 ^ (d - Suc k)" if "Suc k \<le> d"
    proof -
      have "p div 2 div 2 ^ (d - Suc k) = p div 2 ^ (d - k)"
        using that by (simp add: half_power div_mult2_eq)
      then show ?thesis using less.prems that by simp
    qed
    with less.hyps [of "Suc k" "p div 2"] parent_step [OF step] levels_left_parent [OF step]
    show ?thesis by simp
  qed
  with ne show ?case
    by (simp add: direct_path_loop.simps [of _ "node_at k p"] split: option.split)
qed

lemma root_position: "d < 31 \<Longrightarrow> TreeNodeIndex_u32 (tree_node d 0) = Some (node_at d 0)"
  using in_tree_bound [of d d 0] by (simp add: TreeNodeIndex_u32_tree_node in_tree_def)

lemma direct_path_depth_size [treemath_simps]:
  assumes "d < 31"
  shows "direct_path l (depth_size d) =
    (if l < 2 ^ d then Some (map (\<lambda>j. node_at j (l div 2 ^ Suc j)) [0..<d]) else None)"
proof (cases "l < 2 ^ d")
  case True
  then have "2 * l < 2 ^ 32"
    using in_tree_bound [of d 0 l] assms by (simp add: in_tree_leaf node_at_0)
  with True assms direct_path_loop_node_at [of d l 0] show ?thesis
    by (simp add: direct_path_def root_depth_size root_position LeafNodeIndex_to_tree_index_eq
        node_at_0)
next
  case False
  then have "direct_path_loop (node_at d 0) (node_at 0 l) = None"
    by (intro direct_path_loop_outside) (simp add: div_greater_zero_iff)
  with False assms show ?thesis
    by (simp add: direct_path_def root_depth_size root_position LeafNodeIndex_to_tree_index_def
        node_at_0 mult.commute u32_mul_def)
qed

section \<open>Siblings and the copath\<close>

definition flip :: "nat \<Rightarrow> nat" where
  "flip p = (if even p then p + 1 else p - 1)"

lemma flip_div2 [simp]: "flip p div 2 = p div 2"
  by (simp add: flip_def) presburger

lemma flip_flip [simp]: "flip (flip p) = p"
  by (simp add: flip_def)

lemma flip_neq [simp]: "flip p \<noteq> p"
  by (auto simp: flip_def elim: oddE)

lemma flip_unique: "p div 2 = q div 2 \<Longrightarrow> p \<noteq> q \<Longrightarrow> q = flip p"
  by (simp add: flip_def) presburger

lemma in_tree_flip: "in_tree d k p \<Longrightarrow> k < d \<Longrightarrow> in_tree d k (flip p)"
  using half_power [of k d] by (auto simp: in_tree_def flip_def elim: evenE)

lemma node_at_less_parent: "node_at k p < node_at (Suc k) (p div 2) \<longleftrightarrow> even p"
proof -
  have "node_at k p < node_at (Suc k) (p div 2) \<longleftrightarrow>
      node_at k p + 1 < node_at (Suc k) (p div 2) + 1"
    by simp
  also have "\<dots> \<longleftrightarrow> (2 * p + 1) * 2 ^ k < (2 * (2 * (p div 2) + 1)) * 2 ^ k"
    by (simp only: node_at_plus_1) (simp only: power_Suc ac_simps)
  also have "\<dots> \<longleftrightarrow> 2 * p + 1 < 2 * (2 * (p div 2) + 1)"
    by (rule mult_less_cancel2 [THEN trans]) simp
  also have "\<dots> \<longleftrightarrow> even p" by presburger
  finally show ?thesis .
qed

lemma sibling_tree_node [treemath_simps]:
  assumes t: "in_tree d k p" and k: "k < d" and d: "d < 31"
  shows "sibling (tree_node k p) = Some (tree_node k (flip p))"
proof -
  note b = in_tree_bound [OF t d] in_tree_bound [OF in_tree_parent [OF t k] d]
  have "2 * (p div 2) = (if even p then p else p - 1)" by presburger
  moreover have "odd p \<Longrightarrow> p \<noteq> 0" by (cases p) auto
  ultimately show ?thesis
    using b by (simp add: sibling_def treemath_simps node_at_less_parent flip_def)
qed

lemma copath_depth_size [treemath_simps]:
  assumes "0 < d" "d < 31" "l < 2 ^ d"
  shows "copath l (depth_size d) = Some (map (\<lambda>j. tree_node j (flip (l div 2 ^ j))) [0..<d])"
proof -
  have "Leaf l # map Parent (butlast (map (\<lambda>j. node_at j (l div 2 ^ Suc j)) [0..<d])) =
      map (\<lambda>j. tree_node j (l div 2 ^ j)) [0..<d]"
    using assms(1)
    by (intro nth_equalityI) (auto simp: nth_Cons nth_butlast tree_node_def split: nat.split)
  moreover have "those (map sibling (map (\<lambda>j. tree_node j (l div 2 ^ j)) [0..<d])) =
      Some (map (\<lambda>j. tree_node j (flip (l div 2 ^ j))) [0..<d])"
    using assms in_tree_div [of l d]
    by (simp only: map_map comp_def, intro those_map_Some) (simp add: sibling_tree_node [of d])
  ultimately show ?thesis
    using assms by (simp only: copath_def direct_path_depth_size if_True bind.bind_lunit)
qed

section \<open>Common ancestors\<close>

lemma lca_loop_eq:
  "x div 2 ^ n = y div 2 ^ n \<Longrightarrow> (\<And>i. i < n \<Longrightarrow> x div 2 ^ i \<noteq> y div 2 ^ i) \<Longrightarrow>
   lca_loop x y k = (x div 2 ^ n, k + n)"
proof (induction n arbitrary: x y k)
  case 0
  then show ?case by (simp add: lca_loop.simps)
next
  case (Suc n)
  have "x \<noteq> y" using Suc.prems(2) [of 0] by simp
  moreover have "lca_loop (x div 2) (y div 2) (Suc k) = (x div 2 div 2 ^ n, Suc k + n)"
    using Suc.prems Suc.prems(2) [of "Suc i" for i] by (intro Suc.IH) (auto simp: div_mult2_eq)
  ultimately show ?case
    by (simp add: lca_loop.simps [of x y k] drop_bit_eq_div div_mult2_eq)
qed

text \<open>The level below the lowest common ancestor of two leaves.\<close>

lemma split_level_exists:
  fixes a b :: nat
  assumes "a \<noteq> b" "a < 2 ^ d" "b < 2 ^ d"
  obtains j where "j < d" "a div 2 ^ j \<noteq> b div 2 ^ j"
    "\<forall>i > j. a div 2 ^ i = b div 2 ^ i" "\<forall>i \<le> j. a div 2 ^ i \<noteq> b div 2 ^ i"
proof -
  let ?S = "{i. a div 2 ^ i \<noteq> b div 2 ^ i}"
  have up: "a div 2 ^ i = b div 2 ^ i" if "a div 2 ^ m = b div 2 ^ m" "m \<le> i" for m i
  proof -
    have "(2::nat) ^ i = 2 ^ m * 2 ^ (i - m)" using that(2) by (simp flip: power_add)
    then show ?thesis using that(1) by (simp add: div_mult2_eq)
  qed
  have sub: "?S \<subseteq> {..<d}"
  proof
    fix i assume "i \<in> ?S"
    then show "i \<in> {..<d}"
      using up [of d i] assms by (auto simp: not_less [symmetric])
  qed
  then have fin: "finite ?S" by (rule finite_subset) simp
  have "0 \<in> ?S" using assms(1) by simp
  then have "?S \<noteq> {}" by blast
  with fin have M: "Max ?S \<in> ?S" by (rule Max_in)
  show ?thesis
  proof (rule that [of "Max ?S"])
    show "Max ?S < d" using M sub by auto
    show "a div 2 ^ Max ?S \<noteq> b div 2 ^ Max ?S" using M by simp
    show "\<forall>i > Max ?S. a div 2 ^ i = b div 2 ^ i"
      using Max_ge [OF fin] by (metis (mono_tags) mem_Collect_eq not_less)
    show "\<forall>i \<le> Max ?S. a div 2 ^ i \<noteq> b div 2 ^ i"
      using up M by blast
  qed
qed

lemma lowest_common_ancestor_eq:
  assumes "a < 2 ^ d" "b < 2 ^ d" "d < 31" "j < d"
    and diff: "\<And>i. i \<le> j \<Longrightarrow> a div 2 ^ i \<noteq> b div 2 ^ i"
    and same: "a div 2 ^ Suc j = b div 2 ^ Suc j"
  shows "lowest_common_ancestor a b = Some (node_at j (a div 2 ^ Suc j))"
proof -
  let ?p = "a div 2 ^ Suc j"
  have t: "in_tree d (Suc j) ?p" using assms by (intro in_tree_div) auto
  note bnd = in_tree_bound [OF t assms(3)]
  have dbl: "2 * x div 2 ^ Suc i = x div 2 ^ i" for x i :: nat by simp
  have loop: "lca_loop (2 * a) (2 * b) 0 = (?p, Suc (Suc j))"
  proof -
    have "2 * a div 2 ^ i \<noteq> 2 * b div 2 ^ i" if "i < Suc (Suc j)" for i
      using that diff [of "i - 1"] diff [of 0] by (cases i) (simp_all only: dbl, auto)
    moreover have "2 * a div 2 ^ Suc (Suc j) = 2 * b div 2 ^ Suc (Suc j)"
      by (simp only: dbl same)
    ultimately have "lca_loop (2 * a) (2 * b) 0 = (2 * a div 2 ^ Suc (Suc j), 0 + Suc (Suc j))"
      by (intro lca_loop_eq)
    then show ?thesis by (simp only: dbl add_0)
  qed
  have val: "?p * 2 ^ Suc (Suc j) + 2 ^ Suc j - 1 = node_at (Suc j) ?p"
    by (simp only: node_at_def)
  have le: "?p * 2 ^ Suc (Suc j) + 2 ^ Suc j < 2 ^ 32"
    using node_at_less_iff [of "Suc j" ?p d] t depth_size_less [OF assms(3)] val
    by (simp del: power_Suc)
  have ab: "2 * a < 2 ^ 32" "2 * b < 2 ^ 32" "a \<noteq> b"
    using in_tree_bound [of d 0 a] in_tree_bound [of d 0 b] assms diff [of 0]
    by (simp_all add: in_tree_leaf node_at_0)
  have lvl: "level (2 * x) = Some 0" for x by (simp add: level_def)
  from le have shl: "u32_shl ?p (Suc (Suc j)) = Some (?p * 2 ^ Suc (Suc j))"
    using assms(3,4) by (intro u32_shl_eq) linarith+
  have "Suc 0 \<le> ?p * 2 ^ Suc (Suc j) + 2 ^ Suc j"
    by (intro trans_le_add2) simp
  then show ?thesis
    using ab bnd le assms(3,4) loop shl val ParentNodeIndex_from_tree_index_node_at [of j ?p]
    by (simp add: lowest_common_ancestor_def LeafNodeIndex_to_tree_index_eq lvl del: power_Suc)
qed

lemma common_direct_path_eq:
  assumes "a < 2 ^ d" "b < 2 ^ d" "d < 31" "j < d"
    and diff: "a div 2 ^ j \<noteq> b div 2 ^ j"
    and same: "\<And>i. j < i \<Longrightarrow> a div 2 ^ i = b div 2 ^ i"
  shows "common_direct_path a b (depth_size d) =
    Some (map (\<lambda>i. node_at i (a div 2 ^ Suc i)) [j..<d])"
proof -
  let ?f = "\<lambda>i. node_at i (a div 2 ^ Suc i)" and ?g = "\<lambda>i. node_at i (b div 2 ^ Suc i)"
  have "takeWhile (\<lambda>(x, y). x = y) (zip (rev (map ?f [0..<d])) (rev (map ?g [0..<d]))) =
      rev (map (\<lambda>i. (?f i, ?g i)) [j..<d])"
    using assms by (intro takeWhile_zip_rev_upt) (auto simp del: power_Suc)
  then show ?thesis
    using assms
    by (simp only: common_direct_path_def direct_path_depth_size if_True bind.bind_lunit)
      (simp add: rev_map comp_def)
qed

section \<open>Leaves below a node\<close>

text \<open>A leaf lies below a node if the node is the leaf or on the leaf's direct path.\<close>

definition leaf_below :: "TreeSize \<Rightarrow> TreeNodeIndex \<Rightarrow> LeafNodeIndex \<Rightarrow> bool" where
  "leaf_below sz x m \<longleftrightarrow>
     (case direct_path m sz of None \<Rightarrow> False | Some ps \<Rightarrow> x \<in> set (Leaf m # map Parent ps))"

text \<open>A list of parents that climbs from a node to the root, one parent at a time.\<close>

fun climbs_to_root :: "TreeSize \<Rightarrow> TreeNodeIndex \<Rightarrow> ParentNodeIndex list \<Rightarrow> bool" where
  "climbs_to_root sz x [] \<longleftrightarrow> root sz = Some x"
| "climbs_to_root sz x (q # qs) \<longleftrightarrow> parent x = Some q \<and> climbs_to_root sz (Parent q) qs"

lemma tree_node_inj [simp]: "tree_node k p = tree_node j q \<longleftrightarrow> k = j \<and> p = q"
  by (cases k; cases j) (auto simp: tree_node_def)

lemma tree_node_Suc [simp]: "tree_node (Suc k) p = Parent (node_at k p)"
  by (simp add: tree_node_def)

lemma tree_node_0 [simp]: "tree_node 0 p = Leaf p"
  by (simp add: tree_node_def)

lemma path_nodes:
  "Leaf l # map Parent (map (\<lambda>j. node_at j (l div 2 ^ Suc j)) [0..<d]) =
   map (\<lambda>k. tree_node k (l div 2 ^ k)) [0..<Suc d]"
  by (rule nth_equalityI) (auto simp: nth_Cons tree_node_def simp del: upt_Suc split: nat.split)

lemma leaf_below_tree_node:
  assumes "d < 31" "m < 2 ^ d"
  shows "leaf_below (depth_size d) (tree_node k p) m \<longleftrightarrow> k \<le> d \<and> m div 2 ^ k = p"
proof -
  have "leaf_below (depth_size d) (tree_node k p) m \<longleftrightarrow>
      tree_node k p \<in> set (map (\<lambda>k. tree_node k (m div 2 ^ k)) [0..<Suc d])"
    using assms
    by (simp only: leaf_below_def direct_path_depth_size if_True option.case path_nodes)
  then show ?thesis by (auto simp: less_Suc_eq_le simp del: upt_Suc)
qed

lemma climbs_to_root_path:
  assumes "d < 31" "l < 2 ^ d" "k \<le> d"
  shows "climbs_to_root (depth_size d) (tree_node k (l div 2 ^ k))
    (map (\<lambda>j. node_at j (l div 2 ^ Suc j)) [k..<d])"
  using assms(3)
proof (induction "d - k" arbitrary: k)
  case 0
  then show ?case using assms by (simp add: root_depth_size)
next
  case (Suc n)
  then have k: "k < d" by simp
  have t: "in_tree d k (l div 2 ^ k)" using assms k by (simp add: in_tree_div)
  have half: "l div 2 ^ k div 2 = l div 2 ^ Suc k" by (simp only: power_Suc2 div_mult2_eq)
  have "climbs_to_root (depth_size d) (Parent (node_at k (l div 2 ^ Suc k)))
      (map (\<lambda>j. node_at j (l div 2 ^ Suc j)) [Suc k..<d])"
    using Suc.hyps(1) [of "Suc k"] Suc.hyps(2) k by (simp del: power_Suc)
  with k half in_tree_bound [OF t assms(1)] show ?case
    by (simp add: upt_conv_Cons parent_tree_node del: power_Suc)
qed

section \<open>Properties\<close>

text \<open>For every parent index of a full tree of at most \<open>2 ^ 30\<close> nodes, the two
  children computed by \<open>left\<close> and \<open>right\<close> exist without overflow, lie left and
  right of it in the array, are nodes of the tree, have it as their parent and are each other's
  siblings.\<close>

theorem children_parent:
  assumes "full_size sz" "i < TreeSize_parent_count sz"
  shows "\<exists>l r. left i = Some l \<and> right i = Some r \<and> l < Parent i \<and> Parent i < r \<and>
    is_node_in_tree l sz = Some True \<and> is_node_in_tree r sz = Some True \<and>
    parent l = Some i \<and> parent r = Some i \<and> sibling l = Some r \<and> sibling r = Some l"
proof -
  from assms(1) obtain d where d: "d < 30" "sz = depth_size d" by (auto simp: full_size_def)
  with assms(2) obtain k p where i: "i = node_at k p" and t: "in_tree d (Suc k) p"
    using parent_index_in_tree [of i d] by auto
  have kd: "k < d" and d31: "d < 31" using t d by (auto simp: in_tree_def)
  note ch = in_tree_children [OF t]
  note b = in_tree_bound [OF t d31] in_tree_bound [OF ch(1) d31] in_tree_bound [OF ch(2) d31]
  have pos: "tree_position (tree_node j q) = node_at j q" for j q
    by (cases j) (simp_all add: tree_node_def node_at_simps)
  have in_t: "is_node_in_tree (tree_node k q) sz = Some True" if "in_tree d k q" for q
    using that d(2) in_tree_bound [OF that d31]
    by (simp add: is_node_in_tree_def TreeNodeIndex_u32_tree_node node_at_less_iff)
  have odd: "\<not> node_at k (2 * p + 1) < node_at (Suc k) p"
    using node_at_less_parent [of k "2 * p + 1"] by simp
  have "node_at k (2 * p + 1) \<noteq> node_at (Suc k) p" by simp
  with odd have "node_at (Suc k) p < node_at k (2 * p + 1)" by linarith
  then have ord: "tree_node k (2 * p) < Parent i" "Parent i < tree_node k (2 * p + 1)"
    using node_at_less_parent [of k "2 * p"] pos [of "Suc k" p]
    by (simp_all add: less_TreeNodeIndex_def TreeNodeIndex_le_def pos i)
  have fl: "flip (2 * p) = 2 * p + 1" "flip (2 * p + 1) = 2 * p" by (simp_all add: flip_def)
  show ?thesis
    using b kd d31 i fl ord in_t [OF ch(1)] in_t [OF ch(2)] sibling_tree_node [OF ch(1) kd d31]
      sibling_tree_node [OF ch(2) kd d31]
    by (simp add: left_node_at right_node_at parent_tree_node)
qed

theorem children_parent_witness:
  "full_size 7 \<and> (\<exists>l r. left 1 = Some l \<and> right 1 = Some r \<and> l < Parent 1 \<and> Parent 1 < r \<and>
    is_node_in_tree l 7 = Some True \<and> is_node_in_tree r 7 = Some True \<and>
    parent l = Some 1 \<and> parent r = Some 1 \<and> sibling l = Some r \<and> sibling r = Some l)"
  using children_parent [of 7 1] full_size_7 by (simp add: TreeSize_parent_count_def)

text \<open>(C40) The loop of \<open>direct_path\<close> returns exactly for the leaves of the tree: for a
  leaf inside it ends at the root, for any other leaf it climbs past the root and ends in an
  overflow panic.\<close>

theorem direct_path_returns_iff:
  assumes "full_size sz"
  shows "direct_path l sz \<noteq> None \<longleftrightarrow> l < TreeSize_leaf_count sz"
proof -
  from assms obtain d where "d < 30" "sz = depth_size d" by (auto simp: full_size_def)
  then show ?thesis by (simp add: direct_path_depth_size)
qed

theorem direct_path_returns_iff_witness:
  "full_size 7 \<and> direct_path 3 7 \<noteq> None \<and> direct_path 4 7 = None"
proof -
  note s = full_size_7
  show ?thesis
    using s direct_path_returns_iff [OF s, of 3] direct_path_returns_iff [OF s, of 4]
    by (simp add: TreeSize_leaf_count_def)
qed

text \<open>(C11) The direct path of a leaf is the chain of its ancestors: each entry is the parent
  of the previous one, the last is the root, and the tree has \<open>2 ^ n\<close> leaves for a path of
  \<open>n\<close> entries.\<close>

theorem direct_path_climbs:
  assumes "full_size sz" "direct_path l sz = Some ps"
  shows "climbs_to_root sz (Leaf l) ps \<and> TreeSize_leaf_count sz = 2 ^ length ps"
proof -
  from assms obtain d where d: "d < 30" "sz = depth_size d" by (auto simp: full_size_def)
  with assms(2) have "l < 2 ^ d" "ps = map (\<lambda>j. node_at j (l div 2 ^ Suc j)) [0..<d]"
    by (simp_all add: direct_path_depth_size split: if_splits)
  with d climbs_to_root_path [of d l 0] show ?thesis by simp
qed

theorem direct_path_climbs_witness:
  "full_size 7 \<and> direct_path 2 7 = Some [2, 1] \<and>
   climbs_to_root 7 (Leaf 2) [2, 1] \<and> TreeSize_leaf_count 7 = 2 ^ length [2, 1 :: nat]"
proof -
  have d: "(7::nat) = depth_size 2" by (simp add: depth_size_def)
  note s = full_size_7
  have p: "direct_path 2 7 = Some [2, 1]"
    unfolding d direct_path_depth_size [of 2, simplified] by (simp add: node_at_def upt_rec)
  show ?thesis using s p direct_path_climbs [OF s p] by simp
qed

text \<open>(C12) The copath of a leaf partitions the other leaves: every other leaf of the tree
  lies below exactly one copath node, and the leaf itself below none.\<close>

theorem copath_partition:
  assumes "full_size sz" "l < TreeSize_leaf_count sz" "m < TreeSize_leaf_count sz" "l \<noteq> m"
  shows "\<exists>cs. copath l sz = Some cs \<and> (\<exists>!j. j < length cs \<and> leaf_below sz (cs ! j) m) \<and>
    (\<forall>c \<in> set cs. \<not> leaf_below sz c l)"
proof -
  from assms(1) obtain d where d: "d < 31" "sz = depth_size d" by (rule full_sizeE)
  with assms have lm: "l < 2 ^ d" "m < 2 ^ d" by auto
  with assms(4) have d0: "0 < d" by (cases d) auto
  from assms(4) lm obtain j where j: "j < d" "l div 2 ^ j \<noteq> m div 2 ^ j"
      "\<forall>i > j. l div 2 ^ i = m div 2 ^ i" "\<forall>i \<le> j. l div 2 ^ i \<noteq> m div 2 ^ i"
    by (rule split_level_exists [of l m d])
  let ?cs = "map (\<lambda>j. tree_node j (flip (l div 2 ^ j))) [0..<d]"
  have half: "x div 2 ^ i div 2 = x div 2 ^ Suc i" for x i :: nat
    by (simp only: power_Suc2 div_mult2_eq)
  have below: "leaf_below sz (?cs ! i) x \<longleftrightarrow> x div 2 ^ i = flip (l div 2 ^ i)"
    if "i < d" "x < 2 ^ d" for i x
    using that d by (simp add: leaf_below_tree_node)
  have "i < length ?cs \<and> leaf_below sz (?cs ! i) m \<longleftrightarrow> i = j" for i
  proof
    assume "i = j"
    moreover have "m div 2 ^ j = flip (l div 2 ^ j)"
      using j(2) j(3) [rule_format, OF lessI] by (intro flip_unique) (simp only: half, assumption)
    ultimately show "i < length ?cs \<and> leaf_below sz (?cs ! i) m"
      using j(1) lm below by simp
  next
    assume a: "i < length ?cs \<and> leaf_below sz (?cs ! i) m"
    then have f: "m div 2 ^ i = flip (l div 2 ^ i)" using below [of i m] lm by auto
    then have "l div 2 ^ i \<noteq> m div 2 ^ i" using flip_neq by metis
    moreover have "l div 2 ^ Suc i = m div 2 ^ Suc i"
      using arg_cong [OF f, of "\<lambda>x. x div 2"] by (simp only: flip_div2 half)
    ultimately show "i = j"
      using j(3) [rule_format, of i] j(4) [rule_format, of "Suc i"] by linarith
  qed
  then have "\<exists>!i. i < length ?cs \<and> leaf_below sz (?cs ! i) m" by simp
  moreover have "\<forall>c \<in> set ?cs. \<not> leaf_below sz c l"
    using d lm flip_neq [THEN not_sym] by (auto simp: leaf_below_tree_node)
  ultimately show ?thesis
    using copath_depth_size [OF d0 d(1) lm(1)] d(2) by blast
qed

theorem copath_partition_witness:
  "full_size 7 \<and> (\<exists>cs. copath 1 7 = Some cs \<and> (\<exists>!j. j < length cs \<and> leaf_below 7 (cs ! j) 3) \<and>
    (\<forall>c \<in> set cs. \<not> leaf_below 7 c 1))"
  using copath_partition [of 7 1 3] full_size_7 by (simp add: TreeSize_leaf_count_def)

text \<open>The leaves below the two children of a node at which two leaves part.\<close>

lemma split_children:
  assumes d: "d < 31" and ab: "a < b" "b < 2 ^ d" and j: "j < d" "a div 2 ^ j \<noteq> b div 2 ^ j" "a div 2 ^ Suc j = b div 2 ^ Suc j"
  shows "\<exists>l r. left (node_at j (a div 2 ^ Suc j)) = Some l \<and> right (node_at j (a div 2 ^ Suc j)) = Some r \<and>
    leaf_below (depth_size d) l a \<and> \<not> leaf_below (depth_size d) l b \<and>
    leaf_below (depth_size d) r b \<and> \<not> leaf_below (depth_size d) r a"
proof -
  let ?q = "a div 2 ^ Suc j"
  have a: "a < 2 ^ d" using ab by simp
  have half: "x div 2 ^ j div 2 = x div 2 ^ Suc j" for x :: nat by (simp only: power_Suc2 div_mult2_eq)
  have "a div 2 ^ j \<le> b div 2 ^ j" using ab(1) by (intro div_le_mono) simp
  moreover have "x = 2 * q \<and> y = 2 * q + 1" if "x \<le> y" "x \<noteq> y" "x div 2 = q" "y div 2 = q" for x y q :: nat
    using that by presburger
  ultimately have v: "a div 2 ^ j = 2 * ?q" "b div 2 ^ j = 2 * ?q + 1"
    using j(2) half [of a] half [of b, folded j(3)] by blast+
  have t: "in_tree d (Suc j) ?q" using in_tree_div [OF a, of "Suc j"] j(1) by simp
  note ch = in_tree_children [OF t]
  note bnd = in_tree_bound [OF t d] in_tree_bound [OF ch(1) d] in_tree_bound [OF ch(2) d]
  have "left (node_at j ?q) = Some (tree_node j (2 * ?q))" "right (node_at j ?q) = Some (tree_node j (2 * ?q + 1))"
    using bnd j(1) d by (simp_all add: left_node_at right_node_at del: power_Suc)
  then show ?thesis using leaf_below_tree_node [OF d a] leaf_below_tree_node [OF d ab(2)] v j(1) by simp
qed

text \<open>(C13) The lowest common ancestor of two different leaves of a tree has the left one of them in
  the subtree of its left child only, and the right one in the subtree of its right child only. The
  common direct path of the leaves starts with it and climbs from it to the root parent by parent. It
  holds exactly the nodes that both direct paths share.\<close>

theorem lowest_common_ancestor_correct:
  assumes "full_size sz" "a < TreeSize_leaf_count sz" "b < TreeSize_leaf_count sz" "a \<noteq> b"
  shows "\<exists>c rest pa pb l r. lowest_common_ancestor a b = Some c \<and>
    left c = Some l \<and> right c = Some r \<and>
    leaf_below sz l (min a b) \<and> \<not> leaf_below sz l (max a b) \<and>
    leaf_below sz r (max a b) \<and> \<not> leaf_below sz r (min a b) \<and>
    common_direct_path a b sz = Some (c # rest) \<and> climbs_to_root sz (Parent c) rest \<and>
    direct_path a sz = Some pa \<and> direct_path b sz = Some pb \<and>
    set (c # rest) = set pa \<inter> set pb"
proof -
  from assms(1) obtain d where d: "d < 31" "sz = depth_size d" by (rule full_sizeE)
  with assms have ab: "a < 2 ^ d" "b < 2 ^ d" by auto
  from assms(4) ab obtain j where j: "j < d" "a div 2 ^ j \<noteq> b div 2 ^ j"
      "\<forall>i > j. a div 2 ^ i = b div 2 ^ i" "\<forall>i \<le> j. a div 2 ^ i \<noteq> b div 2 ^ i"
    by (rule split_level_exists [of a b d])
  let ?f = "\<lambda>x i. node_at i (x div 2 ^ Suc i)"
  have sets: "set (map (?f a) [j..<d]) = set (map (?f a) [0..<d]) \<inter> set (map (?f b) [0..<d])"
  proof (intro equalityI subsetI)
    fix q assume "q \<in> set (map (?f a) [j..<d])"
    then obtain i where i: "j \<le> i" "i < d" "q = ?f a i" by auto
    from i(1) j(3) [rule_format, of "Suc i"] have "?f a i = ?f b i" by simp
    with i have "q \<in> ?f a ` {0..<d}" "q \<in> ?f b ` {0..<d}"
      by (intro image_eqI [of _ _ i]; simp)+
    then show "q \<in> set (map (?f a) [0..<d]) \<inter> set (map (?f b) [0..<d])" by simp
  next
    fix q assume "q \<in> set (map (?f a) [0..<d]) \<inter> set (map (?f b) [0..<d])"
    then obtain i where i: "i < d" "q = ?f a i" "a div 2 ^ Suc i = b div 2 ^ Suc i" by auto
    then have "j \<le> i" using j(4) [rule_format, of "Suc i"] by (metis not_less Suc_leI)
    with i have "q \<in> ?f a ` {j..<d}" by (intro image_eqI [of _ _ i]; simp)
    then show "q \<in> set (map (?f a) [j..<d])" by simp
  qed
  have cons: "map (?f a) [j..<d] = ?f a j # map (?f a) [Suc j..<d]"
    using j(1) by (simp add: upt_conv_Cons)
  have paths: "direct_path a sz = Some (map (?f a) [0..<d])"
      "direct_path b sz = Some (map (?f b) [0..<d])"
    using ab d by (simp_all add: direct_path_depth_size)
  have same: "a div 2 ^ Suc j = b div 2 ^ Suc j" using j(3) by blast
  have climbs: "climbs_to_root sz (Parent (?f a j)) (map (?f a) [Suc j..<d])"
    using climbs_to_root_path [OF d(1) ab(1), of "Suc j"] j(1) d(2) by simp
  obtain l r where ch: "left (?f a j) = Some l" "right (?f a j) = Some r"
    "leaf_below sz l (min a b)" "\<not> leaf_below sz l (max a b)" "leaf_below sz r (max a b)" "\<not> leaf_below sz r (min a b)"
    using split_children [OF d(1), of a b j] split_children [OF d(1), of b a j] assms(4) ab j(1,2) same d(2)
    by (cases "a < b") (auto simp: min_def max_def simp del: power_Suc)
  show ?thesis
    using lowest_common_ancestor_eq [OF ab d(1) j(1) j(4) [rule_format] same]
      common_direct_path_eq [OF ab d(1) j(1,2) j(3) [rule_format]] sets paths climbs ch
    unfolding cons d(2) by blast
qed

theorem lowest_common_ancestor_correct_witness:
  "full_size 7 \<and> (\<exists>c rest pa pb l r. lowest_common_ancestor 1 3 = Some c \<and>
    left c = Some l \<and> right c = Some r \<and>
    leaf_below 7 l 1 \<and> \<not> leaf_below 7 l 3 \<and> leaf_below 7 r 3 \<and> \<not> leaf_below 7 r 1 \<and>
    common_direct_path 1 3 7 = Some (c # rest) \<and> climbs_to_root 7 (Parent c) rest \<and>
    direct_path 1 7 = Some pa \<and> direct_path 3 7 = Some pb \<and>
    set (c # rest) = set pa \<inter> set pb)"
  using lowest_common_ancestor_correct [of 7 1 3] full_size_7 by (simp add: TreeSize_leaf_count_def)

end
