(* ===== verification/BinaryTree.thy ===== *)
theory BinaryTree
  imports TreeMath
begin

text \<open>
  The array-based binary tree and its diff
  (\<open>binary_tree/array_representation/tree.rs\<close>, \<open>sorted_iter.rs\<close>,
  \<open>diff.rs\<close>). The tree is immutable but for merging a staged diff; the diff overlays
  the tree with two sorted maps of replaced nodes and a size.

  \<open>L::default()\<close> and \<open>P::default()\<close> are the default values every tree stores;
  the constructors take them as arguments.
\<close>

section \<open>The tree\<close>

datatype ('l, 'p) TreeNode = TreeNode_Leaf 'l | TreeNode_Parent 'p

datatype ABinaryTreeError = OutOfRange | InvalidNumberOfNodes | WrongNodeType

record ('l, 'p) ABinaryTree =
  leaf_nodes :: "'l list"
  parent_nodes :: "'p list"
  default_leaf :: 'l
  default_parent :: 'p

fun split_nodes ::
    "nat \<Rightarrow> ('l, 'p) TreeNode list \<Rightarrow> 'l list \<Rightarrow> 'p list \<Rightarrow> ('l list \<times> 'p list, ABinaryTreeError) outcome" where
  "split_nodes i [] ls ps = Ok (ls, ps)"
| "split_nodes i (TreeNode_Leaf l # nodes) ls ps =
     (if i mod 2 = 0 then split_nodes (i + 1) nodes (ls @ [l]) ps else Err WrongNodeType)"
| "split_nodes i (TreeNode_Parent p # nodes) ls ps =
     (if i mod 2 = 1 then split_nodes (i + 1) nodes ls (ps @ [p]) else Err WrongNodeType)"

definition ABinaryTree_new ::
    "'l \<Rightarrow> 'p \<Rightarrow> ('l, 'p) TreeNode list \<Rightarrow> (('l, 'p) ABinaryTree, ABinaryTreeError) outcome" where
  "ABinaryTree_new dl dp nodes =
     (if length nodes > MAX_TREE_SIZE then Err OutOfRange
      else if length nodes mod 2 \<noteq> 1 then Err InvalidNumberOfNodes
      else outcome_bind (split_nodes 0 nodes [] []) (\<lambda>(ls, ps).
        Ok \<lparr>leaf_nodes = ls, parent_nodes = ps, default_leaf = dl, default_parent = dp\<rparr>))"

definition ABinaryTree_from_components ::
    "'l \<Rightarrow> 'p \<Rightarrow> 'l list \<Rightarrow> 'p list \<Rightarrow> (('l, 'p) ABinaryTree, ABinaryTreeError) outcome" where
  "ABinaryTree_from_components dl dp ls ps =
     (if length ls + length ps > MAX_TREE_SIZE then Err OutOfRange
      else if length ls \<noteq> length ps + 1 then Err InvalidNumberOfNodes
      else Ok \<lparr>leaf_nodes = ls, parent_nodes = ps, default_leaf = dl, default_parent = dp\<rparr>)"

definition ABinaryTree_leaf_by_index :: "('l, 'p) ABinaryTree \<Rightarrow> LeafNodeIndex \<Rightarrow> 'l" where
  "ABinaryTree_leaf_by_index t i =
     (case vec_get (leaf_nodes t) i of None \<Rightarrow> default_leaf t | Some l \<Rightarrow> l)"

definition ABinaryTree_parent_by_index :: "('l, 'p) ABinaryTree \<Rightarrow> ParentNodeIndex \<Rightarrow> 'p" where
  "ABinaryTree_parent_by_index t i =
     (case vec_get (parent_nodes t) i of None \<Rightarrow> default_parent t | Some p \<Rightarrow> p)"

definition ABinaryTree_tree_size :: "('l, 'p) ABinaryTree \<Rightarrow> TreeSize option" where
  "ABinaryTree_tree_size t = TreeSize_new (as_u32 (length (leaf_nodes t) + length (parent_nodes t)))"

definition ABinaryTree_leaves :: "('l, 'p) ABinaryTree \<Rightarrow> (LeafNodeIndex \<times> 'l) list" where
  "ABinaryTree_leaves t = map (\<lambda>(i, l). (as_u32 i, l)) (enumerate 0 (leaf_nodes t))"

definition ABinaryTree_parents :: "('l, 'p) ABinaryTree \<Rightarrow> (ParentNodeIndex \<times> 'p) list" where
  "ABinaryTree_parents t = map (\<lambda>(i, p). (as_u32 i, p)) (enumerate 0 (parent_nodes t))"

definition ABinaryTree_leaf :: "('l, 'p) ABinaryTree \<Rightarrow> LeafNodeIndex \<Rightarrow> 'l" where
  "ABinaryTree_leaf t i =
     (case vec_get (leaf_nodes t) i of None \<Rightarrow> default_leaf t | Some l \<Rightarrow> l)"

definition ABinaryTree_parent :: "('l, 'p) ABinaryTree \<Rightarrow> ParentNodeIndex \<Rightarrow> 'p" where
  "ABinaryTree_parent t i =
     (case vec_get (parent_nodes t) i of None \<Rightarrow> default_parent t | Some p \<Rightarrow> p)"

section \<open>Merging two sorted iterators\<close>

record 'a SortedIter =
  si_a :: "'a list"
  si_b :: "'a list"
  si_size :: nat
  si_counter :: nat

definition SortedIter_next ::
    "('a \<Rightarrow> 'e::linorder) \<Rightarrow> 'a SortedIter \<Rightarrow> 'a option \<times> 'a SortedIter" where
  "SortedIter_next cmp it =
     (if si_counter it = si_size it then (None, it)
      else
        let it = it\<lparr>si_counter := si_counter it + 1\<rparr> in
        case (si_a it, si_b it) of
          (x # xs, y # ys) \<Rightarrow>
            (if cmp x < cmp y then (Some x, it\<lparr>si_a := xs\<rparr>)
             else if cmp x = cmp y then (Some x, it\<lparr>si_a := xs, si_b := ys\<rparr>)
             else (Some y, it\<lparr>si_b := ys\<rparr>))
        | (x # xs, []) \<Rightarrow> (Some x, it\<lparr>si_a := xs\<rparr>)
        | ([], y # ys) \<Rightarrow> (Some y, it\<lparr>si_b := ys\<rparr>)
        | ([], []) \<Rightarrow> (None, it))"

definition sorted_iter :: "'a list \<Rightarrow> 'a list \<Rightarrow> nat \<Rightarrow> 'a SortedIter" where
  "sorted_iter a b sz = \<lparr>si_a = a, si_b = b, si_size = sz, si_counter = 0\<rparr>"

text \<open>Running the iterator to its end, as \<open>collect\<close>, \<open>count\<close> and a \<open>for\<close>
  loop do.\<close>

function SortedIter_collect :: "('a \<Rightarrow> 'e::linorder) \<Rightarrow> 'a SortedIter \<Rightarrow> 'a list" where
  "SortedIter_collect cmp it =
     (case SortedIter_next cmp it of
        (None, _) \<Rightarrow> []
      | (Some x, it') \<Rightarrow> x # SortedIter_collect cmp it')"
  by pat_completeness auto
termination
  by (relation "measure (\<lambda>(cmp, it). length (si_a it) + length (si_b it))")
    (auto simp: SortedIter_next_def Let_def split: if_splits list.splits)

declare SortedIter_collect.simps [simp del]

section \<open>The diff\<close>

datatype ABinaryTreeDiffError =
    DiffLibraryError | TreeTooLarge | TreeTooSmall | DiffTreeError ABinaryTreeError

record ('l, 'p) StagedAbDiff =
  staged_leaf_diff :: "(LeafNodeIndex, 'l) btree_map"
  staged_parent_diff :: "(ParentNodeIndex, 'p) btree_map"
  staged_size :: TreeSize

record ('l, 'p) AbDiff =
  original_tree :: "('l, 'p) ABinaryTree"
  leaf_diff :: "(LeafNodeIndex, 'l) btree_map"
  parent_diff :: "(ParentNodeIndex, 'p) btree_map"
  diff_size :: TreeSize
  diff_default_leaf :: 'l
  diff_default_parent :: 'p

definition ABinaryTree_empty_diff :: "('l, 'p) ABinaryTree \<Rightarrow> ('l, 'p) AbDiff option" where
  "ABinaryTree_empty_diff t = do {
     sz \<leftarrow> ABinaryTree_tree_size t;
     Some \<lparr>original_tree = t, leaf_diff = [], parent_diff = [], diff_size = sz,
           diff_default_leaf = default_leaf t, diff_default_parent = default_parent t\<rparr> }"

definition StagedAbDiff_from :: "('l, 'p) AbDiff \<Rightarrow> ('l, 'p) StagedAbDiff" where
  "StagedAbDiff_from d =
     \<lparr>staged_leaf_diff = leaf_diff d, staged_parent_diff = parent_diff d, staged_size = diff_size d\<rparr>"

definition AbDiff_leaf_count :: "('l, 'p) AbDiff \<Rightarrow> u32" where
  "AbDiff_leaf_count d = TreeSize_leaf_count (diff_size d)"

definition AbDiff_parent_count :: "('l, 'p) AbDiff \<Rightarrow> u32" where
  "AbDiff_parent_count d = TreeSize_parent_count (diff_size d)"

definition AbDiff_grow_tree ::
    "('l, 'p) AbDiff \<Rightarrow> ('l, 'p) AbDiff \<times> (unit, ABinaryTreeDiffError) outcome" where
  "AbDiff_grow_tree d =
     (if diff_size d > MAX_TREE_SIZE div 2 then (d, Err TreeTooLarge)
      else case TreeSize_inc (diff_size d) of
        None \<Rightarrow> (d, Panic)
      | Some sz \<Rightarrow> (d\<lparr>diff_size := sz\<rparr>, Ok ()))"

definition AbDiff_shrink_tree ::
    "('l, 'p) AbDiff \<Rightarrow> ('l, 'p) AbDiff \<times> (unit, ABinaryTreeDiffError) outcome" where
  "AbDiff_shrink_tree d =
     (if diff_size d \<le> MIN_TREE_SIZE then (d, Err TreeTooSmall)
      else case TreeSize_dec (diff_size d) of
        None \<Rightarrow> (d, Panic)
      | Some sz \<Rightarrow>
          (d\<lparr>diff_size := sz,
             leaf_diff := btm_retain (\<lambda>i. i < TreeSize_leaf_count sz) (leaf_diff d),
             parent_diff := btm_retain (\<lambda>i. i < TreeSize_parent_count sz) (parent_diff d)\<rparr>, Ok ()))"

definition AbDiff_replace_leaf ::
    "('l, 'p) AbDiff \<Rightarrow> LeafNodeIndex \<Rightarrow> 'l \<Rightarrow> ('l, 'p) AbDiff option" where
  "AbDiff_replace_leaf d i l = do {
     debug_assert (i < AbDiff_leaf_count d);
     Some (d\<lparr>leaf_diff := btm_insert i l (leaf_diff d)\<rparr>) }"

definition AbDiff_replace_parent ::
    "('l, 'p) AbDiff \<Rightarrow> ParentNodeIndex \<Rightarrow> 'p \<Rightarrow> ('l, 'p) AbDiff option" where
  "AbDiff_replace_parent d i p = do {
     debug_assert (i < AbDiff_parent_count d);
     Some (d\<lparr>parent_diff := btm_insert i p (parent_diff d)\<rparr>) }"

definition AbDiff_raw_leaves ::
    "('l, 'p) ABinaryTree \<Rightarrow> (LeafNodeIndex, 'l) btree_map \<Rightarrow> nat \<Rightarrow> (LeafNodeIndex \<times> 'l) list" where
  "AbDiff_raw_leaves t m n = SortedIter_collect fst (sorted_iter m (ABinaryTree_leaves t) n)"

definition AbDiff_raw_parents ::
    "('l, 'p) ABinaryTree \<Rightarrow> (ParentNodeIndex, 'p) btree_map \<Rightarrow> nat \<Rightarrow> (ParentNodeIndex \<times> 'p) list" where
  "AbDiff_raw_parents t m n = SortedIter_collect fst (sorted_iter m (ABinaryTree_parents t) n)"

definition AbDiff_leaves :: "('l, 'p) AbDiff \<Rightarrow> (LeafNodeIndex \<times> 'l) list" where
  "AbDiff_leaves d = AbDiff_raw_leaves (original_tree d) (leaf_diff d) (AbDiff_leaf_count d)"

definition AbDiff_parents :: "('l, 'p) AbDiff \<Rightarrow> (ParentNodeIndex \<times> 'p) list" where
  "AbDiff_parents d = AbDiff_raw_parents (original_tree d) (parent_diff d) (AbDiff_parent_count d)"

definition StagedAbDiff_leaves ::
    "('l, 'p) StagedAbDiff \<Rightarrow> ('l, 'p) ABinaryTree \<Rightarrow> (LeafNodeIndex \<times> 'l) list" where
  "StagedAbDiff_leaves s t =
     AbDiff_raw_leaves t (staged_leaf_diff s) (TreeSize_leaf_count (staged_size s))"

definition StagedAbDiff_parents ::
    "('l, 'p) StagedAbDiff \<Rightarrow> ('l, 'p) ABinaryTree \<Rightarrow> (ParentNodeIndex \<times> 'p) list" where
  "StagedAbDiff_parents s t =
     AbDiff_raw_parents t (staged_parent_diff s) (TreeSize_parent_count (staged_size s))"

definition AbDiff_direct_path :: "('l, 'p) AbDiff \<Rightarrow> LeafNodeIndex \<Rightarrow> ParentNodeIndex list option" where
  "AbDiff_direct_path d i = direct_path i (diff_size d)"

definition AbDiff_set_direct_path_to_node ::
    "('l, 'p) AbDiff \<Rightarrow> LeafNodeIndex \<Rightarrow> 'p \<Rightarrow> ('l, 'p) AbDiff option" where
  "AbDiff_set_direct_path_to_node d i node = do {
     path \<leftarrow> AbDiff_direct_path d i;
     for_each (\<lambda>j d. AbDiff_replace_parent d j node) path d }"

definition AbDiff_copath :: "('l, 'p) AbDiff \<Rightarrow> LeafNodeIndex \<Rightarrow> TreeNodeIndex list option" where
  "AbDiff_copath d i = copath i (diff_size d)"

definition AbDiff_lowest_common_ancestor ::
    "('l, 'p) AbDiff \<Rightarrow> LeafNodeIndex \<Rightarrow> LeafNodeIndex \<Rightarrow> ParentNodeIndex option" where
  "AbDiff_lowest_common_ancestor d i j = do {
     debug_assert (i \<noteq> j);
     debug_assert (i < AbDiff_leaf_count d);
     debug_assert (j < AbDiff_leaf_count d);
     lowest_common_ancestor i j }"

definition AbDiff_subtree_root_copath_node ::
    "('l, 'p) AbDiff \<Rightarrow> LeafNodeIndex \<Rightarrow> LeafNodeIndex \<Rightarrow> TreeNodeIndex option" where
  "AbDiff_subtree_root_copath_node d i j = do {
     debug_assert (i \<noteq> j);
     debug_assert (i < AbDiff_leaf_count d);
     debug_assert (j < AbDiff_leaf_count d);
     c \<leftarrow> lowest_common_ancestor i j;
     if j < i then left c else right c }"

definition AbDiff_root :: "('l, 'p) AbDiff \<Rightarrow> TreeNodeIndex option" where
  "AbDiff_root d = root (diff_size d)"

definition AbDiff_leaf :: "('l, 'p) AbDiff \<Rightarrow> LeafNodeIndex \<Rightarrow> 'l" where
  "AbDiff_leaf d i =
     (case btm_get (leaf_diff d) i of
        Some l \<Rightarrow> l
      | None \<Rightarrow>
          if i \<ge> AbDiff_leaf_count d then diff_default_leaf d
          else ABinaryTree_leaf_by_index (original_tree d) i)"

definition AbDiff_parent :: "('l, 'p) AbDiff \<Rightarrow> ParentNodeIndex \<Rightarrow> 'p" where
  "AbDiff_parent d i =
     (case btm_get (parent_diff d) i of
        Some p \<Rightarrow> p
      | None \<Rightarrow> ABinaryTree_parent_by_index (original_tree d) i)"

text \<open>
  \<open>parent_mut\<close> hands out a mutable reference into the diff, after a copy of the node of
  the tree if the diff has none. The model applies the caller's change \<open>f\<close> to it.
\<close>

definition AbDiff_parent_mut ::
    "('l, 'p) AbDiff \<Rightarrow> ParentNodeIndex \<Rightarrow> ('p \<Rightarrow> 'p) \<Rightarrow> ('l, 'p) AbDiff option" where
  "AbDiff_parent_mut d i f = do {
     debug_assert (i < AbDiff_parent_count d);
     case btm_get (parent_diff d) i of
       Some p \<Rightarrow> Some (d\<lparr>parent_diff := btm_insert i (f p) (parent_diff d)\<rparr>)
     | None \<Rightarrow> do {
         d' \<leftarrow> AbDiff_replace_parent d i (ABinaryTree_parent_by_index (original_tree d) i);
         p \<leftarrow> btm_get (parent_diff d') i;
         Some (d'\<lparr>parent_diff := btm_insert i (f p) (parent_diff d')\<rparr>) } }"

section \<open>Merging a diff\<close>

fun merge_entries :: "'a list \<Rightarrow> (nat \<times> 'a) list \<Rightarrow> 'a list option" where
  "merge_entries xs [] = Some xs"
| "merge_entries xs ((i, x) # es) =
     (if i < length xs then merge_entries (xs[i := x]) es else None)"

definition ABinaryTree_merge_diff ::
    "('l, 'p) ABinaryTree \<Rightarrow> ('l, 'p) StagedAbDiff \<Rightarrow> ('l, 'p) ABinaryTree option" where
  "ABinaryTree_merge_diff t s = do {
     let sz = staged_size s;
     let ls = vec_resize (leaf_nodes t) (TreeSize_leaf_count sz) (default_leaf t);
     let ps = vec_resize (parent_nodes t) (TreeSize_parent_count sz) (default_parent t);
     ls' \<leftarrow> merge_entries ls (staged_leaf_diff s);
     ps' \<leftarrow> merge_entries ps (staged_parent_diff s);
     Some (t\<lparr>leaf_nodes := ls', parent_nodes := ps'\<rparr>) }"

section \<open>The sorted iterator merges\<close>

fun merge_by :: "('a \<Rightarrow> 'e::linorder) \<Rightarrow> 'a list \<Rightarrow> 'a list \<Rightarrow> 'a list" where
  "merge_by f [] ys = ys"
| "merge_by f xs [] = xs"
| "merge_by f (x # xs) (y # ys) =
     (if f x < f y then x # merge_by f xs (y # ys)
      else if f x = f y then x # merge_by f xs ys
      else y # merge_by f (x # xs) ys)"

lemma merge_by_Nil2 [simp]: "merge_by f xs [] = xs"
  by (cases xs) auto

lemma SortedIter_collect_eq:
  "si_counter it \<le> si_size it \<Longrightarrow>
   SortedIter_collect f it = take (si_size it - si_counter it) (merge_by f (si_a it) (si_b it))"
proof (induction "length (si_a it) + length (si_b it)" arbitrary: it rule: less_induct)
  case less
  show ?case
  proof (cases "si_counter it = si_size it")
    case True
    then show ?thesis by (simp add: SortedIter_collect.simps [of f it] SortedIter_next_def)
  next
    case False
    then obtain k where k: "si_size it - si_counter it = Suc k"
      using less.prems by (metis Suc_diff_Suc le_neq_implies_less)
    then have le: "Suc (si_counter it) \<le> si_size it" "si_size it - Suc (si_counter it) = k"
      by simp_all
    show ?thesis
      using False k le
      by (cases "si_a it"; cases "si_b it")
        (simp_all add: SortedIter_collect.simps [of f it] SortedIter_next_def Let_def less)
  qed
qed

lemma merge_by_keys:
  fixes xs ys :: "('k::linorder \<times> 'v) list"
  shows "fst ` set (merge_by fst xs ys) = fst ` set xs \<union> fst ` set ys"
  by (induction "fst :: 'k \<times> 'v \<Rightarrow> 'k" xs ys rule: merge_by.induct) auto

lemma merge_by_sorted:
  fixes xs ys :: "('k::linorder \<times> 'v) list"
  shows "sorted_wrt (<) (map fst xs) \<Longrightarrow> sorted_wrt (<) (map fst ys) \<Longrightarrow>
    sorted_wrt (<) (map fst (merge_by fst xs ys))"
proof (induction "fst :: 'k \<times> 'v \<Rightarrow> 'k" xs ys rule: merge_by.induct)
  case (3 x xs y ys)
  have keys: "set (map fst (merge_by fst us vs)) = set (map fst us) \<union> set (map fst vs)"
    for us vs :: "('k \<times> 'v) list"
    using merge_by_keys by (metis list.set_map)
  from 3 show ?case
    by (auto simp: keys simp del: set_map dest: order.strict_trans)
qed auto

lemma merge_by_map_of:
  fixes xs ys :: "('k::linorder \<times> 'v) list"
  shows "sorted_wrt (<) (map fst xs) \<Longrightarrow> sorted_wrt (<) (map fst ys) \<Longrightarrow>
    map_of (merge_by fst xs ys) k = (case map_of xs k of Some v \<Rightarrow> Some v | None \<Rightarrow> map_of ys k)"
proof (induction "fst :: 'k \<times> 'v \<Rightarrow> 'k" xs ys rule: merge_by.induct)
  case (3 x xs y ys)
  have "map_of (x # xs) k = None" if "k < fst x"
    using that 3(4) by (auto simp: map_of_eq_None_iff)
  with 3 show ?case
    by (cases x; cases y; cases k "fst x" rule: linorder_cases) (auto split: option.splits)
qed (auto split: option.split)

section \<open>Well-formed trees and diffs\<close>

definition ABinaryTree_wf :: "('l, 'p) ABinaryTree \<Rightarrow> bool" where
  "ABinaryTree_wf t \<longleftrightarrow> length (leaf_nodes t) = length (parent_nodes t) + 1 \<and>
     length (leaf_nodes t) + length (parent_nodes t) \<le> MAX_TREE_SIZE"

definition AbDiff_wf :: "('l, 'p) AbDiff \<Rightarrow> bool" where
  "AbDiff_wf d \<longleftrightarrow> ABinaryTree_wf (original_tree d) \<and> full_size (diff_size d) \<and>
     btm_sorted (leaf_diff d) \<and> btm_sorted (parent_diff d) \<and>
     (\<forall>k \<in> fst ` set (leaf_diff d). k < AbDiff_leaf_count d) \<and>
     (\<forall>k \<in> fst ` set (parent_diff d). k < AbDiff_parent_count d) \<and>
     diff_default_leaf d = default_leaf (original_tree d) \<and>
     diff_default_parent d = default_parent (original_tree d)"

lemma AbDiff_wfD:
  assumes "AbDiff_wf d"
  shows "ABinaryTree_wf (original_tree d)" "full_size (diff_size d)"
    "btm_sorted (leaf_diff d)" "btm_sorted (parent_diff d)"
    "\<And>k. k \<in> fst ` set (leaf_diff d) \<Longrightarrow> k < AbDiff_leaf_count d"
    "\<And>k. k \<in> fst ` set (parent_diff d) \<Longrightarrow> k < AbDiff_parent_count d"
    "diff_default_leaf d = default_leaf (original_tree d)"
    "diff_default_parent d = default_parent (original_tree d)"
  using assms unfolding AbDiff_wf_def by blast+

lemma ABinaryTree_tree_size_full:
  assumes "ABinaryTree_wf t"
  obtains sz where "ABinaryTree_tree_size t = Some sz" "full_size sz"
    "length (leaf_nodes t) \<le> TreeSize_leaf_count sz" "length (parent_nodes t) \<le> TreeSize_parent_count sz"
proof -
  let ?n = "length (leaf_nodes t) + length (parent_nodes t)"
  have n: "?n = 2 * length (parent_nodes t) + 1" "?n \<le> 2 ^ 30"
    using assms by (auto simp: ABinaryTree_wf_def MAX_TREE_SIZE_def)
  obtain d where d: "2 ^ d \<le> ?n" "?n < 2 ^ Suc d"
    using ex_power_ivl1 [of 2 ?n] n(1) by auto
  have "d < 30"
  proof (rule ccontr)
    assume "\<not> d < 30"
    then have "(2::nat) ^ 30 \<le> 2 ^ d" by (intro power_increasing) auto
    with d(1) n(2) have "?n = 2 ^ 30" by linarith
    moreover have "odd ?n" by (simp only: n(1)) simp
    ultimately show False by simp
  qed
  moreover have "length (parent_nodes t) \<le> 2 ^ d - Suc 0" using n(1) d(2) by simp
  ultimately show ?thesis
    using that [of "depth_size d"] n d assms
    by (simp add: ABinaryTree_tree_size_def TreeSize_new_eq ABinaryTree_wf_def)
qed

lemma full_size_less:
  assumes "full_size sz"
  shows "sz < 2 ^ 30"
proof -
  obtain d where "d < 30" "sz = depth_size d" using assms by (rule full_sizeE)
  then show ?thesis
    using power_increasing [of "Suc d" 30 "2::nat"] depth_size_plus_1 [of d] by simp
qed

section \<open>Reading a diff\<close>

lemma leaves_enumerate:
  assumes "length xs \<le> 2 ^ 30"
  shows "map (\<lambda>(i, x). (as_u32 i, x)) (enumerate 0 xs) = enumerate 0 xs"
proof (rule map_idI)
  fix e assume "e \<in> set (enumerate 0 xs)"
  then have "fst e < 2 ^ 32" using assms by (auto simp: in_set_enumerate_eq)
  then show "(case e of (i, x) \<Rightarrow> (as_u32 i, x)) = e" by (cases e) simp
qed

lemma enumerate_keys: "fst ` set (enumerate 0 xs) = {..<length xs}"
proof -
  have "set (map fst (enumerate 0 xs)) = {..<length xs}"
    by (simp only: map_fst_enumerate) auto
  then show ?thesis by (simp only: list.set_map)
qed

lemma map_of_enumerate_vec: "map_of (enumerate 0 xs) k = vec_get xs k"
proof (cases "k < length xs")
  case True
  then have "(k, xs ! k) \<in> set (enumerate 0 xs)" by (simp add: in_set_enumerate_eq)
  then show ?thesis using True by (simp add: map_of_eq_Some_iff vec_get_def)
next
  case False
  then show ?thesis by (simp add: map_of_eq_None_iff vec_get_def enumerate_keys)
qed

text \<open>
  What the two sides of a diff share: the iterator over a sorted overlay of a vector lists, in
  order, every index below the size that the overlay or the vector has, with the overlay's value
  first.
\<close>

lemma sorted_iter_overlay:
  assumes s: "btm_sorted m" and k: "\<And>i. i \<in> fst ` set m \<Longrightarrow> i < n" and l: "length xs \<le> 2 ^ 30"
  shows "SortedIter_collect fst (sorted_iter m (map (\<lambda>(i, x). (as_u32 i, x)) (enumerate 0 xs)) n) =
    map (\<lambda>i. (i, case btm_get m i of Some v \<Rightarrow> v | None \<Rightarrow> xs ! i))
      (filter (\<lambda>i. btm_get m i \<noteq> None \<or> i < length xs) [0..<n])"
    (is "_ = map ?g (filter ?P _)")
proof -
  let ?e = "enumerate 0 xs" and ?M = "merge_by fst m (enumerate 0 xs)"
  have es: "sorted_wrt (<) (map fst ?e)" by simp
  have ms: "sorted_wrt (<) (map fst m)" using s by (simp add: btm_sorted_def)
  have Ms: "sorted_wrt (<) (map fst ?M)" by (rule merge_by_sorted [OF ms es])
  have keys: "fst ` set ?M = fst ` set m \<union> {..<length xs}"
    by (simp only: merge_by_keys enumerate_keys)
  have dense: "fst ` set ?M \<subseteq> {..<n} \<or> {..<n} \<subseteq> fst ` set ?M"
    unfolding keys using k by (cases "length xs \<le> n") auto
  have "SortedIter_collect fst (sorted_iter m ?e n) = take n ?M"
    by (simp add: SortedIter_collect_eq sorted_iter_def)
  also have "\<dots> = filter (\<lambda>e. fst e < n) ?M" by (rule take_eq_filter_less [OF Ms dense])
  also have "\<dots> = map ?g (filter ?P [0..<n])"
  proof (rule sorted_keyed_list_eqI)
    show "sorted_wrt (<) (map fst (filter (\<lambda>e. fst e < n) ?M))"
      using Ms by (simp add: sorted_wrt_map sorted_wrt_filter)
    show "sorted_wrt (<) (map fst (map ?g (filter ?P [0..<n])))"
      by (simp add: comp_def sorted_wrt_filter)
    show "map_of (filter (\<lambda>e. fst e < n) ?M) = map_of (map ?g (filter ?P [0..<n]))"
    proof
      fix i
      have "map_of (filter (\<lambda>e. fst e < n) ?M) i = (if i < n then map_of ?M i else None)"
        using btm_get_retain [of "\<lambda>i. i < n" ?M i] by (simp add: btm_get_def btm_retain_def)
      also have "map_of ?M i = (case btm_get m i of Some v \<Rightarrow> Some v | None \<Rightarrow> vec_get xs i)"
        by (simp add: merge_by_map_of [OF ms es] map_of_enumerate_vec btm_get_def split: option.split)
      finally show "map_of (filter (\<lambda>e. fst e < n) ?M) i = map_of (map ?g (filter ?P [0..<n])) i"
        by (simp add: map_of_map_restrict restrict_map_def vec_get_def split: option.splits)
    qed
  qed
  finally show ?thesis using leaves_enumerate [OF l] by simp
qed

lemma ABinaryTree_wf_lengths:
  "ABinaryTree_wf t \<Longrightarrow> length (leaf_nodes t) \<le> 2 ^ 30 \<and> length (parent_nodes t) \<le> 2 ^ 30"
  by (auto simp: ABinaryTree_wf_def MAX_TREE_SIZE_def)

definition AbDiff_has_leaf :: "('l, 'p) AbDiff \<Rightarrow> LeafNodeIndex \<Rightarrow> bool" where
  "AbDiff_has_leaf d i \<longleftrightarrow> btm_get (leaf_diff d) i \<noteq> None \<or> i < length (leaf_nodes (original_tree d))"

definition AbDiff_has_parent :: "('l, 'p) AbDiff \<Rightarrow> ParentNodeIndex \<Rightarrow> bool" where
  "AbDiff_has_parent d i \<longleftrightarrow>
     btm_get (parent_diff d) i \<noteq> None \<or> i < length (parent_nodes (original_tree d))"

lemma AbDiff_leaves_eq:
  assumes "AbDiff_wf d"
  shows "AbDiff_leaves d =
    map (\<lambda>i. (i, AbDiff_leaf d i)) (filter (AbDiff_has_leaf d) [0..<AbDiff_leaf_count d])"
proof -
  let ?t = "original_tree d"
  have "AbDiff_leaves d =
      map (\<lambda>i. (i, case btm_get (leaf_diff d) i of Some v \<Rightarrow> v | None \<Rightarrow> leaf_nodes ?t ! i))
        (filter (AbDiff_has_leaf d) [0..<AbDiff_leaf_count d])"
    using sorted_iter_overlay [OF AbDiff_wfD(3,5) [OF assms], of "leaf_nodes ?t"]
      ABinaryTree_wf_lengths [OF AbDiff_wfD(1) [OF assms]]
    by (simp add: AbDiff_leaves_def AbDiff_raw_leaves_def ABinaryTree_leaves_def AbDiff_has_leaf_def
        [abs_def])
  also have "\<dots> = map (\<lambda>i. (i, AbDiff_leaf d i)) (filter (AbDiff_has_leaf d) [0..<AbDiff_leaf_count d])"
    by (auto simp: AbDiff_leaf_def AbDiff_has_leaf_def ABinaryTree_leaf_by_index_def
        split: option.split)
  finally show ?thesis .
qed

lemma AbDiff_parents_eq:
  assumes "AbDiff_wf d"
  shows "AbDiff_parents d =
    map (\<lambda>i. (i, AbDiff_parent d i)) (filter (AbDiff_has_parent d) [0..<AbDiff_parent_count d])"
proof -
  let ?t = "original_tree d"
  have "AbDiff_parents d =
      map (\<lambda>i. (i, case btm_get (parent_diff d) i of Some v \<Rightarrow> v | None \<Rightarrow> parent_nodes ?t ! i))
        (filter (AbDiff_has_parent d) [0..<AbDiff_parent_count d])"
    using sorted_iter_overlay [OF AbDiff_wfD(4,6) [OF assms], of "parent_nodes ?t"]
      ABinaryTree_wf_lengths [OF AbDiff_wfD(1) [OF assms]]
    by (simp add: AbDiff_parents_def AbDiff_raw_parents_def ABinaryTree_parents_def
        AbDiff_has_parent_def [abs_def])
  also have "\<dots> = map (\<lambda>i. (i, AbDiff_parent d i))
      (filter (AbDiff_has_parent d) [0..<AbDiff_parent_count d])"
    by (auto simp: AbDiff_parent_def AbDiff_has_parent_def ABinaryTree_parent_by_index_def
        split: option.split)
  finally show ?thesis .
qed

section \<open>The diff as a node store\<close>

text \<open>
  What the clients of a diff rely on: nodes are read and replaced by index, a replacement inside
  the tree succeeds and changes that node only.
\<close>

locale node_store =
  fixes leaf :: "'d \<Rightarrow> nat \<Rightarrow> 'l"
    and parent_of :: "'d \<Rightarrow> nat \<Rightarrow> 'p"
    and leaf_cnt :: "'d \<Rightarrow> nat"
    and parent_cnt :: "'d \<Rightarrow> nat"
    and replace_leaf :: "'d \<Rightarrow> nat \<Rightarrow> 'l \<Rightarrow> 'd option"
    and replace_parent :: "'d \<Rightarrow> nat \<Rightarrow> 'p \<Rightarrow> 'd option"
    and frame :: "'d \<Rightarrow> 'f"
    and invar :: "'d \<Rightarrow> bool"
  assumes replace_leaf_defined: "i < leaf_cnt d \<Longrightarrow> \<exists>d'. replace_leaf d i x = Some d'"
    and replace_leaf_effect: "invar d \<Longrightarrow> replace_leaf d i x = Some d' \<Longrightarrow>
      invar d' \<and> leaf d' = (leaf d)(i := x) \<and> parent_of d' = parent_of d \<and> frame d' = frame d"
    and replace_parent_defined: "i < parent_cnt d \<Longrightarrow> \<exists>d'. replace_parent d i y = Some d'"
    and replace_parent_effect: "invar d \<Longrightarrow> replace_parent d i y = Some d' \<Longrightarrow>
      invar d' \<and> parent_of d' = (parent_of d)(i := y) \<and> leaf d' = leaf d \<and> frame d' = frame d"
    and frame_counts: "frame d = frame d' \<Longrightarrow> leaf_cnt d = leaf_cnt d' \<and> parent_cnt d = parent_cnt d'"
begin

lemma replace_all_effect:
  assumes "invar d" "\<And>i. i \<in> set is \<Longrightarrow> i < parent_cnt d"
  shows "\<exists>d'. for_each (\<lambda>i d. replace_parent d i y) is d = Some d' \<and> invar d' \<and> leaf d' = leaf d \<and> frame d' = frame d \<and>
    parent_of d' = (\<lambda>i. if i \<in> set is then y else parent_of d i)"
  using assms
proof (induction "is" arbitrary: d)
  case (Cons i "is")
  obtain d1 where d1: "replace_parent d i y = Some d1"
    using replace_parent_defined [of i d y] Cons.prems(2) [of i] by auto
  note e = replace_parent_effect [OF Cons.prems(1) d1]
  have "parent_cnt d1 = parent_cnt d" using frame_counts e by blast
  with Cons.prems(2) have "\<And>j. j \<in> set is \<Longrightarrow> j < parent_cnt d1" by simp
  from Cons.IH [OF conjunct1 [OF e] this]
  obtain d2 where "for_each (\<lambda>i d. replace_parent d i y) is d1 = Some d2" "invar d2"
    "leaf d2 = leaf d1" "frame d2 = frame d1"
    "parent_of d2 = (\<lambda>i. if i \<in> set is then y else parent_of d1 i)" by blast
  with e d1 show ?case by (simp add: fun_eq_iff)
qed simp

end

lemma AbDiff_replace_leaf_Some:
  "AbDiff_replace_leaf d i x = Some d' \<longleftrightarrow>
   i < AbDiff_leaf_count d \<and> d' = d\<lparr>leaf_diff := btm_insert i x (leaf_diff d)\<rparr>"
  by (auto simp: AbDiff_replace_leaf_def debug_assert_def)

lemma AbDiff_replace_parent_Some:
  "AbDiff_replace_parent d i x = Some d' \<longleftrightarrow>
   i < AbDiff_parent_count d \<and> d' = d\<lparr>parent_diff := btm_insert i x (parent_diff d)\<rparr>"
  by (auto simp: AbDiff_replace_parent_def debug_assert_def)

text \<open>The part of a diff that replacing nodes does not touch.\<close>

definition AbDiff_frame :: "('l, 'p) AbDiff \<Rightarrow> ('l, 'p) ABinaryTree \<times> TreeSize \<times> 'l \<times> 'p" where
  "AbDiff_frame d = (original_tree d, diff_size d, diff_default_leaf d, diff_default_parent d)"

lemma AbDiff_counts_cong:
  "diff_size d = diff_size d' \<Longrightarrow>
   AbDiff_leaf_count d = AbDiff_leaf_count d' \<and> AbDiff_parent_count d = AbDiff_parent_count d'"
  by (simp add: AbDiff_leaf_count_def AbDiff_parent_count_def)

lemma AbDiff_insert_leaf:
  fixes d d' :: "('l, 'p) AbDiff"
  assumes wf: "AbDiff_wf d" and i: "i < AbDiff_leaf_count d"
    and d': "d' = d\<lparr>leaf_diff := btm_insert i x (leaf_diff d)\<rparr>"
  shows "AbDiff_wf d'" "AbDiff_leaf d' = (AbDiff_leaf d)(i := x)" "AbDiff_parent d' = AbDiff_parent d"
    "AbDiff_frame d' = AbDiff_frame d"
proof -
  show "AbDiff_wf d'"
    using wf i unfolding d' AbDiff_wf_def
    by (auto simp: AbDiff_leaf_count_def AbDiff_parent_count_def btm_simps)
  have "AbDiff_leaf d' j = ((AbDiff_leaf d)(i := x)) j" for j
    using i AbDiff_wfD(3) [OF wf]
    by (simp add: d' AbDiff_leaf_def AbDiff_leaf_count_def btm_simps cong: option.case_cong)
  then show "AbDiff_leaf d' = (AbDiff_leaf d)(i := x)" by blast
qed (simp_all add: d' AbDiff_parent_def AbDiff_frame_def fun_eq_iff cong: option.case_cong)

lemma AbDiff_insert_parent:
  fixes d d' :: "('l, 'p) AbDiff"
  assumes wf: "AbDiff_wf d" and i: "i < AbDiff_parent_count d"
    and d': "d' = d\<lparr>parent_diff := btm_insert i x (parent_diff d)\<rparr>"
  shows "AbDiff_wf d'" "AbDiff_parent d' = (AbDiff_parent d)(i := x)" "AbDiff_leaf d' = AbDiff_leaf d"
    "AbDiff_frame d' = AbDiff_frame d"
proof -
  show "AbDiff_wf d'"
    using wf i unfolding d' AbDiff_wf_def
    by (auto simp: AbDiff_leaf_count_def AbDiff_parent_count_def btm_simps)
  have "AbDiff_parent d' j = ((AbDiff_parent d)(i := x)) j" for j
    using i AbDiff_wfD(4) [OF wf]
    by (simp add: d' AbDiff_parent_def btm_simps cong: option.case_cong)
  then show "AbDiff_parent d' = (AbDiff_parent d)(i := x)" by blast
qed (simp_all add: d' AbDiff_leaf_def AbDiff_leaf_count_def AbDiff_frame_def fun_eq_iff cong: option.case_cong)

interpretation abd: node_store AbDiff_leaf AbDiff_parent AbDiff_leaf_count AbDiff_parent_count
  AbDiff_replace_leaf AbDiff_replace_parent AbDiff_frame AbDiff_wf
proof unfold_locales
  fix d d' :: "('l, 'p) AbDiff" and i x y
  show "i < AbDiff_leaf_count d \<Longrightarrow> \<exists>d'. AbDiff_replace_leaf d i x = Some d'"
    by (simp add: AbDiff_replace_leaf_Some)
  show "i < AbDiff_parent_count d \<Longrightarrow> \<exists>d'. AbDiff_replace_parent d i y = Some d'"
    by (simp add: AbDiff_replace_parent_Some)
  show "AbDiff_wf d' \<and> AbDiff_leaf d' = (AbDiff_leaf d)(i := x) \<and> AbDiff_parent d' = AbDiff_parent d \<and>
      AbDiff_frame d' = AbDiff_frame d"
    if "AbDiff_wf d" "AbDiff_replace_leaf d i x = Some d'"
    using AbDiff_insert_leaf [OF that(1) iffD1 [OF AbDiff_replace_leaf_Some that(2), THEN conjunct1]
        iffD1 [OF AbDiff_replace_leaf_Some that(2), THEN conjunct2]] by simp
  show "AbDiff_wf d' \<and> AbDiff_parent d' = (AbDiff_parent d)(i := y) \<and> AbDiff_leaf d' = AbDiff_leaf d \<and>
      AbDiff_frame d' = AbDiff_frame d"
    if "AbDiff_wf d" "AbDiff_replace_parent d i y = Some d'"
    using AbDiff_insert_parent [OF that(1) iffD1 [OF AbDiff_replace_parent_Some that(2), THEN conjunct1]
        iffD1 [OF AbDiff_replace_parent_Some that(2), THEN conjunct2]] by simp
  show "AbDiff_frame d = AbDiff_frame d' \<Longrightarrow>
      AbDiff_leaf_count d = AbDiff_leaf_count d' \<and> AbDiff_parent_count d = AbDiff_parent_count d'"
    by (rule AbDiff_counts_cong) (simp add: AbDiff_frame_def)
qed

lemma AbDiff_parent_mut_effect:
  assumes "AbDiff_wf d" "i < AbDiff_parent_count d"
  shows "\<exists>d'. AbDiff_parent_mut d i f = Some d' \<and> AbDiff_wf d' \<and> AbDiff_frame d' = AbDiff_frame d \<and>
    AbDiff_leaf d' = AbDiff_leaf d \<and> AbDiff_parent d' = (AbDiff_parent d)(i := f (AbDiff_parent d i))"
proof (cases "btm_get (parent_diff d) i")
  case (Some p)
  then have "AbDiff_parent d i = p" by (simp add: AbDiff_parent_def)
  with Some assms AbDiff_insert_parent [OF assms refl, of "f p"] show ?thesis
    by (simp add: AbDiff_parent_mut_def)
next
  case None
  let ?p = "ABinaryTree_parent_by_index (original_tree d) i"
  let ?d = "d\<lparr>parent_diff := btm_insert i ?p (parent_diff d)\<rparr>"
  have p: "AbDiff_parent d i = ?p" using None by (simp add: AbDiff_parent_def)
  note e = AbDiff_insert_parent [OF assms refl, of ?p]
  have "i < AbDiff_parent_count ?d"
    using assms(2) by (simp add: AbDiff_parent_count_def)
  note e2 = AbDiff_insert_parent [OF e(1) this refl, of "f ?p"]
  have "btm_get (parent_diff ?d) i = Some ?p"
    using AbDiff_wfD(4) [OF assms(1)] by (simp add: btm_simps)
  with None p e e2 assms(2) show ?thesis
    by (simp add: AbDiff_parent_mut_def AbDiff_replace_parent_def)
qed

section \<open>Growing and shrinking\<close>

lemma ABinaryTree_empty_diff_effect:
  assumes "ABinaryTree_wf t"
  shows "\<exists>d. ABinaryTree_empty_diff t = Some d \<and> AbDiff_wf d \<and> original_tree d = t \<and>
    AbDiff_leaf d = ABinaryTree_leaf t \<and> AbDiff_parent d = ABinaryTree_parent t"
proof -
  obtain sz where sz: "ABinaryTree_tree_size t = Some sz" "full_size sz"
    "length (leaf_nodes t) \<le> TreeSize_leaf_count sz"
    using assms by (rule ABinaryTree_tree_size_full)
  then show ?thesis using assms
    by (auto simp: ABinaryTree_empty_diff_def AbDiff_wf_def AbDiff_leaf_def ABinaryTree_leaf_def
        AbDiff_parent_def ABinaryTree_parent_def ABinaryTree_leaf_by_index_def AbDiff_leaf_count_def
        ABinaryTree_parent_by_index_def vec_get_def fun_eq_iff btm_simps btm_sorted_def btm_get_def)
qed

lemma max_tree_size_half: "d < 30 \<Longrightarrow> depth_size d > MAX_TREE_SIZE div 2 \<longleftrightarrow> d = 29"
proof
  assume d: "d < 30" "depth_size d > MAX_TREE_SIZE div 2"
  show "d = 29"
  proof (rule ccontr)
    assume "d \<noteq> 29"
    with d have "(2::nat) ^ Suc d \<le> 2 ^ 29" by (intro power_increasing) auto
    with d depth_size_plus_1 [of d] show False by (simp add: MAX_TREE_SIZE_def)
  qed
qed (simp add: MAX_TREE_SIZE_def depth_size_def)

lemma AbDiff_grow_tree_eq:
  assumes "diff_size d = depth_size n" "n < 30"
  shows "AbDiff_grow_tree d =
    (if n = 29 then (d, Err TreeTooLarge) else (d\<lparr>diff_size := depth_size (Suc n)\<rparr>, Ok ()))"
  using assms max_tree_size_half [of n] by (simp add: AbDiff_grow_tree_def treemath_simps)

lemma depth_size_min: "depth_size n \<le> MIN_TREE_SIZE \<longleftrightarrow> n = 0"
proof (cases n)
  case (Suc m)
  have "(1::nat) \<le> 2 ^ m" by simp
  then have "\<not> depth_size n \<le> 1" unfolding Suc depth_size_eq power_Suc by linarith
  then show ?thesis using Suc by (simp add: MIN_TREE_SIZE_def)
qed (simp add: depth_size_def MIN_TREE_SIZE_def)

lemma AbDiff_shrink_tree_eq:
  assumes "diff_size d = depth_size n" "n < 30"
  shows "AbDiff_shrink_tree d =
    (if n = 0 then (d, Err TreeTooSmall)
     else (d\<lparr>diff_size := depth_size (n - 1),
             leaf_diff := btm_retain (\<lambda>i. i < 2 ^ (n - 1)) (leaf_diff d),
             parent_diff := btm_retain (\<lambda>i. i < 2 ^ (n - 1) - 1) (parent_diff d)\<rparr>, Ok ()))"
proof (cases n)
  case (Suc m)
  then show ?thesis using assms depth_size_min [of n]
    by (simp add: AbDiff_shrink_tree_def treemath_simps)
qed (use assms depth_size_min [of n] in \<open>simp add: AbDiff_shrink_tree_def\<close>)

lemma AbDiff_grow_tree_wf:
  assumes "AbDiff_wf d"
  shows "AbDiff_wf (fst (AbDiff_grow_tree d))"
proof -
  obtain n where n: "n < 30" "diff_size d = depth_size n" using AbDiff_wfD(2) [OF assms] by (rule full_sizeE)
  have p: "(2::nat) ^ n \<le> 2 ^ Suc n" "(2::nat) ^ n - 1 \<le> 2 ^ Suc n - 1" by simp_all
  show ?thesis
  proof (cases "n = 29")
    case False
    have "\<And>k. k < 2 ^ n \<Longrightarrow> k < (2::nat) ^ Suc n" "\<And>k. k < 2 ^ n - 1 \<Longrightarrow> k < (2::nat) ^ Suc n - 1"
      using p by (blast intro: less_le_trans)+
    with False n assms show ?thesis
      unfolding AbDiff_grow_tree_eq [OF n(2,1)] AbDiff_wf_def
      by (simp add: AbDiff_leaf_count_def AbDiff_parent_count_def del: power_Suc)
  qed (use n assms in \<open>simp add: AbDiff_grow_tree_eq\<close>)
qed

lemma AbDiff_shrink_tree_wf:
  assumes "AbDiff_wf d"
  shows "AbDiff_wf (fst (AbDiff_shrink_tree d))"
proof -
  obtain n where n: "n < 30" "diff_size d = depth_size n" using AbDiff_wfD(2) [OF assms] by (rule full_sizeE)
  show ?thesis
  proof (cases "n = 0")
    case False
    then have "full_size (depth_size (n - 1))" using n by auto
    with False n assms show ?thesis
      unfolding AbDiff_shrink_tree_eq [OF n(2,1)] AbDiff_wf_def
      by (auto simp: AbDiff_leaf_count_def AbDiff_parent_count_def btm_simps btm_retain_def)
  qed (use n assms in \<open>simp add: AbDiff_shrink_tree_eq\<close>)
qed

lemma AbDiff_set_direct_path_effect:
  assumes wf: "AbDiff_wf d" and i: "i < AbDiff_leaf_count d"
  shows "\<exists>path d'. AbDiff_direct_path d i = Some path \<and>
    AbDiff_set_direct_path_to_node d i p = Some d' \<and> AbDiff_wf d' \<and>
    AbDiff_frame d' = AbDiff_frame d \<and> AbDiff_leaf d' = AbDiff_leaf d \<and>
    AbDiff_parent d' = (\<lambda>j. if j \<in> set path then p else AbDiff_parent d j)"
proof -
  obtain n where n: "n < 30" "diff_size d = depth_size n" using AbDiff_wfD(2) [OF wf] by (rule full_sizeE)
  let ?path = "map (\<lambda>k. node_at k (i div 2 ^ Suc k)) [0..<n]"
  have l: "i < 2 ^ n" using i n by (simp add: AbDiff_leaf_count_def)
  have path: "AbDiff_direct_path d i = Some ?path"
    using n l by (simp add: AbDiff_direct_path_def direct_path_depth_size)
  have "j < AbDiff_parent_count d" if "j \<in> set ?path" for j
    using that n parent_in_tree_bound [OF in_tree_div [OF l]]
    by (auto simp: AbDiff_parent_count_def simp del: power_Suc)
  from abd.replace_all_effect [of d ?path p, OF wf this]
  obtain d' where "for_each (\<lambda>j d. AbDiff_replace_parent d j p) ?path d = Some d'" "AbDiff_wf d'"
    "AbDiff_leaf d' = AbDiff_leaf d" "AbDiff_frame d' = AbDiff_frame d"
    "AbDiff_parent d' = (\<lambda>j. if j \<in> set ?path then p else AbDiff_parent d j)" by blast
  with path show ?thesis
    by (intro exI [of _ ?path] exI [of _ d']) (simp add: AbDiff_set_direct_path_to_node_def)
qed

section \<open>Merging a diff into its tree\<close>

lemma merge_entries_effect:
  assumes "btm_sorted m" "\<And>i. i \<in> fst ` set m \<Longrightarrow> i < length xs"
  shows "\<exists>ys. merge_entries xs m = Some ys \<and> length ys = length xs \<and>
    (\<forall>i < length xs. ys ! i = (case btm_get m i of Some v \<Rightarrow> v | None \<Rightarrow> xs ! i))"
  using assms
proof (induction m arbitrary: xs)
  case (Cons e m)
  obtain k v where e: "e = (k, v)" by (cases e)
  have k: "k < length xs" using Cons.prems(2) [of k] by (simp add: e)
  have s: "btm_sorted m" and fresh: "k \<notin> fst ` set m"
    using Cons.prems(1) by (auto simp: btm_sorted_def e)
  have "\<And>i. i \<in> fst ` set m \<Longrightarrow> i < length (xs[k := v])" using Cons.prems(2) by auto
  from Cons.IH [OF s this] obtain ys where ys: "merge_entries (xs[k := v]) m = Some ys"
    "length ys = length xs"
    "\<forall>i < length xs. ys ! i = (case btm_get m i of Some v \<Rightarrow> v | None \<Rightarrow> xs[k := v] ! i)"
    by auto
  have "map_of m k = None" using fresh by (simp add: map_of_eq_None_iff)
  with ys k show ?case
    by (auto simp: e btm_get_def nth_list_update split: option.split)
qed (simp add: btm_get_def)

text \<open>
  A vector resized to the diff's size and merged with its entries reads as the overlay does.
\<close>

lemma merge_resized_view:
  assumes "btm_sorted m" "\<And>i. i \<in> fst ` set m \<Longrightarrow> i < n"
  shows "\<exists>ys. merge_entries (vec_resize xs n x) m = Some ys \<and> length ys = n \<and>
    (\<forall>i < n. vec_get ys i = Some (case btm_get m i of Some v \<Rightarrow> v | None \<Rightarrow>
       case vec_get xs i of None \<Rightarrow> x | Some v \<Rightarrow> v))"
proof -
  obtain ys where "merge_entries (vec_resize xs n x) m = Some ys" "length ys = n"
    "\<forall>i < n. ys ! i = (case btm_get m i of Some v \<Rightarrow> v | None \<Rightarrow> vec_resize xs n x ! i)"
    using merge_entries_effect [of m "vec_resize xs n x"] assms by auto
  then show ?thesis
    by (auto simp: vec_get_def nth_vec_resize split: option.split)
qed

lemma ABinaryTree_merge_diff_effect:
  assumes wf: "AbDiff_wf d"
  shows "\<exists>t'. ABinaryTree_merge_diff (original_tree d) (StagedAbDiff_from d) = Some t' \<and>
    ABinaryTree_wf t' \<and> ABinaryTree_tree_size t' = Some (diff_size d) \<and>
    default_leaf t' = default_leaf (original_tree d) \<and>
    default_parent t' = default_parent (original_tree d) \<and>
    length (leaf_nodes t') = AbDiff_leaf_count d \<and> ABinaryTree_leaf t' = AbDiff_leaf d \<and>
    (\<forall>i < AbDiff_parent_count d. ABinaryTree_parent t' i = AbDiff_parent d i)"
proof -
  let ?t = "original_tree d"
  obtain n where n: "n < 30" "diff_size d = depth_size n" using AbDiff_wfD(2) [OF wf] by (rule full_sizeE)
  have c: "AbDiff_leaf_count d = 2 ^ n" "AbDiff_parent_count d = 2 ^ n - 1"
    using n by (simp_all add: AbDiff_leaf_count_def AbDiff_parent_count_def)
  obtain ls where ls: "merge_entries (vec_resize (leaf_nodes ?t) (AbDiff_leaf_count d) (default_leaf ?t))
      (leaf_diff d) = Some ls" "length ls = AbDiff_leaf_count d"
    "\<forall>i < AbDiff_leaf_count d. vec_get ls i = Some (case btm_get (leaf_diff d) i of Some v \<Rightarrow> v
       | None \<Rightarrow> ABinaryTree_leaf_by_index ?t i)"
    using merge_resized_view [OF AbDiff_wfD(3,5) [OF wf]] unfolding ABinaryTree_leaf_by_index_def by blast
  obtain ps where ps: "merge_entries (vec_resize (parent_nodes ?t) (AbDiff_parent_count d)
      (default_parent ?t)) (parent_diff d) = Some ps" "length ps = AbDiff_parent_count d"
    "\<forall>i < AbDiff_parent_count d. vec_get ps i = Some (AbDiff_parent d i)"
    using merge_resized_view [OF AbDiff_wfD(4,6) [OF wf]]
    unfolding ABinaryTree_parent_by_index_def AbDiff_parent_def by blast
  let ?t' = "?t\<lparr>leaf_nodes := ls, parent_nodes := ps\<rparr>"
  have merge: "ABinaryTree_merge_diff ?t (StagedAbDiff_from d) = Some ?t'"
    using ls(1) ps(1)
    by (simp add: ABinaryTree_merge_diff_def StagedAbDiff_from_def AbDiff_leaf_count_def
        AbDiff_parent_count_def)
  have sz: "length ls + length ps = depth_size n" "length ls = length ps + 1"
    using ls(2) ps(2) c depth_size_plus_1 [of n] by simp_all
  have "depth_size n < 2 ^ 30" using full_size_less [of "depth_size n"] n by simp
  moreover have "TreeSize_new (depth_size n) = Some (depth_size n)"
    using n(1) sz c ls(2) depth_size_plus_1 [of n] by (intro TreeSize_new_eq) simp_all
  ultimately have wf': "ABinaryTree_wf ?t'" "ABinaryTree_tree_size ?t' = Some (diff_size d)"
    using sz n
    by (auto simp: ABinaryTree_wf_def ABinaryTree_tree_size_def MAX_TREE_SIZE_def as_u32_def)
  have "ABinaryTree_leaf ?t' i = AbDiff_leaf d i" for i
  proof (cases "i < AbDiff_leaf_count d")
    case False
    then have "btm_get (leaf_diff d) i = None"
      using AbDiff_wfD(5) [OF wf, of i] by (metis btm_get_def map_of_eq_None_iff)
    with False show ?thesis
      using ls(2) AbDiff_wfD(7) [OF wf] by (simp add: ABinaryTree_leaf_def AbDiff_leaf_def)
  qed (use ls in \<open>simp add: ABinaryTree_leaf_def AbDiff_leaf_def split: option.split\<close>)
  with merge wf' ls(2) ps(3) show ?thesis
    by (intro exI [of _ ?t']) (simp add: ABinaryTree_parent_def fun_eq_iff)
qed

section \<open>Every diff made by the operations\<close>

text \<open>
  The operations through which the rest of the program changes a diff, as steps; the tree hands
  out the first diff.
\<close>

inductive AbDiff_step :: "('l, 'p) AbDiff \<Rightarrow> ('l, 'p) AbDiff \<Rightarrow> bool" where
  step_grow: "AbDiff_grow_tree d = (d', r) \<Longrightarrow> AbDiff_step d d'"
| step_shrink: "AbDiff_shrink_tree d = (d', r) \<Longrightarrow> AbDiff_step d d'"
| step_replace_leaf: "AbDiff_replace_leaf d i l = Some d' \<Longrightarrow> AbDiff_step d d'"
| step_replace_parent: "AbDiff_replace_parent d i p = Some d' \<Longrightarrow> AbDiff_step d d'"
| step_parent_mut: "AbDiff_parent_mut d i f = Some d' \<Longrightarrow> AbDiff_step d d'"
| step_set_direct_path: "i < AbDiff_leaf_count d \<Longrightarrow>
    AbDiff_set_direct_path_to_node d i p = Some d' \<Longrightarrow> AbDiff_step d d'"

inductive AbDiff_reachable :: "('l, 'p) ABinaryTree \<Rightarrow> ('l, 'p) AbDiff \<Rightarrow> bool" for t where
  reachable_empty: "ABinaryTree_empty_diff t = Some d \<Longrightarrow> AbDiff_reachable t d"
| reachable_step: "AbDiff_reachable t d \<Longrightarrow> AbDiff_step d d' \<Longrightarrow> AbDiff_reachable t d'"

lemma AbDiff_frame_tree: "AbDiff_frame d' = AbDiff_frame d \<Longrightarrow> original_tree d' = original_tree d"
  by (simp add: AbDiff_frame_def)

lemma AbDiff_grow_shrink_tree:
  "original_tree (fst (AbDiff_grow_tree d)) = original_tree d"
  "original_tree (fst (AbDiff_shrink_tree d)) = original_tree d"
  by (simp_all add: AbDiff_grow_tree_def AbDiff_shrink_tree_def split: option.split)

lemma AbDiff_step_wf:
  assumes "AbDiff_step d d'" "AbDiff_wf d"
  shows "AbDiff_wf d' \<and> original_tree d' = original_tree d"
  using assms
proof cases
  case (step_grow r)
  then show ?thesis using AbDiff_grow_tree_wf [OF assms(2)] AbDiff_grow_shrink_tree(1) [of d] by simp
next
  case (step_shrink r)
  then show ?thesis using AbDiff_shrink_tree_wf [OF assms(2)] AbDiff_grow_shrink_tree(2) [of d] by simp
next
  case (step_replace_leaf i l)
  then show ?thesis using abd.replace_leaf_effect [OF assms(2)] AbDiff_frame_tree by blast
next
  case (step_replace_parent i p)
  then show ?thesis using abd.replace_parent_effect [OF assms(2)] AbDiff_frame_tree by blast
next
  case (step_parent_mut i f)
  then have "i < AbDiff_parent_count d"
    by (auto simp: AbDiff_parent_mut_def debug_assert_def split: if_splits)
  from AbDiff_parent_mut_effect [OF assms(2) this, of f] step_parent_mut show ?thesis
    using AbDiff_frame_tree [of d' d] by auto
next
  case (step_set_direct_path i p)
  from AbDiff_set_direct_path_effect [OF assms(2) this(1), of p] this(2) show ?thesis
    using AbDiff_frame_tree [of d' d] by auto
qed

lemma AbDiff_reachable_wf:
  assumes "AbDiff_reachable t d" "ABinaryTree_wf t"
  shows "AbDiff_wf d \<and> original_tree d = t"
  using assms
proof induction
  case (reachable_empty d)
  then show ?case using ABinaryTree_empty_diff_effect [of t] by auto
next
  case (reachable_step d d')
  then show ?case using AbDiff_step_wf [of d d'] by auto
qed

text \<open>Leaves and parents of a node list in the array representation.\<close>

fun interleave :: "'l list \<Rightarrow> 'p list \<Rightarrow> ('l, 'p) TreeNode list" where
  "interleave [] ps = []"
| "interleave [l] ps = [TreeNode_Leaf l]"
| "interleave (l # ls) [] = [TreeNode_Leaf l]"
| "interleave (l # ls) (p # ps) = TreeNode_Leaf l # TreeNode_Parent p # interleave ls ps"

lemma length_interleave:
  "length ls = length ps + 1 \<Longrightarrow> length (interleave ls ps) = length ls + length ps"
  by (induction ls ps rule: interleave.induct) auto

lemma split_nodes_interleave:
  assumes "length ls = length ps + 1" "even i"
  shows "split_nodes i (interleave ls ps) as bs = Ok (as @ ls, bs @ ps)"
  using assms by (induction ls ps arbitrary: i as bs rule: interleave.induct) auto

lemma split_nodes_Ok:
  assumes "split_nodes i nodes as bs = Ok (ls, ps)" "even i" "odd (length nodes)"
  shows "\<exists>ls' ps'. ls = as @ ls' \<and> ps = bs @ ps' \<and> length ls' = length ps' + 1 \<and>
    nodes = interleave ls' ps'"
  using assms
proof (induction "length nodes" arbitrary: i nodes as bs rule: less_induct)
  case less
  obtain l nodes1 where n1: "nodes = TreeNode_Leaf l # nodes1"
    using less.prems by (cases nodes; cases "hd nodes") auto
  show ?case
  proof (cases nodes1)
    case Nil
    then show ?thesis using less.prems n1 by (intro exI [of _ "[l]"] exI [of _ "[]"]) simp
  next
    case (Cons x nodes2)
    then obtain p where p: "x = TreeNode_Parent p"
      using less.prems n1 by (cases x) auto
    have "split_nodes (i + 2) nodes2 (as @ [l]) (bs @ [p]) = Ok (ls, ps)"
      using less.prems n1 Cons p by (simp split: if_splits)
    moreover have "odd (length nodes2)" "even (i + 2)" using less.prems n1 Cons by auto
    ultimately obtain ls' ps' where r: "ls = (as @ [l]) @ ls'" "ps = (bs @ [p]) @ ps'"
      "length ls' = length ps' + 1" "nodes2 = interleave ls' ps'"
      using less.hyps [of nodes2 "i + 2" "as @ [l]" "bs @ [p]"] n1 Cons by auto
    then have "nodes = interleave (l # ls') (p # ps')"
      using n1 Cons p by (cases ls') auto
    with r show ?thesis by (intro exI [of _ "l # ls'"] exI [of _ "p # ps'"]) simp
  qed
qed

text \<open>A tree of two leaves, and a diff of it with one leaf replaced.\<close>

definition sample_tree :: "(nat, nat) ABinaryTree" where
  "sample_tree = \<lparr>leaf_nodes = [10, 20], parent_nodes = [5], default_leaf = 0, default_parent = 0\<rparr>"

definition sample_diff :: "(nat, nat) AbDiff" where
  "sample_diff = \<lparr>original_tree = sample_tree, leaf_diff = [(1, 21)], parent_diff = [], diff_size = 3,
     diff_default_leaf = 0, diff_default_parent = 0\<rparr>"

lemma sample_tree_wf: "ABinaryTree_wf sample_tree"
  by (simp add: sample_tree_def ABinaryTree_wf_def MAX_TREE_SIZE_def)

lemma sample_diff_reachable: "AbDiff_reachable sample_tree sample_diff"
proof -
  let ?d0 = "sample_diff\<lparr>leaf_diff := []\<rparr>"
  have "TreeSize_new 3 = Some 3"
    using TreeSize_new_eq [of 1 3] by (simp add: depth_size_def)
  then have "ABinaryTree_empty_diff sample_tree = Some ?d0"
    by (simp add: ABinaryTree_empty_diff_def ABinaryTree_tree_size_def sample_tree_def sample_diff_def
        as_u32_def)
  moreover have "AbDiff_replace_leaf ?d0 1 21 = Some sample_diff"
    by (simp add: AbDiff_replace_leaf_def AbDiff_leaf_count_def TreeSize_leaf_count_def sample_diff_def
        debug_assert_def)
  ultimately show ?thesis by (blast intro: AbDiff_reachable.intros step_replace_leaf)
qed

lemma sample_diff_wf: "AbDiff_wf sample_diff"
  using AbDiff_reachable_wf [OF sample_diff_reachable sample_tree_wf] by blast

section \<open>Properties\<close>

text \<open>
  (C10) Every diff that the operations can make of a well-formed tree merges into that tree without
  panicking, and the merged tree reads as the diff did: it has the diff's size, the same leaf at
  every index, and the same parent at every index of the tree.
\<close>

theorem merge_diff_refines:
  assumes "ABinaryTree_wf t" "AbDiff_reachable t d"
  shows "\<exists>t'. ABinaryTree_merge_diff t (StagedAbDiff_from d) = Some t' \<and> ABinaryTree_wf t' \<and>
    ABinaryTree_tree_size t' = Some (diff_size d) \<and> ABinaryTree_leaf t' = AbDiff_leaf d \<and>
    (\<forall>i < AbDiff_parent_count d. ABinaryTree_parent t' i = AbDiff_parent d i)"
proof -
  have "AbDiff_wf d" "original_tree d = t" using AbDiff_reachable_wf assms by blast+
  then show ?thesis using ABinaryTree_merge_diff_effect [of d] by auto
qed

theorem merge_diff_refines_witness:
  "ABinaryTree_wf sample_tree \<and> AbDiff_reachable sample_tree sample_diff \<and>
   (\<exists>t'. ABinaryTree_merge_diff sample_tree (StagedAbDiff_from sample_diff) = Some t' \<and>
     ABinaryTree_leaf t' = AbDiff_leaf sample_diff)"
  using merge_diff_refines [OF sample_tree_wf sample_diff_reachable] sample_tree_wf
    sample_diff_reachable by blast

text \<open> The two constructors of the tree agree: \<open>new\<close> accepts a node list exactly when it
  is the array representation, leaves and parents alternating, of vectors that
  \<open>from_components\<close> accepts, and both give the same well-formed tree.
\<close>

theorem tree_constructors_agree:
  "ABinaryTree_new dl dp nodes = Ok t \<longleftrightarrow>
   nodes = interleave (leaf_nodes t) (parent_nodes t) \<and> ABinaryTree_wf t \<and>
   ABinaryTree_from_components dl dp (leaf_nodes t) (parent_nodes t) = Ok t"
proof
  assume new: "ABinaryTree_new dl dp nodes = Ok t"
  then have len: "length nodes \<le> MAX_TREE_SIZE" "odd (length nodes)"
    by (auto simp: ABinaryTree_new_def odd_iff_mod_2_eq_one split: if_splits)
  from new obtain ls ps where s: "split_nodes 0 nodes [] [] = Ok (ls, ps)"
    and t: "t = \<lparr>leaf_nodes = ls, parent_nodes = ps, default_leaf = dl, default_parent = dp\<rparr>"
    by (cases "split_nodes 0 nodes [] []") (auto simp: ABinaryTree_new_def split: if_splits)
  from split_nodes_Ok [OF s _ len(2)] have "nodes = interleave ls ps" "length ls = length ps + 1" by auto
  with t len length_interleave [of ls ps]
  show "nodes = interleave (leaf_nodes t) (parent_nodes t) \<and> ABinaryTree_wf t \<and>
      ABinaryTree_from_components dl dp (leaf_nodes t) (parent_nodes t) = Ok t"
    by (simp add: ABinaryTree_wf_def ABinaryTree_from_components_def)
next
  assume a: "nodes = interleave (leaf_nodes t) (parent_nodes t) \<and> ABinaryTree_wf t \<and>
      ABinaryTree_from_components dl dp (leaf_nodes t) (parent_nodes t) = Ok t"
  then have "length nodes = 2 * length (parent_nodes t) + 1" "length nodes \<le> MAX_TREE_SIZE"
    using length_interleave [of "leaf_nodes t" "parent_nodes t"] by (auto simp: ABinaryTree_wf_def)
  with a split_nodes_interleave [of "leaf_nodes t" "parent_nodes t" 0 "[]" "[]"]
  show "ABinaryTree_new dl dp nodes = Ok t"
    by (auto simp: ABinaryTree_new_def ABinaryTree_wf_def ABinaryTree_from_components_def
        split: if_splits)
qed

text \<open>
  Growing and shrinking a diff never panic. Growing fails only for a tree of \<open>2 ^ 29\<close>
  leaves and then changes nothing; otherwise the number of leaves doubles and every node of the
  tree reads as before. Shrinking fails only for a single leaf and changes nothing then; otherwise the
  number of leaves halves, the nodes that remain read as before, and a leaf beyond reads as the
  default.
\<close>

theorem grow_shrink_outcomes:
  assumes "AbDiff_wf d"
  shows "(if AbDiff_leaf_count d = 2 ^ 29 then AbDiff_grow_tree d = (d, Err TreeTooLarge)
     else \<exists>d'. AbDiff_grow_tree d = (d', Ok ()) \<and> AbDiff_wf d' \<and>
       AbDiff_leaf_count d' = 2 * AbDiff_leaf_count d \<and>
       (\<forall>i < AbDiff_leaf_count d. AbDiff_leaf d' i = AbDiff_leaf d i) \<and>
       AbDiff_parent d' = AbDiff_parent d) \<and>
    (if AbDiff_leaf_count d = 1 then AbDiff_shrink_tree d = (d, Err TreeTooSmall)
     else \<exists>d'. AbDiff_shrink_tree d = (d', Ok ()) \<and> AbDiff_wf d' \<and>
       2 * AbDiff_leaf_count d' = AbDiff_leaf_count d \<and>
       (\<forall>i. AbDiff_leaf d' i =
         (if i < AbDiff_leaf_count d' then AbDiff_leaf d i else diff_default_leaf d)) \<and>
       (\<forall>i < AbDiff_parent_count d'. AbDiff_parent d' i = AbDiff_parent d i))"
    (is "(if ?max then ?ge else ?go) \<and> (if ?min then ?se else ?so)")
proof -
  obtain n where n: "n < 30" "diff_size d = depth_size n" using AbDiff_wfD(2) [OF assms] by (rule full_sizeE)
  have c: "AbDiff_leaf_count d = 2 ^ n" using n by (simp add: AbDiff_leaf_count_def)
  then have "AbDiff_leaf_count d = 2 ^ 29 \<longleftrightarrow> n = 29" "AbDiff_leaf_count d = 1 \<longleftrightarrow> n = 0"
    using power_inject_exp [of "2::nat" n 29] by simp_all
  note max = this(1) and min = this(2)
  have ?ge if "n = 29" using that n by (simp add: AbDiff_grow_tree_eq)
  moreover have ?go if "n \<noteq> 29"
    using AbDiff_grow_tree_wf [OF assms] that n c
    by (auto simp: AbDiff_grow_tree_eq AbDiff_leaf_count_def AbDiff_leaf_def AbDiff_parent_def
        fun_eq_iff split: option.split)
  moreover have ?se if "n = 0" using that n by (simp add: AbDiff_shrink_tree_eq)
  moreover have ?so if n0: "n \<noteq> 0"
  proof -
    let ?d' = "fst (AbDiff_shrink_tree d)"
    have eq: "AbDiff_shrink_tree d = (?d', Ok ())" using n0 n by (simp add: AbDiff_shrink_tree_eq)
    have "(2::nat) ^ n = 2 * 2 ^ (n - 1)" using n0 by (cases n) simp_all
    then show ?thesis
      using AbDiff_shrink_tree_wf [OF assms] n0 n c AbDiff_wfD(3,4) [OF assms]
      by (subst eq) (auto simp: AbDiff_shrink_tree_eq AbDiff_leaf_count_def AbDiff_parent_count_def
          AbDiff_leaf_def AbDiff_parent_def btm_simps cong: option.case_cong)
  qed
  ultimately show ?thesis unfolding max min by simp
qed

theorem grow_shrink_outcomes_witness:
  "\<exists>d'. AbDiff_grow_tree sample_diff = (d', Ok ()) \<and> AbDiff_leaf_count d' = 4"
  using grow_shrink_outcomes [OF sample_diff_wf]
  by (auto simp: sample_diff_def AbDiff_leaf_count_def TreeSize_leaf_count_def)

text \<open>
  (C14) The iterators of a diff and of the staged diff list the nodes as the lookups of the diff
  see them, in the order of their indices, each once, and none beyond the size: every node that the
  tree or the diff has.
\<close>

theorem diff_iterators:
  assumes "AbDiff_wf d"
  shows "AbDiff_leaves d =
      map (\<lambda>i. (i, AbDiff_leaf d i)) (filter (AbDiff_has_leaf d) [0..<AbDiff_leaf_count d]) \<and>
    AbDiff_parents d =
      map (\<lambda>i. (i, AbDiff_parent d i)) (filter (AbDiff_has_parent d) [0..<AbDiff_parent_count d]) \<and>
    StagedAbDiff_leaves (StagedAbDiff_from d) (original_tree d) = AbDiff_leaves d \<and>
    StagedAbDiff_parents (StagedAbDiff_from d) (original_tree d) = AbDiff_parents d"
  using AbDiff_leaves_eq [OF assms] AbDiff_parents_eq [OF assms]
  by (simp add: StagedAbDiff_leaves_def StagedAbDiff_parents_def StagedAbDiff_from_def
      AbDiff_leaves_def AbDiff_parents_def AbDiff_leaf_count_def AbDiff_parent_count_def)

theorem diff_iterators_witness: "AbDiff_leaves sample_diff = [(0, 10), (1, 21)]"
proof -
  have "AbDiff_leaf_count sample_diff = 2"
    by (simp add: sample_diff_def AbDiff_leaf_count_def TreeSize_leaf_count_def)
  moreover have "[0..<2] = [0, 1 :: nat]" by (simp add: upt_rec)
  moreover note conjunct1 [OF diff_iterators [OF sample_diff_wf]]
  ultimately show ?thesis
    by (simp add: sample_diff_def sample_tree_def AbDiff_leaf_count_def TreeSize_leaf_count_def
        AbDiff_has_leaf_def AbDiff_leaf_def ABinaryTree_leaf_by_index_def btm_get_def)
qed

text \<open>
  (C15) Shrinking a diff and growing it again makes the leaves of the original tree visible
  again, whatever the diff had put at their place: a leaf that the diff had blanked before the tree
  shrank is back after the tree has grown.
\<close>

theorem shrink_grow_restores_leaf:
  assumes "AbDiff_wf d" "AbDiff_leaf_count d \<noteq> 1"
    and "AbDiff_leaf_count d div 2 \<le> i" "i < AbDiff_leaf_count d"
  shows "\<exists>d1 d2. AbDiff_shrink_tree d = (d1, Ok ()) \<and> AbDiff_grow_tree d1 = (d2, Ok ()) \<and>
    AbDiff_leaf_count d2 = AbDiff_leaf_count d \<and>
    AbDiff_leaf d2 i = ABinaryTree_leaf (original_tree d) i"
proof -
  obtain n where n: "n < 30" "diff_size d = depth_size n"
    using AbDiff_wfD(2) [OF assms(1)] by (rule full_sizeE)
  have c: "AbDiff_leaf_count d = 2 ^ n" using n by (simp add: AbDiff_leaf_count_def)
  with assms(2) obtain m where m: "n = Suc m" by (cases n) auto
  let ?d1 = "fst (AbDiff_shrink_tree d)"
  have d1: "AbDiff_shrink_tree d = (?d1, Ok ())" "diff_size ?d1 = depth_size m"
    using n m by (simp_all add: AbDiff_shrink_tree_eq)
  have d2: "AbDiff_grow_tree ?d1 = (?d1\<lparr>diff_size := depth_size n\<rparr>, Ok ())"
    using AbDiff_grow_tree_eq [OF d1(2)] n m by simp
  have "2 ^ m \<le> i" using assms(3) c m by simp
  then have "btm_get (leaf_diff ?d1) i = None"
    using n m AbDiff_wfD(3) [OF assms(1)] by (simp add: AbDiff_shrink_tree_eq btm_simps)
  then have "AbDiff_leaf (?d1\<lparr>diff_size := depth_size n\<rparr>) i = ABinaryTree_leaf (original_tree d) i"
    using assms(4) c AbDiff_grow_shrink_tree(2) [of d]
    by (simp add: AbDiff_leaf_def AbDiff_leaf_count_def ABinaryTree_leaf_def ABinaryTree_leaf_by_index_def)
  then show ?thesis using d1(1) d2 c by (auto simp: AbDiff_leaf_count_def)
qed

theorem shrink_grow_restores_leaf_witness:
  "AbDiff_leaf sample_diff 1 = 21 \<and>
   (\<exists>d1 d2. AbDiff_shrink_tree sample_diff = (d1, Ok ()) \<and> AbDiff_grow_tree d1 = (d2, Ok ()) \<and>
     AbDiff_leaf d2 1 = 20)"
proof -
  have c: "AbDiff_leaf_count sample_diff = 2" "ABinaryTree_leaf (original_tree sample_diff) 1 = 20"
    by (simp_all add: sample_diff_def sample_tree_def AbDiff_leaf_count_def TreeSize_leaf_count_def
        ABinaryTree_leaf_def)
  have "AbDiff_leaf sample_diff 1 = 21"
    by (simp add: sample_diff_def AbDiff_leaf_def btm_get_def)
  with shrink_grow_restores_leaf [OF sample_diff_wf, of 1] c show ?thesis by auto
qed

end
