(* ===== verification/Ciphersuite.thy ===== *)
theory Ciphersuite
  imports Prelude
begin

text \<open>
  Ciphersuites and the algorithms they name (\<open>traits/src/types.rs\<close>,
  \<open>traits/src/grease.rs\<close>), in the build with every feature on. A \<open>u16\<close> is a
  natural number below \<open>2 ^ 16\<close>; the code points are the constants of the source.
\<close>

type_synonym u16 = nat

text \<open>The errors of the codec library that conversions report.\<close>

datatype TlsCodecError = DecodingError | EncodingError | EndOfStream | InvalidVectorLength | InvalidInput

section \<open>GREASE values\<close>

definition GREASE_VALUES :: "u16 list" where
  "GREASE_VALUES =
     [0x0A0A, 0x1A1A, 0x2A2A, 0x3A3A, 0x4A4A, 0x5A5A, 0x6A6A, 0x7A7A,
      0x8A8A, 0x9A9A, 0xAAAA, 0xBABA, 0xCACA, 0xDADA, 0xEAEA]"

definition is_grease_value :: "u16 \<Rightarrow> bool" where
  "is_grease_value value \<longleftrightarrow>
     value = 0x0A0A \<or> value = 0x1A1A \<or> value = 0x2A2A \<or> value = 0x3A3A \<or>
     value = 0x4A4A \<or> value = 0x5A5A \<or> value = 0x6A6A \<or> value = 0x7A7A \<or>
     value = 0x8A8A \<or> value = 0x9A9A \<or> value = 0xAAAA \<or> value = 0xBABA \<or>
     value = 0xCACA \<or> value = 0xDADA \<or> value = 0xEAEA"

section \<open>Algorithms\<close>

datatype AeadType = Aes128Gcm | Aes256Gcm | ChaCha20Poly1305

fun key_size :: "AeadType \<Rightarrow> nat" where
  "key_size Aes128Gcm = 16"
| "key_size Aes256Gcm = 32"
| "key_size ChaCha20Poly1305 = 32"

fun nonce_size :: "AeadType \<Rightarrow> nat" where
  "nonce_size Aes128Gcm = 12"
| "nonce_size Aes256Gcm = 12"
| "nonce_size ChaCha20Poly1305 = 12"

datatype HashType = Sha2_256 | Sha2_384 | Sha2_512

fun HashType_size :: "HashType \<Rightarrow> nat" where
  "HashType_size Sha2_256 = 32"
| "HashType_size Sha2_384 = 48"
| "HashType_size Sha2_512 = 64"

datatype SignatureScheme =
    ECDSA_SECP256R1_SHA256
  | ECDSA_SECP384R1_SHA384
  | ECDSA_SECP521R1_SHA512
  | ED25519
  | ED448
  | MLDSA44
  | MLDSA65
  | MLDSA87

fun SignatureScheme_u16 :: "SignatureScheme \<Rightarrow> u16" where
  "SignatureScheme_u16 ECDSA_SECP256R1_SHA256 = 0x0403"
| "SignatureScheme_u16 ECDSA_SECP384R1_SHA384 = 0x0503"
| "SignatureScheme_u16 ECDSA_SECP521R1_SHA512 = 0x0603"
| "SignatureScheme_u16 ED25519 = 0x0807"
| "SignatureScheme_u16 ED448 = 0x0808"
| "SignatureScheme_u16 MLDSA44 = 0x0904"
| "SignatureScheme_u16 MLDSA65 = 0x0905"
| "SignatureScheme_u16 MLDSA87 = 0x0906"

definition SignatureScheme_try_from :: "u16 \<Rightarrow> (SignatureScheme, string \<times> u16) outcome" where
  "SignatureScheme_try_from v =
     (if v = 0x0403 then Ok ECDSA_SECP256R1_SHA256
      else if v = 0x0503 then Ok ECDSA_SECP384R1_SHA384
      else if v = 0x0603 then Ok ECDSA_SECP521R1_SHA512
      else if v = 0x0807 then Ok ED25519
      else if v = 0x0808 then Ok ED448
      else if v = 0x0904 then Ok MLDSA44
      else if v = 0x0905 then Ok MLDSA65
      else if v = 0x0906 then Ok MLDSA87
      else Err (''Unsupported SignatureScheme: '', v))"

datatype CryptoError =
    CryptoLibraryError | AeadDecryptionError | HpkeDecryptionError | HpkeEncryptionError
  | UnsupportedSignatureScheme | KdfLabelTooLarge | KdfSerializationError | HkdfOutputLengthInvalid
  | InsufficientRandomness | InvalidSignature | UnsupportedAeadAlgorithm | UnsupportedKdf
  | InvalidLength | UnsupportedHashAlgorithm | SignatureEncodingError | SignatureDecodingError
  | SenderSetupError | ReceiverSetupError | ExporterError | UnsupportedCiphersuite
  | TlsSerializationError | TooMuchData | SigningError | InvalidPublicKey

datatype HpkeKemType =
    DhKemP256 | DhKemP384 | DhKemP521 | DhKem25519 | DhKem448 | MlKem768 | MlKem1024 | XWingKemDraft6

datatype HpkeKdfType = HkdfSha256 | HkdfSha384 | HkdfSha512

datatype HpkeAeadType = AesGcm128 | AesGcm256 | HpkeChaCha20Poly1305 | Export

datatype HpkeConfig = HpkeConfig HpkeKemType HpkeKdfType HpkeAeadType

section \<open>Ciphersuites\<close>

datatype Ciphersuite =
    MLS_128_DHKEMX25519_AES128GCM_SHA256_Ed25519
  | MLS_128_DHKEMP256_AES128GCM_SHA256_P256
  | MLS_128_DHKEMX25519_CHACHA20POLY1305_SHA256_Ed25519
  | MLS_256_DHKEMX448_AES256GCM_SHA512_Ed448
  | MLS_256_DHKEMP521_AES256GCM_SHA512_P521
  | MLS_256_DHKEMX448_CHACHA20POLY1305_SHA512_Ed448
  | MLS_256_DHKEMP384_AES256GCM_SHA384_P384
  | MLS_256_XWING_CHACHA20POLY1305_SHA256_Ed25519
  | MLS_256_MLKEM1024_AES256GCM_SHA512_MLDSA87
  | MLS_128_MLKEM768X25519_AES128GCM_SHA256_Ed25519
  | MLS_128_MLKEM768X25519_AES256GCM_SHA384_Ed25519
  | MLS_128_MLKEM768_AES256GCM_SHA384_Ed25519
  | MLS_128_MLKEM768_AES256GCM_SHA384_P256
  | MLS_192_MLKEM1024_AES256GCM_SHA384_P384
  | MLS_128_MLKEM768X25519_CHACHA20POLY1305_SHA384_MLDSA44
  | MLS_192_MLKEM768_AES256GCM_SHA384_MLDSA65
  | MLS_256_MLKEM1024_AES256GCM_SHA384_MLDSA87

fun Ciphersuite_u16 :: "Ciphersuite \<Rightarrow> u16" where
  "Ciphersuite_u16 MLS_128_DHKEMX25519_AES128GCM_SHA256_Ed25519 = 0x0001"
| "Ciphersuite_u16 MLS_128_DHKEMP256_AES128GCM_SHA256_P256 = 0x0002"
| "Ciphersuite_u16 MLS_128_DHKEMX25519_CHACHA20POLY1305_SHA256_Ed25519 = 0x0003"
| "Ciphersuite_u16 MLS_256_DHKEMX448_AES256GCM_SHA512_Ed448 = 0x0004"
| "Ciphersuite_u16 MLS_256_DHKEMP521_AES256GCM_SHA512_P521 = 0x0005"
| "Ciphersuite_u16 MLS_256_DHKEMX448_CHACHA20POLY1305_SHA512_Ed448 = 0x0006"
| "Ciphersuite_u16 MLS_256_DHKEMP384_AES256GCM_SHA384_P384 = 0x0007"
| "Ciphersuite_u16 MLS_256_XWING_CHACHA20POLY1305_SHA256_Ed25519 = 0x004D"
| "Ciphersuite_u16 MLS_256_MLKEM1024_AES256GCM_SHA512_MLDSA87 = 0x0906"
| "Ciphersuite_u16 MLS_128_MLKEM768X25519_AES128GCM_SHA256_Ed25519 = 0x004F"
| "Ciphersuite_u16 MLS_128_MLKEM768X25519_AES256GCM_SHA384_Ed25519 = 0x004E"
| "Ciphersuite_u16 MLS_128_MLKEM768_AES256GCM_SHA384_Ed25519 = 0xF042"
| "Ciphersuite_u16 MLS_128_MLKEM768_AES256GCM_SHA384_P256 = 0x0050"
| "Ciphersuite_u16 MLS_192_MLKEM1024_AES256GCM_SHA384_P384 = 0x0042"
| "Ciphersuite_u16 MLS_128_MLKEM768X25519_CHACHA20POLY1305_SHA384_MLDSA44 = 0x0052"
| "Ciphersuite_u16 MLS_192_MLKEM768_AES256GCM_SHA384_MLDSA65 = 0x0051"
| "Ciphersuite_u16 MLS_256_MLKEM1024_AES256GCM_SHA384_MLDSA87 = 0x0907"

definition Ciphersuite_try_from :: "u16 \<Rightarrow> (Ciphersuite, TlsCodecError) outcome" where
  "Ciphersuite_try_from v =
     (if v = 0x0001 then Ok MLS_128_DHKEMX25519_AES128GCM_SHA256_Ed25519
      else if v = 0x0002 then Ok MLS_128_DHKEMP256_AES128GCM_SHA256_P256
      else if v = 0x0003 then Ok MLS_128_DHKEMX25519_CHACHA20POLY1305_SHA256_Ed25519
      else if v = 0x0004 then Ok MLS_256_DHKEMX448_AES256GCM_SHA512_Ed448
      else if v = 0x0005 then Ok MLS_256_DHKEMP521_AES256GCM_SHA512_P521
      else if v = 0x0006 then Ok MLS_256_DHKEMX448_CHACHA20POLY1305_SHA512_Ed448
      else if v = 0x0007 then Ok MLS_256_DHKEMP384_AES256GCM_SHA384_P384
      else if v = 0x004D then Ok MLS_256_XWING_CHACHA20POLY1305_SHA256_Ed25519
      else if v = 0x0042 then Ok MLS_192_MLKEM1024_AES256GCM_SHA384_P384
      else if v = 0x0906 then Ok MLS_256_MLKEM1024_AES256GCM_SHA512_MLDSA87
      else if v = 0x004E then Ok MLS_128_MLKEM768X25519_AES256GCM_SHA384_Ed25519
      else if v = 0x004F then Ok MLS_128_MLKEM768X25519_AES128GCM_SHA256_Ed25519
      else if v = 0x0050 then Ok MLS_128_MLKEM768_AES256GCM_SHA384_P256
      else if v = 0x0051 then Ok MLS_192_MLKEM768_AES256GCM_SHA384_MLDSA65
      else if v = 0x0052 then Ok MLS_128_MLKEM768X25519_CHACHA20POLY1305_SHA384_MLDSA44
      else if v = 0x0907 then Ok MLS_256_MLKEM1024_AES256GCM_SHA384_MLDSA87
      else if v = 0xF042 then Ok MLS_128_MLKEM768_AES256GCM_SHA384_Ed25519
      else Err DecodingError)"

fun hash_algorithm :: "Ciphersuite \<Rightarrow> HashType" where
  "hash_algorithm MLS_128_DHKEMX25519_AES128GCM_SHA256_Ed25519 = Sha2_256"
| "hash_algorithm MLS_128_DHKEMP256_AES128GCM_SHA256_P256 = Sha2_256"
| "hash_algorithm MLS_128_DHKEMX25519_CHACHA20POLY1305_SHA256_Ed25519 = Sha2_256"
| "hash_algorithm MLS_256_DHKEMX448_AES256GCM_SHA512_Ed448 = Sha2_512"
| "hash_algorithm MLS_256_DHKEMP521_AES256GCM_SHA512_P521 = Sha2_512"
| "hash_algorithm MLS_256_DHKEMX448_CHACHA20POLY1305_SHA512_Ed448 = Sha2_512"
| "hash_algorithm MLS_256_DHKEMP384_AES256GCM_SHA384_P384 = Sha2_384"
| "hash_algorithm MLS_256_XWING_CHACHA20POLY1305_SHA256_Ed25519 = Sha2_256"
| "hash_algorithm MLS_256_MLKEM1024_AES256GCM_SHA512_MLDSA87 = Sha2_512"
| "hash_algorithm MLS_128_MLKEM768X25519_AES128GCM_SHA256_Ed25519 = Sha2_256"
| "hash_algorithm MLS_128_MLKEM768X25519_AES256GCM_SHA384_Ed25519 = Sha2_384"
| "hash_algorithm MLS_128_MLKEM768_AES256GCM_SHA384_Ed25519 = Sha2_384"
| "hash_algorithm MLS_128_MLKEM768_AES256GCM_SHA384_P256 = Sha2_384"
| "hash_algorithm MLS_192_MLKEM1024_AES256GCM_SHA384_P384 = Sha2_384"
| "hash_algorithm MLS_128_MLKEM768X25519_CHACHA20POLY1305_SHA384_MLDSA44 = Sha2_384"
| "hash_algorithm MLS_192_MLKEM768_AES256GCM_SHA384_MLDSA65 = Sha2_384"
| "hash_algorithm MLS_256_MLKEM1024_AES256GCM_SHA384_MLDSA87 = Sha2_384"

fun signature_algorithm :: "Ciphersuite \<Rightarrow> SignatureScheme" where
  "signature_algorithm MLS_128_DHKEMX25519_AES128GCM_SHA256_Ed25519 = ED25519"
| "signature_algorithm MLS_128_DHKEMP256_AES128GCM_SHA256_P256 = ECDSA_SECP256R1_SHA256"
| "signature_algorithm MLS_128_DHKEMX25519_CHACHA20POLY1305_SHA256_Ed25519 = ED25519"
| "signature_algorithm MLS_256_DHKEMX448_AES256GCM_SHA512_Ed448 = ED448"
| "signature_algorithm MLS_256_DHKEMP521_AES256GCM_SHA512_P521 = ECDSA_SECP521R1_SHA512"
| "signature_algorithm MLS_256_DHKEMX448_CHACHA20POLY1305_SHA512_Ed448 = ED448"
| "signature_algorithm MLS_256_DHKEMP384_AES256GCM_SHA384_P384 = ECDSA_SECP384R1_SHA384"
| "signature_algorithm MLS_256_XWING_CHACHA20POLY1305_SHA256_Ed25519 = ED25519"
| "signature_algorithm MLS_256_MLKEM1024_AES256GCM_SHA512_MLDSA87 = MLDSA87"
| "signature_algorithm MLS_128_MLKEM768X25519_AES128GCM_SHA256_Ed25519 = ED25519"
| "signature_algorithm MLS_128_MLKEM768X25519_AES256GCM_SHA384_Ed25519 = ED25519"
| "signature_algorithm MLS_128_MLKEM768_AES256GCM_SHA384_Ed25519 = ED25519"
| "signature_algorithm MLS_128_MLKEM768_AES256GCM_SHA384_P256 = ECDSA_SECP256R1_SHA256"
| "signature_algorithm MLS_192_MLKEM1024_AES256GCM_SHA384_P384 = ECDSA_SECP384R1_SHA384"
| "signature_algorithm MLS_128_MLKEM768X25519_CHACHA20POLY1305_SHA384_MLDSA44 = MLDSA44"
| "signature_algorithm MLS_192_MLKEM768_AES256GCM_SHA384_MLDSA65 = MLDSA65"
| "signature_algorithm MLS_256_MLKEM1024_AES256GCM_SHA384_MLDSA87 = MLDSA87"

fun aead_algorithm :: "Ciphersuite \<Rightarrow> AeadType" where
  "aead_algorithm MLS_128_DHKEMX25519_AES128GCM_SHA256_Ed25519 = Aes128Gcm"
| "aead_algorithm MLS_128_DHKEMP256_AES128GCM_SHA256_P256 = Aes128Gcm"
| "aead_algorithm MLS_128_DHKEMX25519_CHACHA20POLY1305_SHA256_Ed25519 = ChaCha20Poly1305"
| "aead_algorithm MLS_256_DHKEMX448_AES256GCM_SHA512_Ed448 = Aes256Gcm"
| "aead_algorithm MLS_256_DHKEMP521_AES256GCM_SHA512_P521 = Aes256Gcm"
| "aead_algorithm MLS_256_DHKEMX448_CHACHA20POLY1305_SHA512_Ed448 = ChaCha20Poly1305"
| "aead_algorithm MLS_256_DHKEMP384_AES256GCM_SHA384_P384 = Aes256Gcm"
| "aead_algorithm MLS_256_XWING_CHACHA20POLY1305_SHA256_Ed25519 = ChaCha20Poly1305"
| "aead_algorithm MLS_256_MLKEM1024_AES256GCM_SHA512_MLDSA87 = Aes256Gcm"
| "aead_algorithm MLS_128_MLKEM768X25519_AES128GCM_SHA256_Ed25519 = Aes128Gcm"
| "aead_algorithm MLS_128_MLKEM768X25519_AES256GCM_SHA384_Ed25519 = Aes256Gcm"
| "aead_algorithm MLS_128_MLKEM768_AES256GCM_SHA384_Ed25519 = Aes256Gcm"
| "aead_algorithm MLS_128_MLKEM768_AES256GCM_SHA384_P256 = Aes256Gcm"
| "aead_algorithm MLS_192_MLKEM1024_AES256GCM_SHA384_P384 = Aes256Gcm"
| "aead_algorithm MLS_128_MLKEM768X25519_CHACHA20POLY1305_SHA384_MLDSA44 = ChaCha20Poly1305"
| "aead_algorithm MLS_192_MLKEM768_AES256GCM_SHA384_MLDSA65 = Aes256Gcm"
| "aead_algorithm MLS_256_MLKEM1024_AES256GCM_SHA384_MLDSA87 = Aes256Gcm"

fun hpke_kdf_algorithm :: "Ciphersuite \<Rightarrow> HpkeKdfType" where
  "hpke_kdf_algorithm MLS_128_DHKEMX25519_AES128GCM_SHA256_Ed25519 = HkdfSha256"
| "hpke_kdf_algorithm MLS_128_DHKEMP256_AES128GCM_SHA256_P256 = HkdfSha256"
| "hpke_kdf_algorithm MLS_128_DHKEMX25519_CHACHA20POLY1305_SHA256_Ed25519 = HkdfSha256"
| "hpke_kdf_algorithm MLS_256_DHKEMX448_AES256GCM_SHA512_Ed448 = HkdfSha512"
| "hpke_kdf_algorithm MLS_256_DHKEMP521_AES256GCM_SHA512_P521 = HkdfSha512"
| "hpke_kdf_algorithm MLS_256_DHKEMX448_CHACHA20POLY1305_SHA512_Ed448 = HkdfSha512"
| "hpke_kdf_algorithm MLS_256_DHKEMP384_AES256GCM_SHA384_P384 = HkdfSha384"
| "hpke_kdf_algorithm MLS_256_XWING_CHACHA20POLY1305_SHA256_Ed25519 = HkdfSha256"
| "hpke_kdf_algorithm MLS_256_MLKEM1024_AES256GCM_SHA512_MLDSA87 = HkdfSha512"
| "hpke_kdf_algorithm MLS_128_MLKEM768X25519_AES128GCM_SHA256_Ed25519 = HkdfSha256"
| "hpke_kdf_algorithm MLS_128_MLKEM768X25519_AES256GCM_SHA384_Ed25519 = HkdfSha384"
| "hpke_kdf_algorithm MLS_128_MLKEM768_AES256GCM_SHA384_Ed25519 = HkdfSha384"
| "hpke_kdf_algorithm MLS_128_MLKEM768_AES256GCM_SHA384_P256 = HkdfSha384"
| "hpke_kdf_algorithm MLS_192_MLKEM1024_AES256GCM_SHA384_P384 = HkdfSha384"
| "hpke_kdf_algorithm MLS_128_MLKEM768X25519_CHACHA20POLY1305_SHA384_MLDSA44 = HkdfSha384"
| "hpke_kdf_algorithm MLS_192_MLKEM768_AES256GCM_SHA384_MLDSA65 = HkdfSha384"
| "hpke_kdf_algorithm MLS_256_MLKEM1024_AES256GCM_SHA384_MLDSA87 = HkdfSha384"

fun hpke_kem_algorithm :: "Ciphersuite \<Rightarrow> HpkeKemType" where
  "hpke_kem_algorithm MLS_128_DHKEMX25519_AES128GCM_SHA256_Ed25519 = DhKem25519"
| "hpke_kem_algorithm MLS_128_DHKEMP256_AES128GCM_SHA256_P256 = DhKemP256"
| "hpke_kem_algorithm MLS_128_DHKEMX25519_CHACHA20POLY1305_SHA256_Ed25519 = DhKem25519"
| "hpke_kem_algorithm MLS_256_DHKEMX448_AES256GCM_SHA512_Ed448 = DhKem448"
| "hpke_kem_algorithm MLS_256_DHKEMP521_AES256GCM_SHA512_P521 = DhKemP521"
| "hpke_kem_algorithm MLS_256_DHKEMX448_CHACHA20POLY1305_SHA512_Ed448 = DhKem448"
| "hpke_kem_algorithm MLS_256_DHKEMP384_AES256GCM_SHA384_P384 = DhKemP384"
| "hpke_kem_algorithm MLS_256_XWING_CHACHA20POLY1305_SHA256_Ed25519 = XWingKemDraft6"
| "hpke_kem_algorithm MLS_256_MLKEM1024_AES256GCM_SHA512_MLDSA87 = MlKem1024"
| "hpke_kem_algorithm MLS_128_MLKEM768X25519_AES128GCM_SHA256_Ed25519 = XWingKemDraft6"
| "hpke_kem_algorithm MLS_128_MLKEM768X25519_AES256GCM_SHA384_Ed25519 = XWingKemDraft6"
| "hpke_kem_algorithm MLS_128_MLKEM768_AES256GCM_SHA384_Ed25519 = MlKem768"
| "hpke_kem_algorithm MLS_128_MLKEM768_AES256GCM_SHA384_P256 = MlKem768"
| "hpke_kem_algorithm MLS_192_MLKEM1024_AES256GCM_SHA384_P384 = MlKem1024"
| "hpke_kem_algorithm MLS_128_MLKEM768X25519_CHACHA20POLY1305_SHA384_MLDSA44 = XWingKemDraft6"
| "hpke_kem_algorithm MLS_192_MLKEM768_AES256GCM_SHA384_MLDSA65 = MlKem768"
| "hpke_kem_algorithm MLS_256_MLKEM1024_AES256GCM_SHA384_MLDSA87 = MlKem1024"

fun hpke_aead_algorithm :: "Ciphersuite \<Rightarrow> HpkeAeadType" where
  "hpke_aead_algorithm MLS_128_DHKEMX25519_AES128GCM_SHA256_Ed25519 = AesGcm128"
| "hpke_aead_algorithm MLS_128_DHKEMP256_AES128GCM_SHA256_P256 = AesGcm128"
| "hpke_aead_algorithm MLS_128_DHKEMX25519_CHACHA20POLY1305_SHA256_Ed25519 = HpkeChaCha20Poly1305"
| "hpke_aead_algorithm MLS_256_DHKEMX448_AES256GCM_SHA512_Ed448 = AesGcm256"
| "hpke_aead_algorithm MLS_256_DHKEMP521_AES256GCM_SHA512_P521 = AesGcm256"
| "hpke_aead_algorithm MLS_256_DHKEMX448_CHACHA20POLY1305_SHA512_Ed448 = HpkeChaCha20Poly1305"
| "hpke_aead_algorithm MLS_256_DHKEMP384_AES256GCM_SHA384_P384 = AesGcm256"
| "hpke_aead_algorithm MLS_256_XWING_CHACHA20POLY1305_SHA256_Ed25519 = HpkeChaCha20Poly1305"
| "hpke_aead_algorithm MLS_256_MLKEM1024_AES256GCM_SHA512_MLDSA87 = AesGcm256"
| "hpke_aead_algorithm MLS_128_MLKEM768X25519_AES128GCM_SHA256_Ed25519 = AesGcm128"
| "hpke_aead_algorithm MLS_128_MLKEM768X25519_AES256GCM_SHA384_Ed25519 = AesGcm256"
| "hpke_aead_algorithm MLS_128_MLKEM768_AES256GCM_SHA384_Ed25519 = AesGcm256"
| "hpke_aead_algorithm MLS_128_MLKEM768_AES256GCM_SHA384_P256 = AesGcm256"
| "hpke_aead_algorithm MLS_192_MLKEM1024_AES256GCM_SHA384_P384 = AesGcm256"
| "hpke_aead_algorithm MLS_128_MLKEM768X25519_CHACHA20POLY1305_SHA384_MLDSA44 = HpkeChaCha20Poly1305"
| "hpke_aead_algorithm MLS_192_MLKEM768_AES256GCM_SHA384_MLDSA65 = AesGcm256"
| "hpke_aead_algorithm MLS_256_MLKEM1024_AES256GCM_SHA384_MLDSA87 = AesGcm256"

definition hpke_config :: "Ciphersuite \<Rightarrow> HpkeConfig" where
  "hpke_config c = HpkeConfig (hpke_kem_algorithm c) (hpke_kdf_algorithm c) (hpke_aead_algorithm c)"

definition hash_length :: "Ciphersuite \<Rightarrow> nat" where
  "hash_length c = HashType_size (hash_algorithm c)"

definition aead_key_length :: "Ciphersuite \<Rightarrow> nat" where
  "aead_key_length c = key_size (aead_algorithm c)"

definition aead_nonce_length :: "Ciphersuite \<Rightarrow> nat" where
  "aead_nonce_length c = nonce_size (aead_algorithm c)"

text \<open>A ciphersuite value off the wire, which may be unknown.\<close>

datatype VerifiableCiphersuite = VerifiableCiphersuite (VerifiableCiphersuite_value: u16)

definition VerifiableCiphersuite_is_grease :: "VerifiableCiphersuite \<Rightarrow> bool" where
  "VerifiableCiphersuite_is_grease v = is_grease_value (VerifiableCiphersuite_value v)"

definition VerifiableCiphersuite_from :: "Ciphersuite \<Rightarrow> VerifiableCiphersuite" where
  "VerifiableCiphersuite_from c = VerifiableCiphersuite (Ciphersuite_u16 c)"

definition Ciphersuite_try_from_verifiable ::
    "VerifiableCiphersuite \<Rightarrow> (Ciphersuite, TlsCodecError) outcome" where
  "Ciphersuite_try_from_verifiable v = Ciphersuite_try_from (VerifiableCiphersuite_value v)"

section \<open>Sizes\<close>

lemma nonce_size_12 [simp]: "nonce_size a = 12"
  by (cases a) simp_all

lemma aead_nonce_length_12 [simp]: "aead_nonce_length c = 12"
  by (simp add: aead_nonce_length_def)

lemma hash_length_bounds: "32 \<le> hash_length c \<and> hash_length c \<le> 64"
  by (cases "hash_algorithm c") (simp_all add: hash_length_def)

lemma aead_key_length_bounds: "16 \<le> aead_key_length c \<and> aead_key_length c \<le> 32"
  by (cases "aead_algorithm c") (simp_all add: aead_key_length_def)

section \<open>Properties\<close>

text \<open>The AEAD and the hash that an HPKE algorithm identifier stands for.\<close>

fun hpke_aead_of :: "AeadType \<Rightarrow> HpkeAeadType" where
  "hpke_aead_of Aes128Gcm = AesGcm128"
| "hpke_aead_of Aes256Gcm = AesGcm256"
| "hpke_aead_of ChaCha20Poly1305 = HpkeChaCha20Poly1305"

fun hpke_kdf_of :: "HashType \<Rightarrow> HpkeKdfType" where
  "hpke_kdf_of Sha2_256 = HkdfSha256"
| "hpke_kdf_of Sha2_384 = HkdfSha384"
| "hpke_kdf_of Sha2_512 = HkdfSha512"

text \<open>
  The code points of ciphersuites and signature schemes decode to exactly the value that
  encodes to them, every other number is refused, and no ciphersuite has a GREASE code point.
\<close>

theorem code_points_roundtrip:
  "(Ciphersuite_try_from v = Ok c \<longleftrightarrow> v = Ciphersuite_u16 c) \<and>
   (SignatureScheme_try_from w = Ok sch \<longleftrightarrow> w = SignatureScheme_u16 sch) \<and>
   Ciphersuite_try_from_verifiable (VerifiableCiphersuite_from c) = Ok c \<and>
   \<not> VerifiableCiphersuite_is_grease (VerifiableCiphersuite_from c)"
proof (intro conjI)
  show "Ciphersuite_try_from v = Ok c \<longleftrightarrow> v = Ciphersuite_u16 c"
    by (cases c) (auto simp: Ciphersuite_try_from_def split: if_split_asm)
  show "SignatureScheme_try_from w = Ok sch \<longleftrightarrow> w = SignatureScheme_u16 sch"
    by (cases sch) (auto simp: SignatureScheme_try_from_def split: if_split_asm)
  show "Ciphersuite_try_from_verifiable (VerifiableCiphersuite_from c) = Ok c"
    by (cases c) (simp_all add: Ciphersuite_try_from_verifiable_def VerifiableCiphersuite_from_def
        Ciphersuite_try_from_def)
  show "\<not> VerifiableCiphersuite_is_grease (VerifiableCiphersuite_from c)"
    by (cases c) (simp_all add: VerifiableCiphersuite_is_grease_def VerifiableCiphersuite_from_def
        is_grease_value_def)
qed

text \<open> The tables of a ciphersuite agree with each other: HPKE uses the AEAD and the hash of the
  ciphersuite, and the GREASE test is membership in the list of GREASE values, each of which has two
  equal bytes with low nibble \<open>A\<close>.
\<close>

theorem ciphersuite_tables_agree:
  "hpke_config c = HpkeConfig (hpke_kem_algorithm c) (hpke_kdf_of (hash_algorithm c))
     (hpke_aead_of (aead_algorithm c)) \<and>
   (is_grease_value v \<longleftrightarrow> v \<in> set GREASE_VALUES) \<and>
   set GREASE_VALUES = {x. \<exists>n < 15. x = (16 * n + 0xA) * 256 + (16 * n + 0xA)}"
proof (intro conjI)
  show "hpke_config c = HpkeConfig (hpke_kem_algorithm c) (hpke_kdf_of (hash_algorithm c))
     (hpke_aead_of (aead_algorithm c))"
    by (cases c) (simp_all add: hpke_config_def)
  show "is_grease_value v \<longleftrightarrow> v \<in> set GREASE_VALUES"
    by (simp add: is_grease_value_def GREASE_VALUES_def)
  have "{x. \<exists>n < 15. x = (16 * n + 0xA) * 256 + (16 * n + 0xA)} =
      set (map (\<lambda>n::nat. (16 * n + 0xA) * 256 + (16 * n + 0xA)) [0..<15])" by (auto simp: image_iff)
  also have "\<dots> = set GREASE_VALUES" by (simp add: GREASE_VALUES_def upt_rec)
  finally show "set GREASE_VALUES = {x. \<exists>n < 15. x = (16 * n + 0xA) * 256 + (16 * n + 0xA)}" by simp
qed

end
