(* ===== verification/Secrets.thy ===== *)
theory Secrets
  imports Ciphersuite TreeMath
begin

text \<open>
  Secrets, keys, nonces and reuse guards (\<open>ciphersuite/secret.rs\<close>, \<open>kdf_label.rs\<close>,
  \<open>aead.rs\<close>, \<open>mac.rs\<close>, \<open>hash_ref.rs\<close>, \<open>reuse_guard.rs\<close>,
  \<open>mod.rs\<close>) over the cryptographic operations of the \<open>OpenMlsCrypto\<close> trait.

  The implementations of that trait and the TLS codec are other crates: a record of functions
  stands for them, and what the code relies on is stated by named predicates on that record.
\<close>

section \<open>Bytes\<close>

type_synonym bytes = "8 word list"

text \<open>\<open>str::as_bytes\<close> on the ASCII labels of the code.\<close>

definition str_bytes :: "string \<Rightarrow> bytes" where
  "str_bytes s = map of_char s"

text \<open>\<open>u32::to_be_bytes\<close> and \<open>u32::from_be_bytes\<close>.\<close>

definition to_be_bytes :: "u32 \<Rightarrow> bytes" where
  "to_be_bytes n = map (\<lambda>k. of_nat (n div 2 ^ k)) [24, 16, 8, 0]"

definition from_be_bytes :: "bytes \<Rightarrow> u32" where
  "from_be_bytes bs = foldl (\<lambda>acc b. acc * 256 + unat b) 0 bs"

definition equal_ct :: "bytes \<Rightarrow> bytes \<Rightarrow> bool" where
  "equal_ct a b =
     (if length a \<noteq> length b then False
      else foldl (\<lambda>diff (l, r). or diff (xor l r)) 0 (zip a b) = 0)"

lemma length_to_be_bytes [simp]: "length (to_be_bytes n) = 4"
  by (simp add: to_be_bytes_def)

lemma unat_byte: "unat (of_nat n :: 8 word) = n mod 256"
  by (simp add: unat_of_nat)

lemma from_to_be_bytes [simp]:
  assumes "n < 2 ^ 32"
  shows "from_be_bytes (to_be_bytes n) = n"
proof -
  have step: "m div 256 * 256 + m mod 256 = m" for m :: nat by simp
  have "n div 16777216 mod 256 = n div 16777216" using assms by (simp add: less_mult_imp_div_less)
  moreover have "n div 16777216 * 256 + n div 65536 mod 256 = n div 65536"
    using step [of "n div 65536"] by (simp add: div_mult2_eq [symmetric])
  moreover have "n div 65536 * 256 + n div 256 mod 256 = n div 256"
    using step [of "n div 256"] by (simp add: div_mult2_eq [symmetric])
  ultimately show ?thesis by (simp add: from_be_bytes_def to_be_bytes_def unat_byte)
qed

lemma to_be_bytes_inj: "m < 2 ^ 32 \<Longrightarrow> n < 2 ^ 32 \<Longrightarrow> to_be_bytes m = to_be_bytes n \<longleftrightarrow> m = n"
  by (metis from_to_be_bytes)

lemma from_be_bytes_bound: "from_be_bytes bs < 256 ^ length bs"
proof (induction bs rule: rev_induct)
  case (snoc b bs)
  have "unat b < 256" using unsigned_less [of b] by simp
  with snoc show ?case by (simp add: from_be_bytes_def)
qed (simp add: from_be_bytes_def)

section \<open>The provider\<close>

record KdfLabel =
  kl_length :: u16
  kl_label :: bytes
  kl_context :: bytes

record HashReferenceInput =
  hri_label :: bytes
  hri_value :: bytes

text \<open>The trait \<open>OpenMlsCrypto\<close>, and the serialisations that the codec library derives.\<close>

record OpenMlsCrypto =
  crypto_hkdf_extract :: "HashType \<Rightarrow> bytes \<Rightarrow> bytes \<Rightarrow> (bytes, CryptoError) outcome"
  crypto_hmac :: "HashType \<Rightarrow> bytes \<Rightarrow> bytes \<Rightarrow> (bytes, CryptoError) outcome"
  crypto_hkdf_expand :: "HashType \<Rightarrow> bytes \<Rightarrow> bytes \<Rightarrow> nat \<Rightarrow> (bytes, CryptoError) outcome"
  crypto_hash :: "HashType \<Rightarrow> bytes \<Rightarrow> (bytes, CryptoError) outcome"
  crypto_aead_encrypt :: "AeadType \<Rightarrow> bytes \<Rightarrow> bytes \<Rightarrow> bytes \<Rightarrow> bytes \<Rightarrow> (bytes, CryptoError) outcome"
  crypto_aead_decrypt :: "AeadType \<Rightarrow> bytes \<Rightarrow> bytes \<Rightarrow> bytes \<Rightarrow> bytes \<Rightarrow> (bytes, CryptoError) outcome"
  crypto_derive_hpke_keypair :: "HpkeConfig \<Rightarrow> bytes \<Rightarrow> (bytes \<times> bytes, CryptoError) outcome"
  crypto_ff1_aes128_encrypt :: "bytes \<Rightarrow> u32 \<Rightarrow> (u32, CryptoError) outcome"

record provider = OpenMlsCrypto +
  tls_KdfLabel :: "KdfLabel \<Rightarrow> (bytes, TlsCodecError) outcome"
  tls_HashReferenceInput :: "HashReferenceInput \<Rightarrow> (bytes, TlsCodecError) outcome"

text \<open>The documented length of what HKDF-Expand returns, and that the operations return at all.\<close>

definition expand_exact :: "('a OpenMlsCrypto_scheme) \<Rightarrow> bool" where
  "expand_exact p \<longleftrightarrow> (\<forall>h prk info n k. crypto_hkdf_expand p h prk info n = Ok k \<longrightarrow> length k = n)"

definition expand_returns :: "('a OpenMlsCrypto_scheme) \<Rightarrow> bool" where
  "expand_returns p \<longleftrightarrow> (\<forall>h prk info n. crypto_hkdf_expand p h prk info n \<noteq> Panic)"

definition label_returns :: "('a provider_scheme) \<Rightarrow> bool" where
  "label_returns p \<longleftrightarrow> (\<forall>l. tls_KdfLabel p l \<noteq> Panic)"

text \<open>HKDF-Expand and the serialisation of its label succeed: the ciphersuite is supported.\<close>

definition expand_total :: "('a provider_scheme) \<Rightarrow> bool" where
  "expand_total p \<longleftrightarrow>
     (\<forall>h prk info n. 0 < n \<longrightarrow> (\<exists>k. crypto_hkdf_expand p h prk info n = Ok k \<and> length k = n)) \<and>
     (\<forall>l. \<exists>b. tls_KdfLabel p l = Ok b)"

section \<open>Secrets\<close>

datatype Secret = Secret (Secret_as_slice: bytes)

definition Secret_eq :: "Secret \<Rightarrow> Secret \<Rightarrow> bool" where
  "Secret_eq s t = equal_ct (Secret_as_slice s) (Secret_as_slice t)"

definition Secret_random ::
    "Ciphersuite \<Rightarrow> (nat \<Rightarrow> (bytes, 'r) outcome) \<Rightarrow> (Secret, CryptoError) outcome" where
  "Secret_random c random_vec =
     outcome_bind (map_err (\<lambda>_. InsufficientRandomness) (random_vec (hash_length c))) (\<lambda>v. Ok (Secret v))"

definition Secret_zero :: "Ciphersuite \<Rightarrow> Secret" where
  "Secret_zero c = Secret (replicate (hash_length c) 0)"

definition Secret_from_slice :: "bytes \<Rightarrow> Secret" where
  "Secret_from_slice b = Secret b"

definition Secret_hkdf_extract ::
    "Secret \<Rightarrow> 'a provider_scheme \<Rightarrow> Ciphersuite \<Rightarrow> Secret option \<Rightarrow> (Secret, CryptoError) outcome" where
  "Secret_hkdf_extract s p c ikm_option =
     (let ikm = (case ikm_option of Some i \<Rightarrow> i | None \<Rightarrow> Secret_zero c) in
      outcome_bind (crypto_hkdf_extract p (hash_algorithm c) (Secret_as_slice s) (Secret_as_slice ikm))
        (\<lambda>v. Ok (Secret v)))"

definition Secret_hmac ::
    "Secret \<Rightarrow> 'a provider_scheme \<Rightarrow> Ciphersuite \<Rightarrow> Secret \<Rightarrow> (Secret, CryptoError) outcome" where
  "Secret_hmac s p c message =
     outcome_bind (crypto_hmac p (hash_algorithm c) (Secret_as_slice s) (Secret_as_slice message))
       (\<lambda>v. Ok (Secret v))"

definition Secret_hkdf_expand ::
    "Secret \<Rightarrow> 'a provider_scheme \<Rightarrow> Ciphersuite \<Rightarrow> bytes \<Rightarrow> nat \<Rightarrow> (Secret, CryptoError) outcome" where
  "Secret_hkdf_expand s p c info okm_len =
     outcome_bind
       (map_err (\<lambda>_. CryptoLibraryError)
         (crypto_hkdf_expand p (hash_algorithm c) (Secret_as_slice s) info okm_len))
       (\<lambda>key. if key = [] then Err InvalidLength else Ok (Secret key))"

definition KdfLabel_serialized_label ::
    "'a provider_scheme \<Rightarrow> bytes \<Rightarrow> string \<Rightarrow> nat \<Rightarrow> (bytes, CryptoError) outcome" where
  "KdfLabel_serialized_label p context label n =
     (if n > 65535 then Panic
      else map_err (\<lambda>_. KdfSerializationError)
        (tls_KdfLabel p \<lparr>kl_length = n, kl_label = str_bytes label, kl_context = context\<rparr>))"

definition Secret_kdf_expand_label ::
    "Secret \<Rightarrow> 'a provider_scheme \<Rightarrow> Ciphersuite \<Rightarrow> string \<Rightarrow> bytes \<Rightarrow> nat \<Rightarrow> (Secret, CryptoError) outcome" where
  "Secret_kdf_expand_label s p c label context n =
     (let full_label = ''MLS 1.0 '' @ label in
      outcome_bind (KdfLabel_serialized_label p context full_label n)
        (\<lambda>info. Secret_hkdf_expand s p c info n))"

definition Secret_derive_secret ::
    "Secret \<Rightarrow> 'a provider_scheme \<Rightarrow> Ciphersuite \<Rightarrow> string \<Rightarrow> (Secret, CryptoError) outcome" where
  "Secret_derive_secret s p c label = Secret_kdf_expand_label s p c label [] (hash_length c)"

section \<open>MACs and hash references\<close>

definition Mac_new ::
    "'a provider_scheme \<Rightarrow> Ciphersuite \<Rightarrow> Secret \<Rightarrow> bytes \<Rightarrow> (bytes, CryptoError) outcome" where
  "Mac_new p c key message =
     outcome_bind (Secret_hmac key p c (Secret_from_slice message)) (\<lambda>m. Ok (Secret_as_slice m))"

definition Mac_eq :: "bytes \<Rightarrow> bytes \<Rightarrow> bool" where
  "Mac_eq m n = equal_ct m n"

definition HashReference_new ::
    "bytes \<Rightarrow> Ciphersuite \<Rightarrow> 'a provider_scheme \<Rightarrow> bytes \<Rightarrow> (bytes, CryptoError) outcome" where
  "HashReference_new value c p label =
     outcome_bind
       (map_err (\<lambda>_. TlsSerializationError)
         (tls_HashReferenceInput p \<lparr>hri_label = label, hri_value = value\<rparr>))
       (\<lambda>payload. crypto_hash p (hash_algorithm c) payload)"

definition make_proposal_ref ::
    "bytes \<Rightarrow> Ciphersuite \<Rightarrow> 'a provider_scheme \<Rightarrow> (bytes, CryptoError) outcome" where
  "make_proposal_ref value c p = HashReference_new value c p (str_bytes ''MLS 1.0 Proposal Reference'')"

section \<open>AEAD keys, nonces and the reuse guard\<close>

definition NONCE_BYTES :: nat where
  "NONCE_BYTES = 12"

definition REUSE_GUARD_BYTES :: nat where
  "REUSE_GUARD_BYTES = 4"

record AeadKey =
  aead_mode :: AeadType
  aead_value :: bytes

datatype AeadNonce = AeadNonce (AeadNonce_bytes: bytes)

datatype ReuseGuard = ReuseGuard (ReuseGuard_value: bytes)

definition AeadKey_from_secret :: "Secret \<Rightarrow> Ciphersuite \<Rightarrow> AeadKey" where
  "AeadKey_from_secret s c = \<lparr>aead_mode = aead_algorithm c, aead_value = Secret_as_slice s\<rparr>"

definition AeadKey_aead_seal ::
    "AeadKey \<Rightarrow> 'a provider_scheme \<Rightarrow> bytes \<Rightarrow> bytes \<Rightarrow> AeadNonce \<Rightarrow> (bytes, CryptoError) outcome" where
  "AeadKey_aead_seal k p msg aad nonce =
     map_err (\<lambda>_. CryptoLibraryError)
       (crypto_aead_encrypt p (aead_mode k) (aead_value k) msg (AeadNonce_bytes nonce) aad)"

definition AeadKey_aead_open ::
    "AeadKey \<Rightarrow> 'a provider_scheme \<Rightarrow> bytes \<Rightarrow> bytes \<Rightarrow> AeadNonce \<Rightarrow> (bytes, CryptoError) outcome" where
  "AeadKey_aead_open k p ciphertext aad nonce =
     map_err (\<lambda>_. AeadDecryptionError)
       (crypto_aead_decrypt p (aead_mode k) (aead_value k) ciphertext (AeadNonce_bytes nonce) aad)"

text \<open>\<open>clone_from_slice\<close> panics when the lengths differ.\<close>

definition AeadNonce_from_secret :: "Secret \<Rightarrow> AeadNonce option" where
  "AeadNonce_from_secret s =
     (if length (Secret_as_slice s) = NONCE_BYTES then Some (AeadNonce (Secret_as_slice s)) else None)"

text \<open>The nonce has \<open>NONCE_BYTES\<close> and the guard \<open>REUSE_GUARD_BYTES\<close> bytes by type.\<close>

definition xor_with_reuse_guard :: "AeadNonce \<Rightarrow> ReuseGuard \<Rightarrow> AeadNonce" where
  "xor_with_reuse_guard n g =
     AeadNonce (foldl (\<lambda>bs i. bs[i := xor (bs ! i) (ReuseGuard_value g ! i)])
       (AeadNonce_bytes n) [0..<REUSE_GUARD_BYTES])"

text \<open>
  The guard of an emulator of a virtual client. \<open>reuse_guard_secret\<close> is the secret inside
  \<open>ReuseGuardSecret\<close>; the results of successive \<open>random_array\<close> calls are a
  list, and the loop has no result (\<open>None\<close>) as long as every draw of the list is rejected.
  \<open>debug\<close> says whether the debug assertions are compiled in; \<open>x_u64 as u32\<close> truncates.
\<close>

datatype ReuseGuardDerivationError =
    VcCryptoError CryptoError | VcHashOutputLengthMismatch nat nat | GuardLibraryError string

definition PRP_KEY_LEN :: nat where
  "PRP_KEY_LEN = 16"

definition derive_prp_key ::
    "Secret \<Rightarrow> 'a provider_scheme \<Rightarrow> Ciphersuite \<Rightarrow> bytes \<Rightarrow> (bytes, ReuseGuardDerivationError) outcome" where
  "derive_prp_key reuse_guard_secret p c key_schedule_nonce =
     outcome_bind
       (map_err VcCryptoError
         (Secret_kdf_expand_label reuse_guard_secret p c ''reuse guard'' key_schedule_nonce PRP_KEY_LEN))
       (\<lambda>key. if length (Secret_as_slice key) = PRP_KEY_LEN then Ok (Secret_as_slice key)
          else Err (VcHashOutputLengthMismatch (length (Secret_as_slice key)) PRP_KEY_LEN))"

fun sample_below ::
    "nat \<Rightarrow> (bytes, 'r) outcome list \<Rightarrow> (nat, ReuseGuardDerivationError) outcome option" where
  "sample_below full [] = None"
| "sample_below full (draw # draws) =
     (case draw of
        Err _ \<Rightarrow> Some (Err (GuardLibraryError ''rand failure''))
      | Panic \<Rightarrow> Some Panic
      | Ok bs \<Rightarrow>
          let candidate = from_be_bytes bs in
          if candidate < full then Some (Ok candidate) else sample_below full draws)"

definition permute_guard ::
    "'a provider_scheme \<Rightarrow> Secret \<Rightarrow> Ciphersuite \<Rightarrow> AeadNonce \<Rightarrow> u32 \<Rightarrow>
     (ReuseGuard, ReuseGuardDerivationError) outcome" where
  "permute_guard p reuse_guard_secret c ratchet_nonce x =
     outcome_bind (derive_prp_key reuse_guard_secret p c (AeadNonce_bytes ratchet_nonce)) (\<lambda>prp_key.
       outcome_bind
         (map_err (\<lambda>_. GuardLibraryError ''FF1 encrypt failed'') (crypto_ff1_aes128_encrypt p prp_key x))
         (\<lambda>permuted. Ok (ReuseGuard (to_be_bytes permuted))))"

definition ReuseGuard_for_emulator_sender ::
    "bool \<Rightarrow> 'a provider_scheme \<Rightarrow> (bytes, 'r) outcome list \<Rightarrow> Secret \<Rightarrow> Ciphersuite \<Rightarrow> AeadNonce \<Rightarrow>
     LeafNodeIndex \<Rightarrow> TreeSize \<Rightarrow> (ReuseGuard, ReuseGuardDerivationError) outcome option" where
  "ReuseGuard_for_emulator_sender debug p draws reuse_guard_secret c ratchet_nonce leaf_index_e group_size =
     (let n_e = TreeSize_leaf_count group_size in
      if n_e = 0 then Some (Err (GuardLibraryError ''emulation_group_size is zero''))
      else if leaf_index_e \<ge> n_e then
        Some (Err (GuardLibraryError ''emulation_leaf_index is out of range for the emulation group''))
      else
        let full = 2 ^ 32 div n_e * n_e in
        if debug \<and> \<not> full > 0 then Some Panic
        else map_option (\<lambda>res. outcome_bind res (\<lambda>r.
          let x = r div n_e * n_e + leaf_index_e in
          if debug \<and> (\<not> (x < 2 ^ 32) \<or> x mod n_e \<noteq> leaf_index_e) then Panic
          else permute_guard p reuse_guard_secret c ratchet_nonce (x mod 2 ^ 32))) (sample_below full draws))"

section \<open>Facts about secrets\<close>

lemma foldl_or_xor_eq_0:
  fixes diff :: "8 word"
  shows "foldl (\<lambda>diff (l, r). or diff (xor l r)) diff zs = 0 \<longleftrightarrow> diff = 0 \<and> (\<forall>(l, r) \<in> set zs. l = r)"
proof (induction zs arbitrary: diff)
  case (Cons z zs)
  have "or diff (xor l r) = 0 \<longleftrightarrow> diff = 0 \<and> l = r" for l r :: "8 word"
    by (auto simp: bit_eq_iff bit_or_iff bit_xor_iff)
  then show ?case by (cases z) (auto simp: Cons)
qed simp

lemma equal_ct_eq: "equal_ct a b \<longleftrightarrow> a = b"
proof (cases "length a = length b")
  case True
  then show ?thesis
    by (auto simp: equal_ct_def foldl_or_xor_eq_0 set_zip list_eq_iff_nth_eq)
qed (auto simp: equal_ct_def)

lemma foldl_update_upt:
  assumes "k \<le> length xs"
  shows "foldl (\<lambda>bs i. bs[i := f i (bs ! i)]) xs [0..<k] =
    map (\<lambda>i. if i < k then f i (xs ! i) else xs ! i) [0..<length xs]"
  using assms
proof (induction k)
  case (Suc k)
  then show ?case by (intro nth_equalityI) (auto simp: nth_list_update less_Suc_eq)
qed (simp add: map_nth)

lemma xor_with_reuse_guard_bytes:
  assumes "4 \<le> length (AeadNonce_bytes n)"
  shows "AeadNonce_bytes (xor_with_reuse_guard n g) =
    map (\<lambda>i. if i < 4 then xor (AeadNonce_bytes n ! i) (ReuseGuard_value g ! i) else AeadNonce_bytes n ! i)
      [0..<length (AeadNonce_bytes n)]"
  using foldl_update_upt [of 4 "AeadNonce_bytes n" "\<lambda>i b. xor b (ReuseGuard_value g ! i)"] assms
  by (simp add: xor_with_reuse_guard_def REUSE_GUARD_BYTES_def)

lemma Secret_hkdf_expand_length:
  "expand_exact p \<Longrightarrow> Secret_hkdf_expand s p c info n = Ok k \<Longrightarrow> length (Secret_as_slice k) = n"
  by (auto simp: Secret_hkdf_expand_def outcome_bind_Ok_iff expand_exact_def split: if_splits)

lemma Secret_kdf_expand_label_length:
  "expand_exact p \<Longrightarrow> Secret_kdf_expand_label s p c label context n = Ok k \<Longrightarrow>
   length (Secret_as_slice k) = n"
  by (auto simp: Secret_kdf_expand_label_def outcome_bind_Ok_iff Secret_hkdf_expand_length)

lemma expand_total_Ok:
  assumes "expand_total p" "0 < n" "n \<le> 65535"
  shows "\<exists>k. Secret_kdf_expand_label s p c label context n = Ok k \<and> length (Secret_as_slice k) = n"
proof -
  obtain info where i: "tls_KdfLabel p \<lparr>kl_length = n, kl_label = str_bytes (''MLS 1.0 '' @ label),
      kl_context = context\<rparr> = Ok info"
    using assms(1) unfolding expand_total_def by blast
  obtain k where "crypto_hkdf_expand p (hash_algorithm c) (Secret_as_slice s) info n = Ok k" "length k = n"
    using assms(1,2) unfolding expand_total_def by blast
  with i assms show ?thesis
    by (auto simp: Secret_kdf_expand_label_def KdfLabel_serialized_label_def Secret_hkdf_expand_def)
qed

lemma kdf_expand_label_not_Panic:
  assumes "expand_returns p" "label_returns p" "n \<le> 65535"
  shows "Secret_kdf_expand_label s p c label context n \<noteq> Panic"
  using assms by (auto simp: Secret_kdf_expand_label_def KdfLabel_serialized_label_def
      outcome_bind_Panic_iff Secret_hkdf_expand_def expand_returns_def label_returns_def)

section \<open>A provider for examples\<close>

text \<open>A provider that returns zeros, and permutes nothing.\<close>

abbreviation suite1 :: Ciphersuite where
  "suite1 \<equiv> MLS_128_DHKEMX25519_AES128GCM_SHA256_Ed25519"

definition zero_provider :: provider where
  "zero_provider =
     \<lparr>crypto_hkdf_extract = (\<lambda>h salt ikm. Ok (replicate (HashType_size h) 0)),
      crypto_hmac = (\<lambda>h key m. Ok (replicate (HashType_size h) 0)),
      crypto_hkdf_expand = (\<lambda>h prk info n. Ok (replicate n 0)),
      crypto_hash = (\<lambda>h data. Ok (replicate (HashType_size h) 0)),
      crypto_aead_encrypt = (\<lambda>alg key data nonce aad. Ok data),
      crypto_aead_decrypt = (\<lambda>alg key data nonce aad. Ok data),
      crypto_derive_hpke_keypair = (\<lambda>cfg ikm. Ok (ikm, ikm)),
      crypto_ff1_aes128_encrypt = (\<lambda>key x. Ok x),
      tls_KdfLabel = (\<lambda>l. Ok (kl_label l @ kl_context l)),
      tls_HashReferenceInput = (\<lambda>i. Ok (hri_label i @ hri_value i))\<rparr>"

lemma zero_provider_laws [simp]:
  "expand_exact zero_provider" "expand_returns zero_provider" "label_returns zero_provider"
  "expand_total zero_provider"
  by (simp_all add: expand_exact_def expand_returns_def label_returns_def expand_total_def
      zero_provider_def)

section \<open>Reuse guards\<close>

text \<open>FF1 permutes the 32-bit numbers: it has an inverse under the same key.\<close>

definition ff1_permutes :: "'a OpenMlsCrypto_scheme \<Rightarrow> bool" where
  "ff1_permutes p \<longleftrightarrow> (\<forall>key x y z. crypto_ff1_aes128_encrypt p key x = Ok z \<longrightarrow> x < 2 ^ 32 \<longrightarrow>
     z < 2 ^ 32 \<and> (crypto_ff1_aes128_encrypt p key y = Ok z \<longrightarrow> y < 2 ^ 32 \<longrightarrow> x = y))"

lemma sample_below_less: "sample_below full draws = Some (Ok r) \<Longrightarrow> r < full"
  by (induction draws) (auto simp: Let_def split: outcome.splits if_splits)

lemma permute_guard_inj:
  assumes "ff1_permutes p" "permute_guard p s c n x = Ok g" "permute_guard p s c n y = Ok g"
    and "x < 2 ^ 32" "y < 2 ^ 32"
  shows "x = y"
proof -
  from assms(2,3) obtain key u v where
    "crypto_ff1_aes128_encrypt p key x = Ok u" "crypto_ff1_aes128_encrypt p key y = Ok v"
    "to_be_bytes u = to_be_bytes v"
    by (auto simp: permute_guard_def outcome_bind_Ok_iff)
  moreover from this have "u < 2 ^ 32" "v < 2 ^ 32"
    using assms(1,4,5) unfolding ff1_permutes_def by blast+
  ultimately show ?thesis
    using assms(1,4,5) to_be_bytes_inj unfolding ff1_permutes_def by metis
qed

text \<open>The number that is permuted: the leaf's residue, and in range, so that neither assertion fails.\<close>

lemma guard_position:
  assumes "r < 2 ^ 32 div n * n" "i < n"
  shows "r div n * n + i < (2 ^ 32 :: nat)" "(r div n * n + i) mod n = i"
proof -
  have "r div n < 2 ^ 32 div n" using assms(1) by (rule less_mult_imp_div_less)
  then have "Suc (r div n) * n \<le> 2 ^ 32 div n * n" by (intro mult_le_mono1) simp
  also have "\<dots> \<le> 2 ^ 32" by (rule div_times_less_eq_dividend)
  finally show "r div n * n + i < 2 ^ 32" using assms(2) by simp
  show "(r div n * n + i) mod n = i" using assms(2) by simp
qed

lemma for_emulator_sender_Ok:
  assumes "ReuseGuard_for_emulator_sender debug p draws s c n i sz = Some (Ok g)"
  shows "\<exists>x. x < 2 ^ 32 \<and> x mod TreeSize_leaf_count sz = i \<and> permute_guard p s c n x = Ok g"
proof -
  let ?n = "TreeSize_leaf_count sz"
  from assms obtain r where i: "i < ?n" and r: "sample_below (2 ^ 32 div ?n * ?n) draws = Some (Ok r)"
    and g: "permute_guard p s c n ((r div ?n * ?n + i) mod 2 ^ 32) = Ok g"
    unfolding ReuseGuard_for_emulator_sender_def
    by (auto simp: Let_def outcome_bind_Ok_iff not_le split: if_splits)
  note pos = guard_position [OF sample_below_less [OF r] i]
  then show ?thesis using g by (intro exI [of _ "r div ?n * ?n + i"]) simp
qed

text \<open>For a full tree the number of leaves divides \<open>2 ^ 32\<close>: no draw is rejected.\<close>

lemma full_range:
  assumes "d < 30"
  shows "2 ^ 32 div (2 ^ d) * 2 ^ d = (2 ^ 32 :: nat)"
proof -
  have "(2::nat) ^ d dvd 2 ^ 32" by (rule le_imp_power_dvd) (use assms in simp)
  then show ?thesis by simp
qed

lemma for_emulator_sender_first_draw:
  assumes "full_size sz" "i < TreeSize_leaf_count sz" "length bs = 4"
  shows "\<exists>x. x < 2 ^ 32 \<and> x mod TreeSize_leaf_count sz = i \<and>
    ReuseGuard_for_emulator_sender debug p (Ok bs # draws) s c n i sz = Some (permute_guard p s c n x)"
proof -
  obtain d where d: "d < 30" "sz = depth_size d" using assms(1) by (rule full_sizeE)
  have r: "from_be_bytes bs < 2 ^ 32" using from_be_bytes_bound [of bs] assms(3) by simp
  have pos: "from_be_bytes bs div 2 ^ d * 2 ^ d + i < 2 ^ 32" "(from_be_bytes bs div 2 ^ d * 2 ^ d + i) mod 2 ^ d = i"
    using guard_position [of "from_be_bytes bs" "2 ^ d" i] r assms(2) d full_range [OF d(1)] by simp_all
  show ?thesis
    using assms(2) d pos r full_range [OF d(1)]
    by (intro exI [of _ "from_be_bytes bs div 2 ^ d * 2 ^ d + i"])
      (simp add: ReuseGuard_for_emulator_sender_def Let_def)
qed

section \<open>Properties\<close>

text \<open> The constant-time comparison of secrets and MACs, which folds the differences of all
  bytes together, decides equality.
\<close>

theorem equal_ct_decides:
  "(equal_ct a b \<longleftrightarrow> a = b) \<and> (Secret_eq s t \<longleftrightarrow> s = t) \<and> (Mac_eq m n \<longleftrightarrow> m = n)"
  by (cases s; cases t) (simp add: equal_ct_eq Secret_eq_def Mac_eq_def)

text \<open>
  Applying a reuse guard to a nonce twice restores the nonce, the bytes after the guard's
  four stay as they are, and different guards give different nonces.
\<close>

theorem reuse_guard_xor:
  assumes "length (AeadNonce_bytes n) = NONCE_BYTES"
    and "length (ReuseGuard_value g) = REUSE_GUARD_BYTES" "length (ReuseGuard_value h) = REUSE_GUARD_BYTES"
  shows "xor_with_reuse_guard (xor_with_reuse_guard n g) g = n \<and>
    drop REUSE_GUARD_BYTES (AeadNonce_bytes (xor_with_reuse_guard n g)) =
      drop REUSE_GUARD_BYTES (AeadNonce_bytes n) \<and>
    (xor_with_reuse_guard n g = xor_with_reuse_guard n h \<longleftrightarrow> g = h)"
proof -
  let ?N = "AeadNonce_bytes n" and ?G = "ReuseGuard_value g" and ?H = "ReuseGuard_value h"
  have len: "length ?N = 12" "length ?G = 4" "length ?H = 4"
    using assms by (simp_all add: NONCE_BYTES_def REUSE_GUARD_BYTES_def)
  note bytes = xor_with_reuse_guard_bytes [of n]
  have xx: "xor (xor a b) b = a" for a b :: "8 word" by (simp add: xor.assoc)
  have xl: "xor a (xor a b) = b" for a b :: "8 word" by (simp only: xor.assoc [symmetric] xor_self_eq) simp
  have cancel: "b = c" if "xor a b = xor a c" for a b c :: "8 word"
    using arg_cong [OF that, of "xor a"] by (simp only: xl)
  have "AeadNonce_bytes (xor_with_reuse_guard (xor_with_reuse_guard n g) g) = ?N"
    using len bytes [of g] xor_with_reuse_guard_bytes [of "xor_with_reuse_guard n g" g]
    by (intro nth_equalityI) (auto simp: xx)
  moreover have "drop 4 (AeadNonce_bytes (xor_with_reuse_guard n g)) = drop 4 ?N"
    using len bytes [of g] by (intro nth_equalityI) auto
  moreover have "g = h" if "xor_with_reuse_guard n g = xor_with_reuse_guard n h"
  proof -
    have "xor (?N ! i) (?G ! i) = xor (?N ! i) (?H ! i)" if "i < 4" for i
      using arg_cong [OF \<open>xor_with_reuse_guard n g = xor_with_reuse_guard n h\<close>,
          of "\<lambda>m. AeadNonce_bytes m ! i"] that len bytes [of g] bytes [of h] by simp
    then have "?G = ?H" using len cancel by (intro nth_equalityI) auto
    then show "g = h" by (rule ReuseGuard.expand)
  qed
  ultimately show ?thesis by (auto simp: REUSE_GUARD_BYTES_def intro: AeadNonce.expand)
qed

theorem reuse_guard_xor_witness:
  "xor_with_reuse_guard (xor_with_reuse_guard (AeadNonce (replicate 12 1)) (ReuseGuard [1, 2, 3, 4]))
     (ReuseGuard [1, 2, 3, 4]) = AeadNonce (replicate 12 1)"
  using reuse_guard_xor [of "AeadNonce (replicate 12 1)" "ReuseGuard [1, 2, 3, 4]" "ReuseGuard [1, 2, 3, 4]"]
  by (simp add: NONCE_BYTES_def REUSE_GUARD_BYTES_def)

text \<open>
  (C26) Two emulators of a virtual client at different leaves of the emulation group never use the
  same reuse guard with the same ratchet nonce, whatever randomness they draw, in builds with and
  without debug assertions.
\<close>

theorem emulator_guards_disjoint:
  assumes "ff1_permutes p" "i \<noteq> j"
    and "ReuseGuard_for_emulator_sender debug p draws s c n i sz = Some (Ok g)"
    and "ReuseGuard_for_emulator_sender debug' p draws' s c n j sz = Some (Ok h)"
  shows "g \<noteq> h"
proof
  assume "g = h"
  from for_emulator_sender_Ok [OF assms(3)] for_emulator_sender_Ok [OF assms(4)]
  obtain x y where "x < 2 ^ 32" "x mod TreeSize_leaf_count sz = i" "permute_guard p s c n x = Ok g"
    "y < 2 ^ 32" "y mod TreeSize_leaf_count sz = j" "permute_guard p s c n y = Ok h" by blast
  with \<open>g = h\<close> assms(1) have "x = y" using permute_guard_inj by blast
  with \<open>i \<noteq> j\<close> \<open>x mod _ = i\<close> \<open>y mod _ = j\<close> show False by simp
qed

text \<open> For a full emulation group and a leaf inside it, the guard is found with the first draw:
  the rejection loop does not repeat, no assertion fails, and the guard is the permutation of a number
  congruent to the leaf index.
\<close>

theorem emulator_guard_first_draw:
  assumes "expand_total p" "\<And>key x. \<exists>z. crypto_ff1_aes128_encrypt p key x = Ok z"
    and "full_size sz" "i < TreeSize_leaf_count sz" "length bs = 4"
  shows "\<exists>x g. x < 2 ^ 32 \<and> x mod TreeSize_leaf_count sz = i \<and> permute_guard p s c n x = Ok g \<and>
    ReuseGuard_for_emulator_sender debug p (Ok bs # draws) s c n i sz = Some (Ok g)"
proof -
  obtain x where x: "x < 2 ^ 32" "x mod TreeSize_leaf_count sz = i"
    "ReuseGuard_for_emulator_sender debug p (Ok bs # draws) s c n i sz = Some (permute_guard p s c n x)"
    using for_emulator_sender_first_draw [OF assms(3-5), of debug p draws s c n] by blast
  obtain key where "derive_prp_key s p c (AeadNonce_bytes n) = Ok key"
    using expand_total_Ok [OF assms(1), of PRP_KEY_LEN s c "''reuse guard''" "AeadNonce_bytes n"]
    by (auto simp: derive_prp_key_def PRP_KEY_LEN_def)
  moreover obtain z where "crypto_ff1_aes128_encrypt p key x = Ok z" using assms(2) by blast
  ultimately show ?thesis using x by (auto simp: permute_guard_def)
qed

lemma zero_provider_ff1: "crypto_ff1_aes128_encrypt zero_provider key x = Ok x"
  by (simp add: zero_provider_def)

lemma zero_provider_permutes: "ff1_permutes zero_provider"
  by (simp add: ff1_permutes_def zero_provider_ff1)

lemma zero_provider_guard:
  assumes "i < 4" "x = from_be_bytes bs div 4 * 4 + i" "length bs = 4"
  shows "ReuseGuard_for_emulator_sender debug zero_provider [Ok bs] (Secret []) c (AeadNonce []) i 7 =
    Some (Ok (ReuseGuard (to_be_bytes x)))"
proof -
  have r: "from_be_bytes bs < 2 ^ 32" using from_be_bytes_bound [of bs] assms(3) by simp
  have "permute_guard zero_provider (Secret []) c (AeadNonce []) x = Ok (ReuseGuard (to_be_bytes x))"
    by (simp add: permute_guard_def derive_prp_key_def zero_provider_def Secret_kdf_expand_label_def
        KdfLabel_serialized_label_def Secret_hkdf_expand_def PRP_KEY_LEN_def)
  with r assms guard_position [of "from_be_bytes bs" 4 i] show ?thesis
    by (simp add: ReuseGuard_for_emulator_sender_def Let_def TreeSize_leaf_count_def)
qed

theorem emulator_guards_disjoint_witness:
  "\<exists>g h. ReuseGuard_for_emulator_sender False zero_provider [Ok [0, 0, 0, 6] :: (bytes, unit) outcome] (Secret []) suite1 (AeadNonce []) 0 7 =
      Some (Ok g) \<and>
    ReuseGuard_for_emulator_sender True zero_provider [Ok [0, 0, 0, 6] :: (bytes, unit) outcome] (Secret []) suite1 (AeadNonce []) 1 7 =
      Some (Ok h) \<and> g \<noteq> h"
proof -
  let ?f = "\<lambda>debug i. ReuseGuard_for_emulator_sender debug zero_provider [Ok [0, 0, 0, 6] :: (bytes, unit) outcome]
    (Secret []) suite1 (AeadNonce []) i 7"
  obtain g h where r: "?f False 0 = Some (Ok g)" "?f True 1 = Some (Ok h)" by (simp add: zero_provider_guard)
  from emulator_guards_disjoint [OF zero_provider_permutes _ this] r show ?thesis by simp
qed

theorem emulator_guard_first_draw_witness:
  "\<exists>g. ReuseGuard_for_emulator_sender True zero_provider [Ok [1, 2, 3, 4 :: 8 word] :: (bytes, unit) outcome]
     (Secret []) MLS_128_DHKEMP256_AES128GCM_SHA256_P256 (AeadNonce []) 3 7 = Some (Ok g)"
  using emulator_guard_first_draw [of zero_provider 7 3 "[1, 2, 3, 4]" "Secret []"
      MLS_128_DHKEMP256_AES128GCM_SHA256_P256 "AeadNonce []" True "[]"] full_size_7
  by (auto simp: zero_provider_ff1 TreeSize_leaf_count_def)

end
