(* ===== verification/SenderRatchet.thy ===== *)
theory SenderRatchet
  imports Secrets
begin

text \<open>
  The ratchets that give the keys of private messages (\<open>tree/sender_ratchet.rs\<close>,
  \<open>tree/dual_use_ratchet.rs\<close>, and the key derivation and the errors of
  \<open>tree/secret_tree.rs\<close>).

  The operations take \<open>&mut self\<close> and return a \<open>Result\<close>: they give the new state
  with the outcome, so that what an error leaves behind is part of the model. Generations are
  \<open>u32\<close>.
\<close>

section \<open>Errors and key derivation\<close>

datatype SecretTreeError =
    TooDistantInThePast | TooDistantInTheFuture | IndexOutOfBounds | SecretReuseError
  | RatchetTypeError | RatchetTooLong | SecretTreeLibraryError
  | SecretTreeCodecError TlsCodecError | SecretTreeCryptoError CryptoError

type_synonym Generation = u32
type_synonym RatchetKeyMaterial = "AeadKey \<times> AeadNonce"

definition derive_tree_secret ::
    "Ciphersuite \<Rightarrow> Secret \<Rightarrow> string \<Rightarrow> u32 \<Rightarrow> nat \<Rightarrow> 'a provider_scheme \<Rightarrow> (Secret, SecretTreeError) outcome" where
  "derive_tree_secret c secret label generation n p =
     map_err SecretTreeCryptoError (Secret_kdf_expand_label secret p c label (to_be_bytes generation) n)"

record SenderRatchetConfiguration =
  out_of_order_tolerance :: Generation
  maximum_forward_distance :: Generation

definition SenderRatchetConfiguration_new :: "Generation \<Rightarrow> Generation \<Rightarrow> SenderRatchetConfiguration" where
  "SenderRatchetConfiguration_new tolerance distance =
     \<lparr>out_of_order_tolerance = tolerance, maximum_forward_distance = distance\<rparr>"

definition SenderRatchetConfiguration_default :: SenderRatchetConfiguration where
  "SenderRatchetConfiguration_default = SenderRatchetConfiguration_new 5 1000"

section \<open>The ratchet secret\<close>

record RatchetSecret =
  rs_secret :: Secret
  rs_generation :: Generation

definition initial_ratchet_secret :: "Secret \<Rightarrow> RatchetSecret" where
  "initial_ratchet_secret secret = \<lparr>rs_secret = secret, rs_generation = 0\<rparr>"

definition ratchet_forward ::
    "'a provider_scheme \<Rightarrow> Ciphersuite \<Rightarrow> RatchetSecret \<Rightarrow>
     RatchetSecret \<times> (Generation \<times> RatchetKeyMaterial, SecretTreeError) outcome" where
  "ratchet_forward p c r =
     (let derive = (\<lambda>label n. derive_tree_secret c (rs_secret r) label (rs_generation r) n p) in
      if rs_generation r = u32_MAX then (r, Err RatchetTooLong)
      else
        case outcome_bind (derive ''nonce'' (aead_nonce_length c)) (\<lambda>nonce.
             outcome_bind (derive ''key'' (aead_key_length c)) (\<lambda>key.
             outcome_bind (derive ''secret'' (hash_length c)) (\<lambda>secret. Ok (nonce, key, secret)))) of
          Err e \<Rightarrow> (r, Err e)
        | Panic \<Rightarrow> (r, Panic)
        | Ok (nonce, key, secret) \<Rightarrow>
            let generation = rs_generation r in
            (case u32_add generation 1 of
               None \<Rightarrow> (r\<lparr>rs_secret := secret\<rparr>, Panic)
             | Some next \<Rightarrow>
                 (\<lparr>rs_secret = secret, rs_generation = next\<rparr>,
                  outcome_bind (or_panic (AeadNonce_from_secret nonce)) (\<lambda>n.
                    Ok (generation, (AeadKey_from_secret key c, n))))))"

section \<open>The decryption ratchet\<close>

record DecryptionRatchet =
  past_secrets :: "RatchetKeyMaterial option list"
  ratchet_head :: RatchetSecret

definition DecryptionRatchet_new :: "Secret \<Rightarrow> DecryptionRatchet" where
  "DecryptionRatchet_new secret =
     \<lparr>past_secrets = [], ratchet_head = initial_ratchet_secret secret\<rparr>"

text \<open>
  The two checks at the start of \<open>secret_for_decryption\<close>. The subtraction and the addition
  of the first cannot overflow: the conjunction is lazy.
\<close>

definition too_distant_in_the_future :: "Generation \<Rightarrow> Generation \<Rightarrow> SenderRatchetConfiguration \<Rightarrow> bool" where
  "too_distant_in_the_future head_generation generation configuration \<longleftrightarrow>
     head_generation < u32_MAX - maximum_forward_distance configuration \<and>
     generation > head_generation + maximum_forward_distance configuration"

definition too_distant_in_the_past :: "Generation \<Rightarrow> Generation \<Rightarrow> SenderRatchetConfiguration \<Rightarrow> bool" where
  "too_distant_in_the_past head_generation generation configuration \<longleftrightarrow>
     generation < head_generation \<and>
     head_generation - generation > out_of_order_tolerance configuration"

text \<open>Ratcheting forward over the skipped generations; each is kept at the front of the queue.\<close>

primrec skip_forward ::
    "'a provider_scheme \<Rightarrow> Ciphersuite \<Rightarrow> nat \<Rightarrow> DecryptionRatchet \<Rightarrow>
     DecryptionRatchet \<times> (unit, SecretTreeError) outcome" where
  "skip_forward p c 0 d = (d, Ok ())"
| "skip_forward p c (Suc n) d =
     (let (head, res) = ratchet_forward p c (ratchet_head d); d = d\<lparr>ratchet_head := head\<rparr> in
      case res of
        Err e \<Rightarrow> (d, Err e)
      | Panic \<Rightarrow> (d, Panic)
      | Ok (_, key_material) \<Rightarrow>
          skip_forward p c n (d\<lparr>past_secrets := Some key_material # past_secrets d\<rparr>))"

text \<open>Taking the key at the head, with an empty entry to keep the queue aligned.\<close>

definition open_head ::
    "'a provider_scheme \<Rightarrow> Ciphersuite \<Rightarrow> SenderRatchetConfiguration \<Rightarrow> DecryptionRatchet \<Rightarrow>
     DecryptionRatchet \<times> (RatchetKeyMaterial, SecretTreeError) outcome" where
  "open_head p c configuration d =
     (let (head, res) = ratchet_forward p c (ratchet_head d); d = d\<lparr>ratchet_head := head\<rparr> in
      case res of
        Err e \<Rightarrow> (d, Err e)
      | Panic \<Rightarrow> (d, Panic)
      | Ok (_, key_material) \<Rightarrow>
          (d\<lparr>past_secrets := take (out_of_order_tolerance configuration) (None # past_secrets d)\<rparr>,
           Ok key_material))"

text \<open>\<open>(head_generation - generation) as i32\<close>.\<close>

definition as_i32 :: "u32 \<Rightarrow> int" where
  "as_i32 n = (if n < 2 ^ 31 then int n else int n - 2 ^ 32)"

definition DecryptionRatchet_secret_for_decryption ::
    "'a provider_scheme \<Rightarrow> Ciphersuite \<Rightarrow> Generation \<Rightarrow> SenderRatchetConfiguration \<Rightarrow> DecryptionRatchet \<Rightarrow>
     DecryptionRatchet \<times> (RatchetKeyMaterial, SecretTreeError) outcome" where
  "DecryptionRatchet_secret_for_decryption p c generation configuration d =
     (let head_generation = rs_generation (ratchet_head d) in
      if too_distant_in_the_future head_generation generation configuration then
        (d, Err TooDistantInTheFuture)
      else if too_distant_in_the_past head_generation generation configuration then
        (d, Err TooDistantInThePast)
      else if generation \<ge> head_generation then
        try_then (skip_forward p c (generation - head_generation) d)
          (\<lambda>d _. open_head p c configuration d)
      else
        let distance = as_i32 (head_generation - generation) in
        if distance = - (2 ^ 31) then (d, Panic)
        else
          let window_index = distance - 1 in
          if window_index < 0 then (d, Err TooDistantInThePast)
          else
            let index = nat window_index in
            case vec_get (past_secrets d) index of
              None \<Rightarrow> (d, Err IndexOutOfBounds)
            | Some None \<Rightarrow> (d, Err SecretReuseError)
            | Some (Some key_material) \<Rightarrow>
                (d\<lparr>past_secrets := (past_secrets d)[index := None]\<rparr>, Ok key_material))"

section \<open>The dual-use ratchet\<close>

datatype RetainedDecryptionSecret = Available RatchetKeyMaterial | Consumed

datatype DualUsePastSecret =
    AwaitingConfirmation RatchetKeyMaterial
  | RetainedForDecryption RetainedDecryptionSecret

record DualUseRatchet =
  dual_past_secrets :: "(Generation, DualUsePastSecret) btree_map"
  dual_ratchet_head :: RatchetSecret

fun take_for_decryption ::
    "DualUsePastSecret \<Rightarrow> DualUsePastSecret \<times> (RatchetKeyMaterial, SecretTreeError) outcome" where
  "take_for_decryption (AwaitingConfirmation k) = (RetainedForDecryption Consumed, Ok k)"
| "take_for_decryption (RetainedForDecryption (Available k)) = (RetainedForDecryption Consumed, Ok k)"
| "take_for_decryption (RetainedForDecryption Consumed) =
     (RetainedForDecryption Consumed, Err SecretReuseError)"

fun is_retained_for_decryption :: "DualUsePastSecret \<Rightarrow> bool" where
  "is_retained_for_decryption (RetainedForDecryption _) = True"
| "is_retained_for_decryption (AwaitingConfirmation _) = False"

definition DualUseRatchet_from :: "RatchetSecret \<Rightarrow> DualUseRatchet" where
  "DualUseRatchet_from head = \<lparr>dual_past_secrets = [], dual_ratchet_head = head\<rparr>"

definition DualUseRatchet_new :: "Secret \<Rightarrow> DualUseRatchet" where
  "DualUseRatchet_new secret =
     \<lparr>dual_past_secrets = [], dual_ratchet_head = initial_ratchet_secret secret\<rparr>"

definition delete_secret_for_generation :: "Generation \<Rightarrow> DualUseRatchet \<Rightarrow> DualUseRatchet" where
  "delete_secret_for_generation generation d =
     (if generation \<ge> rs_generation (dual_ratchet_head d) then d
      else case btm_get (dual_past_secrets d) generation of
        Some (AwaitingConfirmation _) \<Rightarrow>
          d\<lparr>dual_past_secrets := btm_remove generation (dual_past_secrets d)\<rparr>
      | _ \<Rightarrow> d)"

definition DualUseRatchet_secret_for_encryption ::
    "'a provider_scheme \<Rightarrow> Ciphersuite \<Rightarrow> DualUseRatchet \<Rightarrow>
     DualUseRatchet \<times> (Generation \<times> RatchetKeyMaterial, SecretTreeError) outcome" where
  "DualUseRatchet_secret_for_encryption p c d =
     (let generation = rs_generation (dual_ratchet_head d);
          (head, res) = ratchet_forward p c (dual_ratchet_head d); d = d\<lparr>dual_ratchet_head := head\<rparr> in
      case res of
        Err e \<Rightarrow> (d, Err e)
      | Panic \<Rightarrow> (d, Panic)
      | Ok (_, key_material) \<Rightarrow>
          (d\<lparr>dual_past_secrets :=
               btm_insert generation (AwaitingConfirmation key_material) (dual_past_secrets d)\<rparr>,
           Ok (generation, key_material)))"

primrec dual_skip_forward ::
    "'a provider_scheme \<Rightarrow> Ciphersuite \<Rightarrow> nat \<Rightarrow> Generation \<Rightarrow> DualUseRatchet \<Rightarrow>
     DualUseRatchet \<times> (unit, SecretTreeError) outcome" where
  "dual_skip_forward p c 0 skipped_generation d = (d, Ok ())"
| "dual_skip_forward p c (Suc n) skipped_generation d =
     (let (head, res) = ratchet_forward p c (dual_ratchet_head d); d = d\<lparr>dual_ratchet_head := head\<rparr> in
      case res of
        Err e \<Rightarrow> (d, Err e)
      | Panic \<Rightarrow> (d, Panic)
      | Ok (_, key_material) \<Rightarrow>
          dual_skip_forward p c n (skipped_generation + 1)
            (d\<lparr>dual_past_secrets := btm_insert skipped_generation
                 (RetainedForDecryption (Available key_material)) (dual_past_secrets d)\<rparr>))"

definition dual_open_head ::
    "'a provider_scheme \<Rightarrow> Ciphersuite \<Rightarrow> Generation \<Rightarrow> DualUseRatchet \<Rightarrow>
     DualUseRatchet \<times> (RatchetKeyMaterial, SecretTreeError) outcome" where
  "dual_open_head p c generation d =
     (let (head, res) = ratchet_forward p c (dual_ratchet_head d); d = d\<lparr>dual_ratchet_head := head\<rparr> in
      case res of
        Err e \<Rightarrow> (d, Err e)
      | Panic \<Rightarrow> (d, Panic)
      | Ok (_, key_material) \<Rightarrow>
          (d\<lparr>dual_past_secrets :=
               btm_insert generation (RetainedForDecryption Consumed) (dual_past_secrets d)\<rparr>,
           Ok key_material))"

definition error_for_missing_past_secret :: "DualUseRatchet \<Rightarrow> Generation \<Rightarrow> SecretTreeError" where
  "error_for_missing_past_secret d generation =
     (case List.find (\<lambda>(_, entry). is_retained_for_decryption entry) (dual_past_secrets d) of
        Some (oldest_generation, _) \<Rightarrow>
          if generation < oldest_generation then TooDistantInThePast else SecretReuseError
      | None \<Rightarrow> SecretReuseError)"

definition prune_past_secrets :: "SenderRatchetConfiguration \<Rightarrow> DualUseRatchet \<Rightarrow> DualUseRatchet" where
  "prune_past_secrets configuration d =
     (let retained = filter (\<lambda>(_, entry). is_retained_for_decryption entry) (dual_past_secrets d);
          excess = length retained - out_of_order_tolerance configuration;
          generations_to_prune = take excess (map fst retained) in
      d\<lparr>dual_past_secrets := foldl (\<lambda>m g. btm_remove g m) (dual_past_secrets d) generations_to_prune\<rparr>)"

definition DualUseRatchet_secret_for_decryption ::
    "'a provider_scheme \<Rightarrow> Ciphersuite \<Rightarrow> Generation \<Rightarrow> SenderRatchetConfiguration \<Rightarrow> DualUseRatchet \<Rightarrow>
     DualUseRatchet \<times> (RatchetKeyMaterial, SecretTreeError) outcome" where
  "DualUseRatchet_secret_for_decryption p c generation configuration d =
     (let head_generation = rs_generation (dual_ratchet_head d) in
      if too_distant_in_the_future head_generation generation configuration then
        (d, Err TooDistantInTheFuture)
      else try_then
        (if generation \<ge> head_generation then
           try_then (dual_skip_forward p c (generation - head_generation) head_generation d)
             (\<lambda>d _. dual_open_head p c generation d)
         else
           case btm_get (dual_past_secrets d) generation of
             None \<Rightarrow> (d, Err (error_for_missing_past_secret d generation))
           | Some entry \<Rightarrow>
               let (entry', res) = take_for_decryption entry in
               (d\<lparr>dual_past_secrets := btm_insert generation entry' (dual_past_secrets d)\<rparr>, res))
        (\<lambda>d key_material. (prune_past_secrets configuration d, Ok key_material)))"

section \<open>Sender ratchets\<close>

text \<open>
  \<open>vc\<close> says whether the feature \<open>virtual-clients-draft\<close> is on: own ratchets are
  then dual-use ratchets, and what was stored without the feature is read as such.
\<close>

datatype SenderRatchet =
    EncryptionRatchet RatchetSecret
  | DecryptionRatchetOf DecryptionRatchet
  | DualUse DualUseRatchet

fun SenderRatchet_from_serde :: "bool \<Rightarrow> SenderRatchet \<Rightarrow> SenderRatchet" where
  "SenderRatchet_from_serde vc (EncryptionRatchet r) =
     (if vc then DualUse (DualUseRatchet_from r) else EncryptionRatchet r)"
| "SenderRatchet_from_serde vc (DecryptionRatchetOf d) = DecryptionRatchetOf d"
| "SenderRatchet_from_serde vc (DualUse d) =
     (if vc then DualUse d else EncryptionRatchet (dual_ratchet_head d))"

section \<open>Ratcheting forward\<close>

lemma ratchet_forward_Ok:
  assumes "ratchet_forward p c r = (r', Ok (g, k))"
  shows "g = rs_generation r" "rs_generation r' = Suc g" "g \<noteq> u32_MAX"
  using assms
  by (auto simp: ratchet_forward_def Let_def u32_add_def outcome_bind_Ok_iff
      split: if_splits outcome.splits option.splits prod.splits)

lemma ratchet_forward_Err: "ratchet_forward p c r = (r', Err e) \<Longrightarrow> r' = r"
  by (auto simp: ratchet_forward_def Let_def outcome_bind_Err_iff or_panic_def
      split: if_splits outcome.splits option.splits prod.splits)

lemma ratchet_forward_too_long:
  "rs_generation r = u32_MAX \<Longrightarrow> ratchet_forward p c r = (r, Err RatchetTooLong)"
  by (simp add: ratchet_forward_def Let_def)

lemma derive_tree_secret_total:
  assumes "expand_total p" "0 < n" "n \<le> 65535"
  shows "\<exists>k. derive_tree_secret c s label g n p = Ok k \<and> length (Secret_as_slice k) = n"
  using expand_total_Ok [OF assms, of s c label "to_be_bytes g"]
  by (auto simp: derive_tree_secret_def)

lemma ratchet_forward_total:
  assumes "expand_total p" "rs_generation r < u32_MAX"
  shows "\<exists>s k. ratchet_forward p c r =
    (\<lparr>rs_secret = s, rs_generation = Suc (rs_generation r)\<rparr>, Ok (rs_generation r, k))"
proof -
  have b: "0 < aead_key_length c" "aead_key_length c \<le> 65535" "0 < hash_length c" "hash_length c \<le> 65535"
    using aead_key_length_bounds [of c] hash_length_bounds [of c] by auto
  obtain x where "derive_tree_secret c (rs_secret r) ''nonce'' (rs_generation r) 12 p = Ok x"
    "length (Secret_as_slice x) = 12"
    using derive_tree_secret_total [OF assms(1), of 12 c "rs_secret r" "''nonce''" "rs_generation r"]
    by auto
  moreover obtain y where
    "derive_tree_secret c (rs_secret r) ''key'' (rs_generation r) (aead_key_length c) p = Ok y"
    using derive_tree_secret_total [OF assms(1) b(1,2), of c "rs_secret r" "''key''" "rs_generation r"]
    by auto
  moreover obtain z where
    "derive_tree_secret c (rs_secret r) ''secret'' (rs_generation r) (hash_length c) p = Ok z"
    using derive_tree_secret_total [OF assms(1) b(3,4), of c "rs_secret r" "''secret''" "rs_generation r"]
    by auto
  ultimately show ?thesis
    using assms(2)
    by (simp add: ratchet_forward_def Let_def AeadNonce_from_secret_def NONCE_BYTES_def u32_MAX_def)
qed

text \<open>The chain of a ratchet: its state after \<open>n\<close> steps and the key of generation \<open>n\<close>.\<close>

primrec ratchet_iter ::
    "'a provider_scheme \<Rightarrow> Ciphersuite \<Rightarrow> RatchetSecret \<Rightarrow> nat \<Rightarrow> RatchetSecret option" where
  "ratchet_iter p c r 0 = Some r"
| "ratchet_iter p c r (Suc n) =
     (case ratchet_iter p c r n of
        None \<Rightarrow> None
      | Some r' \<Rightarrow> (case ratchet_forward p c r' of (r'', Ok _) \<Rightarrow> Some r'' | _ \<Rightarrow> None))"

lemma ratchet_iter_generation:
  "ratchet_iter p c r n = Some r' \<Longrightarrow> rs_generation r' = rs_generation r + n"
proof (induction n arbitrary: r')
  case (Suc n)
  from Suc.prems obtain r1 g k where "ratchet_iter p c r n = Some r1" "ratchet_forward p c r1 = (r', Ok (g, k))"
    by (auto split: option.splits prod.splits outcome.splits)
  then show ?case using Suc.IH [of r1] ratchet_forward_Ok(1,2) [of p c r1 r' g k] by simp
qed simp

definition key_at ::
    "'a provider_scheme \<Rightarrow> Ciphersuite \<Rightarrow> Secret \<Rightarrow> nat \<Rightarrow> RatchetKeyMaterial option" where
  "key_at p c s n =
     (case ratchet_iter p c (initial_ratchet_secret s) n of
        None \<Rightarrow> None
      | Some r \<Rightarrow> (case ratchet_forward p c r of (_, Ok (_, k)) \<Rightarrow> Some k | _ \<Rightarrow> None))"

definition on_chain :: "'a provider_scheme \<Rightarrow> Ciphersuite \<Rightarrow> Secret \<Rightarrow> RatchetSecret \<Rightarrow> bool" where
  "on_chain p c s r \<longleftrightarrow> ratchet_iter p c (initial_ratchet_secret s) (rs_generation r) = Some r"

lemma on_chain_initial [simp]: "on_chain p c s (initial_ratchet_secret s)"
  by (simp add: on_chain_def initial_ratchet_secret_def)

lemma on_chain_step:
  assumes "on_chain p c s r" "ratchet_forward p c r = (r', Ok (g, k))"
  shows "on_chain p c s r'" "key_at p c s (rs_generation r) = Some k"
  using assms ratchet_forward_Ok [OF assms(2)] by (simp_all add: on_chain_def key_at_def)

lemma on_chain_bound:
  assumes "on_chain p c s r"
  shows "rs_generation r \<le> u32_MAX"
proof -
  have "n \<le> u32_MAX" if "ratchet_iter p c (initial_ratchet_secret s) n = Some r" for n r
    using that
  proof (induction n arbitrary: r)
    case (Suc n)
    from Suc.prems obtain r1 g k where r1: "ratchet_iter p c (initial_ratchet_secret s) n = Some r1"
      "ratchet_forward p c r1 = (r, Ok (g, k))"
      by (auto split: option.splits prod.splits outcome.splits)
    have "n \<noteq> u32_MAX"
      using ratchet_forward_Ok(1,3) [OF r1(2)] ratchet_iter_generation [OF r1(1)]
      by (simp add: initial_ratchet_secret_def)
    then show ?case using Suc.IH [OF r1(1)] by simp
  qed simp
  then show ?thesis using assms by (auto simp: on_chain_def)
qed

section \<open>The window of past secrets\<close>

abbreviation head_gen :: "DecryptionRatchet \<Rightarrow> Generation" where
  "head_gen d \<equiv> rs_generation (ratchet_head d)"

definition in_window :: "DecryptionRatchet \<Rightarrow> Generation \<Rightarrow> bool" where
  "in_window d m \<longleftrightarrow> m < head_gen d \<and>
     (\<exists>k. vec_get (past_secrets d) (head_gen d - 1 - m) = Some (Some k))"

text \<open>
  The queue is aligned with the generations: entry \<open>i\<close> belongs to the generation
  \<open>i + 1\<close> before the head and holds that generation's key or nothing.
\<close>

definition DecryptionRatchet_inv ::
    "'a provider_scheme \<Rightarrow> Ciphersuite \<Rightarrow> Secret \<Rightarrow> DecryptionRatchet \<Rightarrow> bool" where
  "DecryptionRatchet_inv p c s d \<longleftrightarrow> on_chain p c s (ratchet_head d) \<and>
     length (past_secrets d) \<le> head_gen d \<and> head_gen d \<le> u32_MAX \<and>
     (\<forall>i k. vec_get (past_secrets d) i = Some (Some k) \<longrightarrow> key_at p c s (head_gen d - 1 - i) = Some k)"

lemma DecryptionRatchet_inv_key:
  assumes "DecryptionRatchet_inv p c s d" "vec_get (past_secrets d) i = Some (Some k)"
  shows "key_at p c s (head_gen d - 1 - i) = Some k"
  using assms unfolding DecryptionRatchet_inv_def by blast

lemma DecryptionRatchet_inv_new: "DecryptionRatchet_inv p c s (DecryptionRatchet_new s)"
  by (simp add: DecryptionRatchet_inv_def DecryptionRatchet_new_def initial_ratchet_secret_def
      on_chain_def u32_MAX_def)

text \<open>Pushing an entry while the head moves on by one generation.\<close>

lemma DecryptionRatchet_inv_push:
  assumes inv: "DecryptionRatchet_inv p c s d" and fwd: "ratchet_forward p c (ratchet_head d) = (r, Ok (g, k))"
    and e: "e = None \<or> e = Some k"
  shows "DecryptionRatchet_inv p c s (d\<lparr>ratchet_head := r, past_secrets := e # past_secrets d\<rparr>)"
proof -
  note f = ratchet_forward_Ok [OF fwd] and chain = on_chain_step [OF _ fwd, of s]
  have "key_at p c s (head_gen d - i) = Some k'"
    if "vec_get (e # past_secrets d) i = Some (Some k')" for i k'
  proof (cases i)
    case 0
    then show ?thesis using that e chain(2) inv by (auto simp: DecryptionRatchet_inv_def)
  next
    case (Suc j)
    then have "vec_get (past_secrets d) j = Some (Some k')"
      using that by (simp add: vec_get_def split: if_splits)
    from DecryptionRatchet_inv_key [OF inv this] show ?thesis using Suc by simp
  qed
  then show ?thesis using inv f chain(1) by (simp add: DecryptionRatchet_inv_def)
qed

lemma skip_forward_shape:
  assumes "skip_forward p c n d = (d', res)" "res \<noteq> Panic" "DecryptionRatchet_inv p c s d"
  shows "DecryptionRatchet_inv p c s d' \<and>
    (\<exists>ks. past_secrets d' = map Some ks @ past_secrets d \<and> head_gen d' = head_gen d + length ks \<and>
      (res = Ok () \<longrightarrow> length ks = n))"
  using assms
proof (induction n arbitrary: d)
  case (Suc n)
  obtain r out where f: "ratchet_forward p c (ratchet_head d) = (r, out)" by fastforce
  show ?case
  proof (cases out)
    case (Ok x)
    obtain g k where x: "x = (g, k)" by (cases x)
    let ?d = "d\<lparr>ratchet_head := r, past_secrets := Some k # past_secrets d\<rparr>"
    have "skip_forward p c n ?d = (d', res)" using Suc.prems(1) f Ok x by (simp add: Let_def)
    moreover have "DecryptionRatchet_inv p c s ?d"
      using DecryptionRatchet_inv_push [OF Suc.prems(3)] f Ok x by blast
    ultimately obtain ks where "DecryptionRatchet_inv p c s d'"
      "past_secrets d' = map Some ks @ Some k # past_secrets d" "head_gen d' = rs_generation r + length ks"
      "res = Ok () \<longrightarrow> length ks = n"
      using Suc.IH [of ?d] Suc.prems(2) by auto
    then show ?thesis
      using ratchet_forward_Ok(1,2) [of p c "ratchet_head d" r g k] f Ok x
      by (intro conjI exI [of _ "ks @ [k]"]) auto
  next
    case (Err e)
    with f have "r = ratchet_head d" using ratchet_forward_Err by blast
    with Err f Suc.prems show ?thesis by (intro conjI exI [of _ "[]"]) (auto simp: Let_def)
  next
    case Panic
    with f Suc.prems show ?thesis by (auto simp: Let_def)
  qed
qed simp

lemma vec_get_append:
  "vec_get (xs @ ys) i = (if i < length xs then Some (xs ! i) else vec_get ys (i - length xs))"
  by (auto simp: vec_get_def nth_append)

lemma vec_get_take: "vec_get (take t xs) i = (if i < t then vec_get xs i else None)"
  by (auto simp: vec_get_def)

lemma in_window_extend:
  assumes "past_secrets d' = take t (xs @ past_secrets d)" "head_gen d' = head_gen d + length xs"
    and "in_window d' m" "m < head_gen d"
  shows "in_window d m"
proof -
  have "head_gen d' - 1 - m = length xs + (head_gen d - 1 - m)" using assms(2,4) by simp
  then show ?thesis using assms by (auto simp: in_window_def vec_get_take vec_get_append split: if_splits)
qed

lemma open_head_effect:
  assumes inv: "DecryptionRatchet_inv p c s d" and run: "open_head p c cfg d = (d', res)" and np: "res \<noteq> Panic"
  shows "DecryptionRatchet_inv p c s d' \<and>
    (case res of
       Ok k \<Rightarrow> key_at p c s (head_gen d) = Some k \<and> head_gen d' = Suc (head_gen d) \<and>
         past_secrets d' = take (out_of_order_tolerance cfg) (None # past_secrets d)
     | _ \<Rightarrow> d' = d)"
proof -
  obtain r out where f: "ratchet_forward p c (ratchet_head d) = (r, out)" by fastforce
  show ?thesis
  proof (cases out)
    case (Ok x)
    obtain g k where "x = (g, k)" by (cases x)
    with f Ok have fk: "ratchet_forward p c (ratchet_head d) = (r, outcome.Ok (g, k))" by simp
    let ?d = "d\<lparr>ratchet_head := r, past_secrets := None # past_secrets d\<rparr>"
    have d': "d' = ?d\<lparr>past_secrets := take (out_of_order_tolerance cfg) (past_secrets ?d)\<rparr>" "res = outcome.Ok k"
      using run fk by (auto simp: open_head_def Let_def)
    have "DecryptionRatchet_inv p c s ?d" by (rule DecryptionRatchet_inv_push [OF inv fk]) simp
    then have "DecryptionRatchet_inv p c s d'"
      unfolding d' DecryptionRatchet_inv_def by (auto simp: vec_get_take split: if_splits)
    moreover have "key_at p c s (head_gen d) = Some k"
      using on_chain_step(2) [OF _ fk, of s] inv by (simp add: DecryptionRatchet_inv_def)
    ultimately show ?thesis using d' ratchet_forward_Ok [OF fk] by auto
  next
    case (Err e)
    then have "r = ratchet_head d" using f ratchet_forward_Err by blast
    then show ?thesis using Err f run inv by (auto simp: open_head_def Let_def)
  next
    case Panic
    then show ?thesis using f run np by (auto simp: open_head_def Let_def)
  qed
qed

lemma secret_for_decryption_forward:
  assumes inv: "DecryptionRatchet_inv p c s d" and ge: "head_gen d \<le> generation"
    and run: "DecryptionRatchet_secret_for_decryption p c generation cfg d = (d', res)" and np: "res \<noteq> Panic"
  shows "DecryptionRatchet_inv p c s d' \<and>
    (case res of
       Ok k \<Rightarrow> key_at p c s generation = Some k \<and> head_gen d' = Suc generation \<and>
         (\<exists>ks. length ks = generation - head_gen d \<and>
           past_secrets d' = take (out_of_order_tolerance cfg) (None # map Some ks @ past_secrets d))
     | _ \<Rightarrow> \<exists>ks. past_secrets d' = map Some ks @ past_secrets d \<and> head_gen d' = head_gen d + length ks)"
proof (cases "too_distant_in_the_future (head_gen d) generation cfg")
  case True
  then show ?thesis using run inv
    by (auto simp: DecryptionRatchet_secret_for_decryption_def Let_def intro!: exI [of _ "[]"])
next
  case False
  have past: "\<not> too_distant_in_the_past (head_gen d) generation cfg"
    using ge by (simp add: too_distant_in_the_past_def)
  obtain d1 r1 where skip: "skip_forward p c (generation - head_gen d) d = (d1, r1)" by fastforce
  have run': "try_then (d1, r1) (\<lambda>d _. open_head p c cfg d) = (d', res)"
    using run False past ge skip by (simp add: DecryptionRatchet_secret_for_decryption_def Let_def)
  show ?thesis
  proof (cases r1)
    case (Ok u)
    then obtain ks where d1: "DecryptionRatchet_inv p c s d1" "past_secrets d1 = map Some ks @ past_secrets d"
      "head_gen d1 = head_gen d + length ks" "length ks = generation - head_gen d"
      using skip_forward_shape [OF skip _ inv] by auto
    have "open_head p c cfg d1 = (d', res)" using run' Ok by simp
    from open_head_effect [OF d1(1) this np] d1 ge show ?thesis
      by (auto split: outcome.splits)
  next
    case (Err e)
    then show ?thesis using run' skip_forward_shape [OF skip _ inv] by auto
  next
    case Panic
    then show ?thesis using run' np by auto
  qed
qed

lemma secret_for_decryption_past:
  assumes "generation < head_gen d" "head_gen d \<le> u32_MAX"
  shows "DecryptionRatchet_secret_for_decryption p c generation cfg d =
    (let distance = head_gen d - generation in
     if distance > out_of_order_tolerance cfg then (d, Err TooDistantInThePast)
     else if distance = 2 ^ 31 then (d, Panic)
     else if distance > 2 ^ 31 then (d, Err TooDistantInThePast)
     else case vec_get (past_secrets d) (distance - 1) of
       None \<Rightarrow> (d, Err IndexOutOfBounds)
     | Some None \<Rightarrow> (d, Err SecretReuseError)
     | Some (Some k) \<Rightarrow> (d\<lparr>past_secrets := (past_secrets d)[distance - 1 := None]\<rparr>, Ok k))"
proof -
  have "\<not> too_distant_in_the_future (head_gen d) generation cfg"
    using assms by (simp add: too_distant_in_the_future_def)
  moreover have "too_distant_in_the_past (head_gen d) generation cfg \<longleftrightarrow>
      head_gen d - generation > out_of_order_tolerance cfg"
    using assms by (simp add: too_distant_in_the_past_def)
  moreover have "as_i32 (head_gen d - generation) = - (2 ^ 31) \<longleftrightarrow> head_gen d - generation = 2 ^ 31"
    "as_i32 (head_gen d - generation) - 1 < 0 \<longleftrightarrow> head_gen d - generation \<ge> 2 ^ 31"
    using assms by (auto simp: as_i32_def u32_MAX_def)
  moreover have "nat (as_i32 (head_gen d - generation) - 1) = head_gen d - generation - 1"
    if "head_gen d - generation < 2 ^ 31"
    using that assms by (simp add: as_i32_def nat_diff_distrib)
  ultimately show ?thesis
    using assms(1) by (auto simp: DecryptionRatchet_secret_for_decryption_def Let_def not_less split: option.split)
qed

section \<open>Every key is handed out once\<close>

text \<open>
  A request is a generation with the configuration of that call. A call that panics hands out
  nothing, and the run goes on from the state before it. The program ends there, so these runs include
  all of its own.
\<close>

type_synonym decryption_request = "Generation \<times> SenderRatchetConfiguration"

definition decryption_step ::
    "'a provider_scheme \<Rightarrow> Ciphersuite \<Rightarrow> decryption_request \<Rightarrow> DecryptionRatchet \<Rightarrow> DecryptionRatchet" where
  "decryption_step p c req d =
     (case DecryptionRatchet_secret_for_decryption p c (fst req) (snd req) d of
        (d', Panic) \<Rightarrow> d
      | (d', _) \<Rightarrow> d')"

definition decryption_opened ::
    "'a provider_scheme \<Rightarrow> Ciphersuite \<Rightarrow> decryption_request \<Rightarrow> DecryptionRatchet \<Rightarrow> Generation option" where
  "decryption_opened p c req d =
     (case DecryptionRatchet_secret_for_decryption p c (fst req) (snd req) d of
        (_, Ok _) \<Rightarrow> Some (fst req)
      | _ \<Rightarrow> None)"

definition decryption_available :: "DecryptionRatchet \<Rightarrow> Generation \<Rightarrow> bool" where
  "decryption_available d m \<longleftrightarrow> head_gen d \<le> m \<or> in_window d m"

lemma in_window_take:
  assumes "m < head_gen d" "i = head_gen d - 1 - n" "n < head_gen d"
  shows "in_window (d\<lparr>past_secrets := (past_secrets d)[i := None]\<rparr>) m \<longleftrightarrow> m \<noteq> n \<and> in_window d m"
proof -
  have "i = head_gen d - 1 - m \<longleftrightarrow> m = n" using assms by auto
  then show ?thesis using assms by (auto simp: in_window_def vec_get_list_update split: if_splits)
qed

text \<open>What one call does to the set of available keys, and the key it returns.\<close>

definition opens_key ::
    "'a provider_scheme \<Rightarrow> Ciphersuite \<Rightarrow> Secret \<Rightarrow> Generation \<Rightarrow> DecryptionRatchet \<Rightarrow>
     DecryptionRatchet \<Rightarrow> (RatchetKeyMaterial, SecretTreeError) outcome \<Rightarrow> bool" where
  "opens_key p c s n d d' res \<longleftrightarrow> DecryptionRatchet_inv p c s d' \<and>
     (\<forall>m. decryption_available d' m \<longrightarrow> decryption_available d m) \<and>
     (\<forall>k. res = Ok k \<longrightarrow> key_at p c s n = Some k \<and> decryption_available d n \<and> \<not> decryption_available d' n)"

lemma opens_key_forward:
  assumes inv: "DecryptionRatchet_inv p c s d" and ge: "head_gen d \<le> n"
    and run: "DecryptionRatchet_secret_for_decryption p c n cfg d = (d', res)" and np: "res \<noteq> Panic"
  shows "opens_key p c s n d d' res"
proof -
  note e = secret_for_decryption_forward [OF inv ge run np]
  obtain t xs where xs: "past_secrets d' = take t (xs @ past_secrets d)" "head_gen d' = head_gen d + length xs"
  proof (cases res)
    case (Ok k)
    then obtain ks where "length ks = n - head_gen d" "head_gen d' = Suc n"
      "past_secrets d' = take (out_of_order_tolerance cfg) ((None # map Some ks) @ past_secrets d)"
      using e by auto
    then show ?thesis using that [of _ "None # map Some ks"] ge by simp
  next
    case (Err er)
    then obtain ks where "past_secrets d' = map Some ks @ past_secrets d"
      "head_gen d' = head_gen d + length ks" using e by auto
    then show ?thesis using that [of "length (past_secrets d')" "map Some ks"] by simp
  qed (use np in simp)
  have "decryption_available d m" if "decryption_available d' m" for m
    using in_window_extend [OF xs] xs(2) that
    by (cases "m < head_gen d") (auto simp: decryption_available_def)
  moreover have "\<not> decryption_available d' n" if "res = Ok k" for k
    using e that by (auto simp: decryption_available_def in_window_def vec_get_take vec_get_def
        split: if_splits)
  ultimately show ?thesis
    using e ge by (auto simp: opens_key_def decryption_available_def)
qed

lemma opens_key_past:
  assumes inv: "DecryptionRatchet_inv p c s d" and lt: "n < head_gen d"
    and run: "DecryptionRatchet_secret_for_decryption p c n cfg d = (d', res)" and np: "res \<noteq> Panic"
  shows "opens_key p c s n d d' res"
proof (cases "\<exists>k. res = Ok k")
  case True
  let ?i = "head_gen d - n - 1"
  have h: "head_gen d \<le> u32_MAX" using inv by (simp add: DecryptionRatchet_inv_def)
  from True obtain k where k: "res = Ok k" "vec_get (past_secrets d) ?i = Some (Some k)"
    and d': "d' = d\<lparr>past_secrets := (past_secrets d)[?i := None]\<rparr>"
    using run secret_for_decryption_past [OF lt h, of p c cfg]
    by (auto simp: Let_def split: if_splits option.splits)
  have "DecryptionRatchet_inv p c s d'"
    using inv unfolding d' DecryptionRatchet_inv_def
    by (auto simp: vec_get_list_update split: if_splits)
  moreover have "in_window d' m \<longleftrightarrow> m \<noteq> n \<and> in_window d m" if "m < head_gen d" for m
    unfolding d' using in_window_take [OF that _ lt, of ?i] by simp
  moreover have "in_window d n" using k lt by (auto simp: in_window_def)
  moreover have "key_at p c s n = Some k"
    using DecryptionRatchet_inv_key [OF inv k(2)] lt by simp
  moreover have "head_gen d' = head_gen d" using d' by simp
  ultimately show ?thesis using k lt
    unfolding opens_key_def decryption_available_def by (metis leD not_le_imp_less outcome.inject(1))
next
  case False
  have "d' = d"
    using False run np secret_for_decryption_past [OF lt, of p c cfg] inv
    by (auto simp: Let_def DecryptionRatchet_inv_def split: if_splits option.splits)
  then show ?thesis using inv False by (simp add: opens_key_def)
qed

lemma secret_for_decryption_effect:
  assumes "DecryptionRatchet_inv p c s d"
    and "DecryptionRatchet_secret_for_decryption p c n cfg d = (d', res)" "res \<noteq> Panic"
  shows "opens_key p c s n d d' res"
  using assms opens_key_forward opens_key_past by (cases "head_gen d \<le> n") (simp_all add: not_le)

interpretation dr: one_time_keys "decryption_step p c" "decryption_opened p c" decryption_available
  "DecryptionRatchet_inv p c s" for p :: "'a provider_scheme" and c s
proof unfold_locales
  fix d req m
  assume inv: "DecryptionRatchet_inv p c s d"
  obtain d' res where run: "DecryptionRatchet_secret_for_decryption p c (fst req) (snd req) d = (d', res)"
    by fastforce
  note e = secret_for_decryption_effect [OF inv run, unfolded opens_key_def]
  show "DecryptionRatchet_inv p c s (decryption_step p c req d)"
    using e inv run by (cases res) (auto simp: decryption_step_def)
  show "decryption_available d m" if "decryption_available (decryption_step p c req d) m"
    using e that run by (cases res) (auto simp: decryption_step_def)
  show "decryption_available d m" "\<not> decryption_available (decryption_step p c req d) m"
    if "decryption_opened p c req d = Some m"
    using e that run
    by (cases res; auto simp: decryption_opened_def decryption_step_def)+
qed

section \<open>Every key of the dual-use ratchet is opened once\<close>

abbreviation dual_gen :: "DualUseRatchet \<Rightarrow> Generation" where
  "dual_gen d \<equiv> rs_generation (dual_ratchet_head d)"

fun entry_key :: "DualUsePastSecret \<Rightarrow> RatchetKeyMaterial option" where
  "entry_key (AwaitingConfirmation k) = Some k"
| "entry_key (RetainedForDecryption (Available k)) = Some k"
| "entry_key (RetainedForDecryption Consumed) = None"

definition DualUseRatchet_inv ::
    "'a provider_scheme \<Rightarrow> Ciphersuite \<Rightarrow> Secret \<Rightarrow> DualUseRatchet \<Rightarrow> bool" where
  "DualUseRatchet_inv p c s d \<longleftrightarrow> on_chain p c s (dual_ratchet_head d) \<and> btm_sorted (dual_past_secrets d) \<and>
     (\<forall>g e. btm_get (dual_past_secrets d) g = Some e \<longrightarrow>
        g < dual_gen d \<and> (\<forall>k. entry_key e = Some k \<longrightarrow> key_at p c s g = Some k))"

definition dual_available :: "DualUseRatchet \<Rightarrow> Generation \<Rightarrow> bool" where
  "dual_available d m \<longleftrightarrow> dual_gen d \<le> m \<or>
     (\<exists>e k. btm_get (dual_past_secrets d) m = Some e \<and> entry_key e = Some k)"

text \<open>A change of state that keeps the invariant and makes no key available.\<close>

definition dual_shrinks ::
    "'a provider_scheme \<Rightarrow> Ciphersuite \<Rightarrow> Secret \<Rightarrow> DualUseRatchet \<Rightarrow> DualUseRatchet \<Rightarrow> bool" where
  "dual_shrinks p c s d d' \<longleftrightarrow> DualUseRatchet_inv p c s d' \<and> dual_gen d \<le> dual_gen d' \<and>
     (\<forall>m. dual_available d' m \<longrightarrow> dual_available d m)"

lemma dual_shrinks_trans: "dual_shrinks p c s d d1 \<Longrightarrow> dual_shrinks p c s d1 d2 \<Longrightarrow> dual_shrinks p c s d d2"
  by (auto simp: dual_shrinks_def)

lemma dual_shrinks_refl: "DualUseRatchet_inv p c s d \<Longrightarrow> dual_shrinks p c s d d"
  by (simp add: dual_shrinks_def)

lemma DualUseRatchet_inv_new: "DualUseRatchet_inv p c s (DualUseRatchet_new s)"
  by (simp add: DualUseRatchet_inv_def DualUseRatchet_new_def btm_sorted_def btm_get_def)

lemma DualUseRatchet_invD:
  assumes "DualUseRatchet_inv p c s d"
  shows "on_chain p c s (dual_ratchet_head d)" "btm_sorted (dual_past_secrets d)"
    "\<And>g e. btm_get (dual_past_secrets d) g = Some e \<Longrightarrow> g < dual_gen d"
    "\<And>g e k. btm_get (dual_past_secrets d) g = Some e \<Longrightarrow> entry_key e = Some k \<Longrightarrow> key_at p c s g = Some k"
  using assms unfolding DualUseRatchet_inv_def by blast+

lemma dual_insert_head:
  assumes inv: "DualUseRatchet_inv p c s d"
    and fwd: "ratchet_forward p c (dual_ratchet_head d) = (r, Ok (g, k))"
    and e: "entry_key e = None \<or> entry_key e = Some k"
    and d': "d' = d\<lparr>dual_ratchet_head := r,
      dual_past_secrets := btm_insert (dual_gen d) e (dual_past_secrets d)\<rparr>"
  shows "dual_shrinks p c s d d'" "dual_gen d' = Suc (dual_gen d)" "key_at p c s (dual_gen d) = Some k"
proof -
  note D = DualUseRatchet_invD [OF inv] and f = ratchet_forward_Ok [OF fwd]
  note chain = on_chain_step [OF D(1) fwd]
  show g: "dual_gen d' = Suc (dual_gen d)" using f d' by simp
  show "key_at p c s (dual_gen d) = Some k" by (rule chain(2))
  have get: "btm_get (dual_past_secrets d') m =
      (if m = dual_gen d then Some e else btm_get (dual_past_secrets d) m)" for m
    using d' D(2) by (simp add: btm_simps)
  have "DualUseRatchet_inv p c s d'"
    unfolding DualUseRatchet_inv_def get g
  proof (intro conjI allI impI)
    show "on_chain p c s (dual_ratchet_head d')" using chain(1) d' by simp
    show "btm_sorted (dual_past_secrets d')" using D(2) d' by simp
    fix m e'
    assume a: "(if m = dual_gen d then Some e else btm_get (dual_past_secrets d) m) = Some e'"
    show "m < Suc (dual_gen d)" using a D(3) [of m e'] by (auto split: if_splits)
    show "key_at p c s m = Some k'" if "entry_key e' = Some k'" for k'
      using a that e chain(2) D(4) [of m e' k'] by (auto split: if_splits)
  qed
  moreover have "dual_available d m" if "dual_available d' m" for m
    using that unfolding dual_available_def get g by (cases "m = dual_gen d") auto
  ultimately show "dual_shrinks p c s d d'" using g by (simp add: dual_shrinks_def)
qed

lemma dual_update_entry:
  assumes inv: "DualUseRatchet_inv p c s d" and old: "btm_get (dual_past_secrets d) n = Some e0"
    and d': "d' = d\<lparr>dual_past_secrets := btm_insert n e (dual_past_secrets d)\<rparr>" and e: "entry_key e = None"
  shows "dual_shrinks p c s d d'" "\<not> dual_available d' n"
proof -
  note D = DualUseRatchet_invD [OF inv]
  have get: "btm_get (dual_past_secrets d') m =
      (if m = n then Some e else btm_get (dual_past_secrets d) m)" for m
    using d' D(2) by (simp add: btm_simps)
  have g: "dual_gen d' = dual_gen d" "dual_ratchet_head d' = dual_ratchet_head d" using d' by simp_all
  have "DualUseRatchet_inv p c s d'"
    unfolding DualUseRatchet_inv_def get g
  proof (intro conjI allI impI)
    show "on_chain p c s (dual_ratchet_head d)" by (rule D(1))
    show "btm_sorted (dual_past_secrets d')" using D(2) d' by simp
    fix m e'
    assume a: "(if m = n then Some e else btm_get (dual_past_secrets d) m) = Some e'"
    show "m < dual_gen d" using a D(3) [of m e'] D(3) [OF old] by (auto split: if_splits)
    show "key_at p c s m = Some k'" if "entry_key e' = Some k'" for k'
      using a that e D(4) [of m e' k'] by (auto split: if_splits)
  qed
  moreover have "dual_available d m" if "dual_available d' m" for m
    using that e unfolding dual_available_def get g by (cases "m = n") auto
  ultimately show "dual_shrinks p c s d d'" using g by (simp add: dual_shrinks_def)
  show "\<not> dual_available d' n" using D(3) [OF old] e g unfolding dual_available_def get by auto
qed

lemma btm_get_remove_all:
  "btm_sorted m \<Longrightarrow>
   btm_sorted (foldl (\<lambda>m g. btm_remove g m) m gs) \<and>
   btm_get (foldl (\<lambda>m g. btm_remove g m) m gs) k = (if k \<in> set gs then None else btm_get m k)"
proof (induction gs arbitrary: m)
  case (Cons g gs)
  have "btm_sorted (btm_remove g m)" using Cons.prems by (simp add: btm_remove_def)
  from Cons.IH [OF this] show ?case by (auto simp: btm_simps)
qed simp

lemma dual_remove_all:
  assumes inv: "DualUseRatchet_inv p c s d"
    and d': "d' = d\<lparr>dual_past_secrets := foldl (\<lambda>m g. btm_remove g m) (dual_past_secrets d) gs\<rparr>"
  shows "dual_shrinks p c s d d'"
proof -
  note D = DualUseRatchet_invD [OF inv]
  note r = btm_get_remove_all [OF D(2), of gs]
  show ?thesis
    using inv r d' by (auto simp: dual_shrinks_def DualUseRatchet_inv_def dual_available_def split: if_splits)
qed

lemma dual_forward_Err:
  "ratchet_forward p c (dual_ratchet_head d) = (r, Err e) \<Longrightarrow> d\<lparr>dual_ratchet_head := r\<rparr> = d"
  by (drule ratchet_forward_Err) simp

lemma dual_skip_forward_effect:
  assumes "dual_skip_forward p c n (dual_gen d) d = (d', res)" "res \<noteq> Panic" "DualUseRatchet_inv p c s d"
  shows "dual_shrinks p c s d d' \<and> (res = Ok () \<longrightarrow> dual_gen d' = dual_gen d + n)"
  using assms
proof (induction n arbitrary: d)
  case (Suc n)
  obtain r out where f: "ratchet_forward p c (dual_ratchet_head d) = (r, out)" by fastforce
  show ?case
  proof (cases out)
    case (Ok x)
    obtain g k where x: "x = (g, k)" by (cases x)
    let ?d = "d\<lparr>dual_ratchet_head := r, dual_past_secrets :=
      btm_insert (dual_gen d) (RetainedForDecryption (Available k)) (dual_past_secrets d)\<rparr>"
    have fk: "ratchet_forward p c (dual_ratchet_head d) = (r, outcome.Ok (g, k))" using f Ok x by simp
    note i = dual_insert_head [OF Suc.prems(3) fk _ refl, of "RetainedForDecryption (Available k)", simplified]
    have "dual_skip_forward p c n (dual_gen ?d) ?d = (d', res)"
      using Suc.prems(1) fk i(2) by (simp add: Let_def)
    moreover have "DualUseRatchet_inv p c s ?d" using i(1) by (simp add: dual_shrinks_def)
    ultimately have "dual_shrinks p c s ?d d' \<and> (res = outcome.Ok () \<longrightarrow> dual_gen d' = dual_gen ?d + n)"
      using Suc.IH Suc.prems(2) by blast
    then show ?thesis using dual_shrinks_trans [OF i(1)] i(2) by simp
  next
    case (Err e)
    then show ?thesis
      using f Suc.prems dual_forward_Err [of p c d r e] dual_shrinks_refl by (auto simp: Let_def)
  qed (use f Suc.prems in \<open>auto simp: Let_def\<close>)
qed (auto simp: dual_shrinks_refl)

lemma dual_open_head_effect:
  assumes inv: "DualUseRatchet_inv p c s d" and run: "dual_open_head p c (dual_gen d) d = (d', res)"
    and np: "res \<noteq> Panic"
  shows "dual_shrinks p c s d d' \<and>
    (\<forall>k. res = Ok k \<longrightarrow> key_at p c s (dual_gen d) = Some k \<and> \<not> dual_available d' (dual_gen d))"
proof -
  obtain r out where f: "ratchet_forward p c (dual_ratchet_head d) = (r, out)" by fastforce
  show ?thesis
  proof (cases out)
    case (Ok x)
    obtain g k where "x = (g, k)" by (cases x)
    with f Ok have fk: "ratchet_forward p c (dual_ratchet_head d) = (r, outcome.Ok (g, k))" by simp
    have d': "d' = d\<lparr>dual_ratchet_head := r, dual_past_secrets :=
        btm_insert (dual_gen d) (RetainedForDecryption Consumed) (dual_past_secrets d)\<rparr>"
      and res: "res = outcome.Ok k"
      using run fk by (auto simp: dual_open_head_def Let_def)
    note i = dual_insert_head [OF inv fk _ d', simplified]
    have "\<not> dual_available d' (dual_gen d)"
      using i(2) d' DualUseRatchet_invD(2) [OF inv] by (simp add: dual_available_def btm_simps)
    then show ?thesis using i res by simp
  next
    case (Err e)
    then show ?thesis
      using f run inv dual_forward_Err [of p c d r e] by (auto simp: dual_open_head_def Let_def dual_shrinks_refl)
  qed (use f run np in \<open>auto simp: dual_open_head_def Let_def\<close>)
qed

lemma prune_past_secrets_shrinks:
  "DualUseRatchet_inv p c s d \<Longrightarrow> dual_shrinks p c s d (prune_past_secrets cfg d)"
  unfolding prune_past_secrets_def Let_def by (rule dual_remove_all [OF _ refl])

definition dual_opens ::
    "'a provider_scheme \<Rightarrow> Ciphersuite \<Rightarrow> Secret \<Rightarrow> Generation \<Rightarrow> DualUseRatchet \<Rightarrow>
     DualUseRatchet \<Rightarrow> (RatchetKeyMaterial, SecretTreeError) outcome \<Rightarrow> bool" where
  "dual_opens p c s n d d' res \<longleftrightarrow> dual_shrinks p c s d d' \<and>
     (\<forall>k. res = Ok k \<longrightarrow> key_at p c s n = Some k \<and> dual_available d n \<and> \<not> dual_available d' n)"

lemma dual_opens_prune:
  assumes "dual_opens p c s n d d' (Ok k)"
  shows "dual_opens p c s n d (prune_past_secrets cfg d') (Ok k)"
  using assms prune_past_secrets_shrinks [of p c s d' cfg]
  by (auto simp: dual_opens_def dual_shrinks_def)

lemma dual_opens_forward:
  assumes inv: "DualUseRatchet_inv p c s d" and ge: "dual_gen d \<le> n"
    and run: "try_then (dual_skip_forward p c (n - dual_gen d) (dual_gen d) d)
      (\<lambda>d _. dual_open_head p c n d) = (d', res)" and np: "res \<noteq> Panic"
  shows "dual_opens p c s n d d' res"
proof -
  obtain d1 r1 where skip: "dual_skip_forward p c (n - dual_gen d) (dual_gen d) d = (d1, r1)" by fastforce
  show ?thesis
  proof (cases r1)
    case (Ok u)
    then have s: "dual_shrinks p c s d d1" "dual_gen d1 = n"
      using dual_skip_forward_effect [OF skip _ inv] ge by auto
    have "dual_open_head p c (dual_gen d1) d1 = (d', res)" using run skip Ok s(2) by simp
    moreover have "DualUseRatchet_inv p c s d1" using s(1) by (simp add: dual_shrinks_def)
    moreover have "dual_available d n" using ge by (simp add: dual_available_def)
    ultimately show ?thesis
      using dual_open_head_effect [OF _ _ np] dual_shrinks_trans [OF s(1)] s(2)
      unfolding dual_opens_def by blast
  next
    case (Err e)
    then show ?thesis
      using run skip dual_skip_forward_effect [OF skip _ inv] by (auto simp: dual_opens_def)
  qed (use run skip np in auto)
qed

lemma dual_opens_past:
  assumes inv: "DualUseRatchet_inv p c s d" and get: "btm_get (dual_past_secrets d) n = Some e0"
    and take: "take_for_decryption e0 = (e, res)"
  shows "dual_opens p c s n d (d\<lparr>dual_past_secrets := btm_insert n e (dual_past_secrets d)\<rparr>) res"
proof -
  have e: "entry_key e = None" "\<And>k. res = Ok k \<Longrightarrow> entry_key e0 = Some k"
    using take by (cases e0 rule: entry_key.cases; auto)+
  show ?thesis
    using dual_update_entry [OF inv get refl e(1)] e(2) DualUseRatchet_invD(4) [OF inv get] get
    unfolding dual_opens_def dual_available_def by blast
qed

lemma dual_secret_for_decryption_effect:
  assumes inv: "DualUseRatchet_inv p c s d"
    and run: "DualUseRatchet_secret_for_decryption p c n cfg d = (d', res)" and np: "res \<noteq> Panic"
  shows "dual_opens p c s n d d' res"
proof (cases "too_distant_in_the_future (dual_gen d) n cfg")
  case True
  then show ?thesis
    using run inv by (auto simp: DualUseRatchet_secret_for_decryption_def Let_def dual_opens_def dual_shrinks_refl)
next
  case False
  define m where "m = (if n \<ge> dual_gen d then
      try_then (dual_skip_forward p c (n - dual_gen d) (dual_gen d) d) (\<lambda>d _. dual_open_head p c n d)
    else case btm_get (dual_past_secrets d) n of
      None \<Rightarrow> (d, Err (error_for_missing_past_secret d n))
    | Some entry \<Rightarrow> let (entry', res) = take_for_decryption entry in
        (d\<lparr>dual_past_secrets := btm_insert n entry' (dual_past_secrets d)\<rparr>, res))"
  have run': "try_then m (\<lambda>d key_material. (prune_past_secrets cfg d, Ok key_material)) = (d', res)"
    using run False unfolding DualUseRatchet_secret_for_decryption_def Let_def m_def by simp
  obtain d1 r1 where m: "m = (d1, r1)" by fastforce
  have "r1 \<noteq> Panic" using run' m np by auto
  have "dual_opens p c s n d d1 r1"
  proof (cases "n \<ge> dual_gen d")
    case True
    then show ?thesis using dual_opens_forward [OF inv True] m \<open>r1 \<noteq> Panic\<close> by (simp add: m_def)
  next
    case False
    then show ?thesis
      using m dual_opens_past [OF inv] inv
      by (auto simp: m_def dual_opens_def dual_shrinks_refl split: option.splits prod.splits)
  qed
  then show ?thesis
    using run' m \<open>r1 \<noteq> Panic\<close> dual_opens_prune [of p c s n d d1 _ cfg] by (cases r1) auto
qed

text \<open>The operations on the dual-use ratchet; again a run goes on after a panic from the state before it.\<close>

datatype dual_op =
    DualEncrypt | DualDecrypt Generation SenderRatchetConfiguration | DualDelete Generation

fun dual_step :: "'a provider_scheme \<Rightarrow> Ciphersuite \<Rightarrow> dual_op \<Rightarrow> DualUseRatchet \<Rightarrow> DualUseRatchet" where
  "dual_step p c DualEncrypt d =
     (case DualUseRatchet_secret_for_encryption p c d of (d', Panic) \<Rightarrow> d | (d', _) \<Rightarrow> d')"
| "dual_step p c (DualDecrypt n cfg) d =
     (case DualUseRatchet_secret_for_decryption p c n cfg d of (d', Panic) \<Rightarrow> d | (d', _) \<Rightarrow> d')"
| "dual_step p c (DualDelete n) d = delete_secret_for_generation n d"

fun dual_opened :: "'a provider_scheme \<Rightarrow> Ciphersuite \<Rightarrow> dual_op \<Rightarrow> DualUseRatchet \<Rightarrow> Generation option" where
  "dual_opened p c (DualDecrypt n cfg) d =
     (case DualUseRatchet_secret_for_decryption p c n cfg d of (_, Ok _) \<Rightarrow> Some n | _ \<Rightarrow> None)"
| "dual_opened p c _ d = None"

fun dual_sent :: "'a provider_scheme \<Rightarrow> Ciphersuite \<Rightarrow> dual_op \<Rightarrow> DualUseRatchet \<Rightarrow> Generation option" where
  "dual_sent p c DualEncrypt d =
     (case DualUseRatchet_secret_for_encryption p c d of (_, Ok (g, _)) \<Rightarrow> Some g | _ \<Rightarrow> None)"
| "dual_sent p c _ d = None"

lemma dual_encrypt_effect:
  assumes inv: "DualUseRatchet_inv p c s d"
    and run: "DualUseRatchet_secret_for_encryption p c d = (d', res)" and np: "res \<noteq> Panic"
  shows "dual_shrinks p c s d d'"
    "res = Ok (g, k) \<Longrightarrow> g = dual_gen d \<and> dual_gen d' = Suc g \<and> key_at p c s g = Some k"
    "res = Err e \<Longrightarrow> d' = d"
proof -
  obtain r out where f: "ratchet_forward p c (dual_ratchet_head d) = (r, out)" by fastforce
  have "dual_shrinks p c s d d' \<and>
    (\<forall>g k. res = Ok (g, k) \<longrightarrow> g = dual_gen d \<and> dual_gen d' = Suc g \<and> key_at p c s g = Some k) \<and>
    (\<forall>e. res = Err e \<longrightarrow> d' = d)"
  proof (cases out)
    case (Ok x)
    obtain g k where "x = (g, k)" by (cases x)
    with f Ok have fk: "ratchet_forward p c (dual_ratchet_head d) = (r, outcome.Ok (g, k))" by simp
    have d': "d' = d\<lparr>dual_ratchet_head := r, dual_past_secrets :=
        btm_insert (dual_gen d) (AwaitingConfirmation k) (dual_past_secrets d)\<rparr>"
      and "res = outcome.Ok (dual_gen d, k)"
      using run fk by (auto simp: DualUseRatchet_secret_for_encryption_def Let_def)
    then show ?thesis using dual_insert_head [OF inv fk _ d', simplified] by simp
  next
    case (Err e)
    then show ?thesis
      using f run inv dual_forward_Err [of p c d r e]
      by (auto simp: DualUseRatchet_secret_for_encryption_def Let_def dual_shrinks_refl)
  qed (use f run np in \<open>auto simp: DualUseRatchet_secret_for_encryption_def Let_def\<close>)
  then show "dual_shrinks p c s d d'"
    "res = Ok (g, k) \<Longrightarrow> g = dual_gen d \<and> dual_gen d' = Suc g \<and> key_at p c s g = Some k"
    "res = Err e \<Longrightarrow> d' = d" by blast+
qed

lemma delete_secret_shrinks:
  assumes "DualUseRatchet_inv p c s d"
  shows "dual_shrinks p c s d (delete_secret_for_generation n d)"
  using assms dual_remove_all [OF assms, of _ "[n]"] dual_shrinks_refl
  by (auto simp: delete_secret_for_generation_def split: option.split DualUsePastSecret.split)

lemma dual_step_shrinks:
  assumes inv: "DualUseRatchet_inv p c s d"
  shows "dual_shrinks p c s d (dual_step p c op d)"
proof (cases op)
  case DualEncrypt
  obtain d' res where r: "DualUseRatchet_secret_for_encryption p c d = (d', res)" by fastforce
  show ?thesis
    using DualEncrypt r dual_encrypt_effect(1) [OF inv r] dual_shrinks_refl [OF inv] by (cases res) auto
next
  case (DualDecrypt n cfg)
  obtain d' res where r: "DualUseRatchet_secret_for_decryption p c n cfg d = (d', res)" by fastforce
  show ?thesis
    using DualDecrypt r dual_secret_for_decryption_effect [OF inv r] dual_shrinks_refl [OF inv]
    by (cases res) (auto simp: dual_opens_def)
qed (use delete_secret_shrinks [OF inv] in auto)

lemma dual_opened_effect:
  assumes inv: "DualUseRatchet_inv p c s d" and o: "dual_opened p c op d = Some m"
  shows "dual_available d m" "\<not> dual_available (dual_step p c op d) m"
proof -
  obtain cfg where op: "op = DualDecrypt m cfg" using o by (cases op) (auto split: prod.splits outcome.splits)
  obtain d' res where r: "DualUseRatchet_secret_for_decryption p c m cfg d = (d', res)" by fastforce
  then obtain k where k: "res = Ok k" using o op by (auto split: outcome.splits)
  show "dual_available d m" "\<not> dual_available (dual_step p c op d) m"
    using dual_secret_for_decryption_effect [OF inv r] k r op by (auto simp: dual_opens_def)
qed

interpretation du: one_time_keys "dual_step p c" "dual_opened p c" dual_available
  "DualUseRatchet_inv p c s" for p :: "'a provider_scheme" and c s
proof unfold_locales
  fix d op m
  assume inv: "DualUseRatchet_inv p c s d"
  show "DualUseRatchet_inv p c s (dual_step p c op d)"
    using dual_step_shrinks [OF inv] by (simp add: dual_shrinks_def)
  show "dual_available (dual_step p c op d) m \<Longrightarrow> dual_available d m"
    using dual_step_shrinks [OF inv] by (simp add: dual_shrinks_def)
  show "dual_available d m" "\<not> dual_available (dual_step p c op d) m" if "dual_opened p c op d = Some m"
    using dual_opened_effect [OF inv that] by simp_all
qed

text \<open>Generations handed out for sending keep the same contract, with what the head has not passed available.\<close>

lemma dual_sent_effect:
  assumes inv: "DualUseRatchet_inv p c s d" and o: "dual_sent p c op d = Some m"
  shows "dual_gen d = m" "dual_gen (dual_step p c op d) = Suc m"
proof -
  have op: "op = DualEncrypt" using o by (cases op) auto
  obtain d' res where r: "DualUseRatchet_secret_for_encryption p c d = (d', res)" by fastforce
  then obtain k where k: "res = Ok (m, k)" using o op by (auto split: outcome.splits)
  show "dual_gen d = m" "dual_gen (dual_step p c op d) = Suc m"
    using dual_encrypt_effect(2) [OF inv r _ k] k r op by auto
qed

interpretation ds: one_time_keys "dual_step p c" "dual_sent p c" "\<lambda>d m. dual_gen d \<le> m"
  "DualUseRatchet_inv p c s" for p :: "'a provider_scheme" and c s
proof unfold_locales
  fix d op m
  assume inv: "DualUseRatchet_inv p c s d"
  show "DualUseRatchet_inv p c s (dual_step p c op d)"
    using dual_step_shrinks [OF inv] by (simp add: dual_shrinks_def)
  show "dual_gen (dual_step p c op d) \<le> m \<Longrightarrow> dual_gen d \<le> m"
    using dual_step_shrinks [OF inv, of op] by (simp add: dual_shrinks_def)
  show "dual_gen d \<le> m" "\<not> dual_gen (dual_step p c op d) \<le> m" if "dual_sent p c op d = Some m"
    using dual_sent_effect [OF inv that] by simp_all
qed

section \<open>Every branch of the decryption ratchet\<close>

lemma skip_forward_total:
  assumes "expand_total p" "head_gen d + n \<le> u32_MAX"
  shows "\<exists>d'. skip_forward p c n d = (d', Ok ()) \<and> head_gen d' = head_gen d + n"
  using assms(2)
proof (induction n arbitrary: d)
  case (Suc n)
  have "head_gen d < u32_MAX" using Suc.prems by simp
  from ratchet_forward_total [OF assms(1) this, of c]
  obtain s k where f: "ratchet_forward p c (ratchet_head d) =
    (\<lparr>rs_secret = s, rs_generation = Suc (head_gen d)\<rparr>, Ok (head_gen d, k))" by blast
  let ?d = "d\<lparr>ratchet_head := \<lparr>rs_secret = s, rs_generation = Suc (head_gen d)\<rparr>,
    past_secrets := Some k # past_secrets d\<rparr>"
  have "skip_forward p c (Suc n) d = skip_forward p c n ?d" using f by (simp add: Let_def)
  then show ?case using Suc.IH [of ?d] Suc.prems by simp
qed simp

lemma secret_for_decryption_total:
  assumes tot: "expand_total p" and n: "head_gen d \<le> n" "n \<le> u32_MAX"
    and fut: "\<not> too_distant_in_the_future (head_gen d) n cfg"
  shows "\<exists>d'. if n = u32_MAX
    then DecryptionRatchet_secret_for_decryption p c n cfg d = (d', Err RatchetTooLong) \<and> head_gen d' = n
    else \<exists>k. DecryptionRatchet_secret_for_decryption p c n cfg d = (d', Ok k) \<and> head_gen d' = Suc n \<and>
      length (past_secrets d') \<le> out_of_order_tolerance cfg"
proof -
  obtain d1 where skip: "skip_forward p c (n - head_gen d) d = (d1, Ok ())" and g: "head_gen d1 = n"
    using skip_forward_total [OF tot, of d "n - head_gen d" c] n by auto
  have past: "\<not> too_distant_in_the_past (head_gen d) n cfg"
    using n by (simp add: too_distant_in_the_past_def)
  have eq: "DecryptionRatchet_secret_for_decryption p c n cfg d = open_head p c cfg d1"
    using n fut past skip by (simp add: DecryptionRatchet_secret_for_decryption_def Let_def)
  show ?thesis
  proof (cases "n = u32_MAX")
    case True
    then show ?thesis using eq g by (simp add: open_head_def ratchet_forward_too_long)
  next
    case False
    then have "head_gen d1 < u32_MAX" using n g by simp
    from ratchet_forward_total [OF tot this, of c] eq g False show ?thesis
      by (auto simp: open_head_def)
  qed
qed

text \<open>
  The window of past keys as a history: with one tolerance, it has an entry for every generation that is
  tolerated, and the entry is empty exactly if the generation was opened.
\<close>

definition window_tracks :: "nat \<Rightarrow> Generation set \<Rightarrow> DecryptionRatchet \<Rightarrow> bool" where
  "window_tracks tolerance opened d \<longleftrightarrow> opened \<subseteq> {..<head_gen d} \<and>
     (\<forall>m < head_gen d. head_gen d \<le> m + tolerance \<longrightarrow>
        (\<exists>e. vec_get (past_secrets d) (head_gen d - m - 1) = Some e \<and> (e = None \<longleftrightarrow> m \<in> opened)))"

lemma window_tracks_new: "window_tracks tolerance {} (DecryptionRatchet_new s)"
  by (simp add: window_tracks_def DecryptionRatchet_new_def initial_ratchet_secret_def)

text \<open>Entries are pushed to the front: empty for the generations that were opened with it.\<close>

lemma window_tracks_push:
  assumes tracks: "window_tracks tolerance opened d" and head: "head_gen d' = head_gen d + length es"
    and past: "past_secrets d' = es @ past_secrets d \<or> past_secrets d' = take tolerance (es @ past_secrets d)"
    and new: "opened' = opened \<union> {m. head_gen d \<le> m \<and> m < head_gen d' \<and> es ! (head_gen d' - m - 1) = None}"
  shows "window_tracks tolerance opened' d'"
proof -
  have old: "m \<in> opened' \<longleftrightarrow> m \<in> opened" if "m < head_gen d" for m using that new by auto
  have fresh: "m \<notin> opened" if "head_gen d \<le> m" for m using that tracks by (auto simp: window_tracks_def)
  have get: "vec_get (past_secrets d') i = vec_get (es @ past_secrets d) i" if "i < tolerance" for i
    using past that by (auto simp: vec_get_take simp del: take_append)
  have "\<exists>e. vec_get (past_secrets d') (head_gen d' - m - 1) = Some e \<and> (e = None \<longleftrightarrow> m \<in> opened')"
    if m: "m < head_gen d'" "head_gen d' \<le> m + tolerance" for m
  proof (cases "m < head_gen d")
    case True
    then have "head_gen d' - m - 1 = length es + (head_gen d - m - 1)" using head by simp
    moreover obtain e where "vec_get (past_secrets d) (head_gen d - m - 1) = Some e" "e = None \<longleftrightarrow> m \<in> opened"
      using tracks True m head by (auto simp: window_tracks_def)
    ultimately show ?thesis using get [of "head_gen d' - m - 1"] m old [OF True] by (auto simp: vec_get_append)
  next
    case False
    then have "head_gen d' - m - 1 < length es" using head m by simp
    then show ?thesis using get [of "head_gen d' - m - 1"] m False fresh [of m] new by (auto simp: vec_get_append)
  qed
  then show ?thesis using tracks head new by (auto simp: window_tracks_def)
qed

lemma window_tracks_forward:
  assumes inv: "DecryptionRatchet_inv p c s d" and tracks: "window_tracks (out_of_order_tolerance cfg) opened d"
    and ge: "head_gen d \<le> n" and run: "DecryptionRatchet_secret_for_decryption p c n cfg d = (d', res)" and np: "res \<noteq> Panic"
  shows "window_tracks (out_of_order_tolerance cfg) (case res of Ok _ \<Rightarrow> insert n opened | _ \<Rightarrow> opened) d'"
proof (cases res)
  case (Ok k)
  then obtain ks where ks: "head_gen d' = Suc n" "length ks = n - head_gen d"
    "past_secrets d' = take (out_of_order_tolerance cfg) (None # map Some ks @ past_secrets d)"
    using secret_for_decryption_forward [OF inv ge run np] by auto
  have "(None # map Some ks) ! (head_gen d' - m - 1) = None \<longleftrightarrow> m = n" if "head_gen d \<le> m" "m < head_gen d'" for m
    using that ks(1,2) by (cases "m = n") (auto simp: nth_Cons')
  then have "insert n opened = opened \<union> {m. head_gen d \<le> m \<and> m < head_gen d' \<and> (None # map Some ks) ! (head_gen d' - m - 1) = None}"
    using ks(1) ge by auto
  with window_tracks_push [OF tracks, of d' "None # map Some ks"] ks ge Ok show ?thesis by simp
next
  case (Err e)
  then obtain ks where ks: "past_secrets d' = map Some ks @ past_secrets d" "head_gen d' = head_gen d + length ks"
    using secret_for_decryption_forward [OF inv ge run np] by auto
  have "opened = opened \<union> {m. head_gen d \<le> m \<and> m < head_gen d' \<and> map Some ks ! (head_gen d' - m - 1) = None}"
    using ks(2) by auto
  with window_tracks_push [OF tracks, of d' "map Some ks"] ks Err show ?thesis by simp
qed (use np in simp)

lemma window_tracks_past:
  assumes tracks: "window_tracks (out_of_order_tolerance cfg) opened d" and lt: "n < head_gen d"
    and h: "head_gen d \<le> u32_MAX" and tol: "out_of_order_tolerance cfg < 2 ^ 31"
  shows "if head_gen d > n + out_of_order_tolerance cfg
      then DecryptionRatchet_secret_for_decryption p c n cfg d = (d, Err TooDistantInThePast)
    else if n \<in> opened then DecryptionRatchet_secret_for_decryption p c n cfg d = (d, Err SecretReuseError)
    else \<exists>d' k. DecryptionRatchet_secret_for_decryption p c n cfg d = (d', Ok k) \<and> head_gen d' = head_gen d \<and>
      window_tracks (out_of_order_tolerance cfg) (insert n opened) d'"
proof (cases "head_gen d > n + out_of_order_tolerance cfg")
  case True
  then have "out_of_order_tolerance cfg < head_gen d - n" by simp
  with True show ?thesis using secret_for_decryption_past [OF lt h, of p c cfg] by (simp only: Let_def if_True)
next
  case False
  let ?i = "head_gen d - n - 1"
  obtain e where e: "vec_get (past_secrets d) ?i = Some e" "e = None \<longleftrightarrow> n \<in> opened"
    using tracks lt False by (auto simp: window_tracks_def)
  have eq: "DecryptionRatchet_secret_for_decryption p c n cfg d =
      (case e of None \<Rightarrow> (d, Err SecretReuseError)
       | Some k \<Rightarrow> (d\<lparr>past_secrets := (past_secrets d)[?i := None]\<rparr>, Ok k))"
    using secret_for_decryption_past [OF lt h, of p c cfg] False tol e(1) lt by (simp add: Let_def split: option.splits)
  have "?i = head_gen d - m - 1 \<longleftrightarrow> m = n" if "m < head_gen d" for m using that lt by auto
  then have "window_tracks (out_of_order_tolerance cfg) (insert n opened) (d\<lparr>past_secrets := (past_secrets d)[?i := None]\<rparr>)"
    using tracks e(1) lt by (auto simp: window_tracks_def vec_get_list_update)
  then show ?thesis using eq e(2) False by (cases e) auto
qed

lemma window_tracks_step:
  assumes inv: "DecryptionRatchet_inv p c s d" and tracks: "window_tracks tolerance opened d"
    and tol: "out_of_order_tolerance (snd req) = tolerance" "tolerance < 2 ^ 31"
  shows "window_tracks tolerance (opened \<union> set_option (decryption_opened p c req d)) (decryption_step p c req d)"
proof -
  obtain n cfg where req: "req = (n, cfg)" by (cases req)
  obtain d' res where run: "DecryptionRatchet_secret_for_decryption p c n cfg d = (d', res)" by fastforce
  have h: "head_gen d \<le> u32_MAX" using inv by (simp add: DecryptionRatchet_inv_def)
  show ?thesis
  proof (cases "head_gen d \<le> n")
    case True
    show ?thesis
      using window_tracks_forward [OF inv _ True run, of opened] tracks tol req run
      by (cases res) (auto simp: decryption_step_def decryption_opened_def)
  next
    case False
    then show ?thesis
      using window_tracks_past [of cfg opened d n p c] tracks tol req h
      by (auto simp: decryption_step_def decryption_opened_def split: if_splits)
  qed
qed

text \<open>The head follows the newest generation that was opened, as long as the last one is not asked for.\<close>

definition after_newest :: "Generation set \<Rightarrow> Generation \<Rightarrow> bool" where
  "after_newest opened h \<longleftrightarrow> finite opened \<and> h = (if opened = {} then 0 else Suc (Max opened))"

lemma after_newest_insert: "after_newest opened h \<Longrightarrow> after_newest (insert n opened) (max h (Suc n))"
  by (cases "opened = {}") (simp_all add: after_newest_def max.commute)

lemma after_newest_new: "after_newest {} (head_gen (DecryptionRatchet_new s))"
  by (simp add: after_newest_def DecryptionRatchet_new_def initial_ratchet_secret_def)

text \<open>The outcome of a request, by what was opened.\<close>

lemma decryption_outcome:
  assumes tot: "expand_total p" and inv: "DecryptionRatchet_inv p c s d"
    and tracks: "window_tracks (out_of_order_tolerance cfg) opened d"
    and tol: "out_of_order_tolerance cfg < 2 ^ 31" and n: "n \<le> u32_MAX"
  shows "let res = DecryptionRatchet_secret_for_decryption p c n cfg d in
      if head_gen d + maximum_forward_distance cfg < n \<and> head_gen d + maximum_forward_distance cfg < u32_MAX
        then res = (d, Err TooDistantInTheFuture)
      else if n + out_of_order_tolerance cfg < head_gen d then res = (d, Err TooDistantInThePast)
      else if n \<in> opened then res = (d, Err SecretReuseError)
      else if n = u32_MAX then \<exists>d'. res = (d', Err RatchetTooLong) \<and> head_gen d' = n
      else \<exists>d' k. res = (d', Ok k) \<and> key_at p c s n = Some k \<and> head_gen d' = max (head_gen d) (Suc n)"
proof -
  have fut: "too_distant_in_the_future (head_gen d) n cfg \<longleftrightarrow>
      head_gen d + maximum_forward_distance cfg < n \<and> head_gen d + maximum_forward_distance cfg < u32_MAX"
    by (auto simp: too_distant_in_the_future_def)
  have h: "head_gen d \<le> u32_MAX" using inv by (simp add: DecryptionRatchet_inv_def)
  have key: "key_at p c s n = Some k" if "DecryptionRatchet_secret_for_decryption p c n cfg d = (d', Ok k)" for d' k
    using secret_for_decryption_effect [OF inv that] by (simp add: opens_key_def)
  show ?thesis
  proof (cases "head_gen d \<le> n")
    case True
    then have "n \<notin> opened" using tracks by (auto simp: window_tracks_def)
    then show ?thesis
      using True fut key secret_for_decryption_total [OF tot True n, of cfg c]
      by (auto simp: Let_def DecryptionRatchet_secret_for_decryption_def [of _ _ _ cfg] split: if_splits)
  next
    case False
    then have lt: "n < head_gen d" by simp
    show ?thesis
      using window_tracks_past [OF tracks lt h tol, of p c] key lt h
      by (auto simp: Let_def split: if_splits)
  qed
qed

lemma set_run_opened_Cons:
  "set (run_opened step opened (op # ops) s) = set_option (opened op s) \<union> set (run_opened step opened ops (step op s))"
  by (cases "opened op s") simp_all

lemma window_tracks_run:
  assumes "DecryptionRatchet_inv p c s d" "window_tracks tolerance opened d" "tolerance < 2 ^ 31"
    and "\<forall>req \<in> set requests. out_of_order_tolerance (snd req) = tolerance"
  shows "window_tracks tolerance (opened \<union> set (run_opened (decryption_step p c) (decryption_opened p c) requests d))
    (fold (decryption_step p c) requests d)"
  using assms
proof (induction requests arbitrary: d opened)
  case (Cons req requests)
  let ?o = "opened \<union> set_option (decryption_opened p c req d)"
  have "window_tracks tolerance ?o (decryption_step p c req d)"
    using window_tracks_step [OF Cons.prems(1,2)] Cons.prems(3,4) by simp
  from Cons.IH [OF dr.step_invar [OF Cons.prems(1)] this Cons.prems(3)] Cons.prems(4)
  show ?case unfolding set_run_opened_Cons by (simp del: run_opened.simps add: Un_assoc)
qed simp

lemma after_newest_step:
  assumes tot: "expand_total p" and inv: "DecryptionRatchet_inv p c s d"
    and tracks: "window_tracks tolerance opened d" and newest: "after_newest opened (head_gen d)"
    and req: "fst req < u32_MAX" "out_of_order_tolerance (snd req) = tolerance" "tolerance < 2 ^ 31"
  shows "after_newest (opened \<union> set_option (decryption_opened p c req d)) (head_gen (decryption_step p c req d))"
proof -
  obtain n cfg where n: "req = (n, cfg)" by (cases req)
  show ?thesis
    using decryption_outcome [OF tot inv, of cfg opened n] tracks req n newest after_newest_insert [OF newest, of n]
    by (auto simp: Let_def decryption_step_def decryption_opened_def split: if_splits)
qed

lemma after_newest_run:
  assumes tot: "expand_total p" and "DecryptionRatchet_inv p c s d" "window_tracks tolerance opened d" "after_newest opened (head_gen d)"
    and "tolerance < 2 ^ 31" "\<forall>req \<in> set requests. fst req < u32_MAX \<and> out_of_order_tolerance (snd req) = tolerance"
  shows "after_newest (opened \<union> set (run_opened (decryption_step p c) (decryption_opened p c) requests d))
    (head_gen (fold (decryption_step p c) requests d))"
  using assms(2-)
proof (induction requests arbitrary: d opened)
  case (Cons req requests)
  let ?o = "opened \<union> set_option (decryption_opened p c req d)"
  have "window_tracks tolerance ?o (decryption_step p c req d)"
    using window_tracks_step [OF Cons.prems(1,2)] Cons.prems(4,5) by simp
  moreover have "after_newest ?o (head_gen (decryption_step p c req d))"
    using after_newest_step [OF tot Cons.prems(1,2,3)] Cons.prems(4,5) by simp
  ultimately have "after_newest (?o \<union> set (run_opened (decryption_step p c) (decryption_opened p c) requests (decryption_step p c req d)))
      (head_gen (fold (decryption_step p c) requests (decryption_step p c req d)))"
    using Cons.IH [OF dr.step_invar [OF Cons.prems(1)]] Cons.prems(4,5) by simp
  then show ?case unfolding set_run_opened_Cons by (simp del: run_opened.simps add: Un_assoc)
qed simp

section \<open>Properties\<close>

text \<open>
  (C19) However the generations of a sender are requested from a decryption ratchet, with whatever
  configuration at each call, no generation is opened twice.
\<close>

theorem decryption_keys_once:
  "distinct (run_opened (decryption_step p c) (decryption_opened p c) requests (DecryptionRatchet_new s))"
  by (rule dr.run_distinct [OF DecryptionRatchet_inv_new])

text \<open>
  (C20) The receiver derives the sender's key: whatever was requested before, the key that a
  decryption ratchet returns for a generation is the one that the sender's ratchet, started from the
  same secret, returns as its output of that generation.
\<close>

theorem receiver_key_is_senders:
  assumes "DecryptionRatchet_secret_for_decryption p c n cfg
      (fold (decryption_step p c) requests (DecryptionRatchet_new s)) = (d, Ok k)"
  shows "\<exists>r r'. ratchet_iter p c (initial_ratchet_secret s) n = Some r \<and>
    ratchet_forward p c r = (r', Ok (n, k))"
proof -
  have "key_at p c s n = Some k"
    using secret_for_decryption_effect [OF dr.run_invar [OF DecryptionRatchet_inv_new] assms]
    by (simp add: opens_key_def)
  then obtain r r' g where r: "ratchet_iter p c (initial_ratchet_secret s) n = Some r"
    "ratchet_forward p c r = (r', Ok (g, k))"
    by (auto simp: key_at_def split: option.splits outcome.splits prod.splits)
  then show ?thesis using ratchet_forward_Ok(1) [OF r(2)] ratchet_iter_generation [OF r(1)]
    by (auto simp: initial_ratchet_secret_def)
qed

text \<open>The provider of zeros, for examples: the key of every generation.\<close>

definition zero_key :: "Ciphersuite \<Rightarrow> RatchetKeyMaterial" where
  "zero_key c = (\<lparr>aead_mode = aead_algorithm c, aead_value = replicate (aead_key_length c) 0\<rparr>,
     AeadNonce (replicate 12 0))"

lemma zero_ratchet_forward:
  assumes "g < u32_MAX"
  shows "ratchet_forward zero_provider c \<lparr>rs_secret = s, rs_generation = g\<rparr> =
    (\<lparr>rs_secret = Secret (replicate (hash_length c) 0), rs_generation = Suc g\<rparr>, Ok (g, zero_key c))"
proof -
  have "Secret_kdf_expand_label s zero_provider c l ctx n = Ok (Secret (replicate n 0))"
    if "0 < n" "n \<le> 65535" for s l ctx n
    using that by (auto simp: Secret_kdf_expand_label_def KdfLabel_serialized_label_def
        Secret_hkdf_expand_def zero_provider_def)
  moreover have "0 < aead_key_length c" "aead_key_length c \<le> 65535" "0 < hash_length c" "hash_length c \<le> 65535"
    using aead_key_length_bounds [of c] hash_length_bounds [of c] by auto
  ultimately show ?thesis
    using assms by (simp add: ratchet_forward_def Let_def derive_tree_secret_def AeadNonce_from_secret_def
        NONCE_BYTES_def u32_MAX_def AeadKey_from_secret_def zero_key_def)
qed

lemma zero_first_key:
  "\<exists>d. DecryptionRatchet_secret_for_decryption zero_provider suite1 0 SenderRatchetConfiguration_default
     (DecryptionRatchet_new (Secret [])) = (d, Ok (zero_key suite1))"
  using zero_ratchet_forward [of 0 suite1 "Secret []"]
  by (simp add: DecryptionRatchet_secret_for_decryption_def DecryptionRatchet_new_def
      initial_ratchet_secret_def too_distant_in_the_future_def too_distant_in_the_past_def Let_def
      open_head_def u32_MAX_def)

theorem receiver_key_is_senders_witness:
  "\<exists>r r'. ratchet_iter zero_provider suite1 (initial_ratchet_secret (Secret [])) 0 = Some r \<and>
     ratchet_forward zero_provider suite1 r = (r', Ok (0, zero_key suite1))"
  using zero_first_key receiver_key_is_senders
    [of zero_provider suite1 0 SenderRatchetConfiguration_default "[]" "Secret []" _ "zero_key suite1"]
  by auto

text \<open>
  (C21) Which outcome a request for a generation has, told by the requests before it, if they had the same
  tolerance. A generation further ahead of the head than the forward distance is refused, unless the
  distance reaches past the last generation of \<open>u32\<close>, and so is one further behind it than the tolerance;
  neither changes the ratchet. A generation that was opened before is reported as reused. The last
  generation of \<open>u32\<close> is never opened. Every other one is opened with the key of its place on the chain,
  and the head is then past it. The head is just past the newest generation that was opened, if the last
  one was not asked for. An index is never out of bounds.
\<close>

theorem decryption_ratchet_outcomes:
  assumes "expand_total p" "n \<le> u32_MAX" "out_of_order_tolerance cfg < 2 ^ 31"
    and "\<forall>req \<in> set requests. fst req \<le> u32_MAX \<and> out_of_order_tolerance (snd req) = out_of_order_tolerance cfg"
    and "d = fold (decryption_step p c) requests (DecryptionRatchet_new s)"
    and "opened = set (run_opened (decryption_step p c) (decryption_opened p c) requests (DecryptionRatchet_new s))"
  shows "(let res = DecryptionRatchet_secret_for_decryption p c n cfg d in
      if head_gen d + maximum_forward_distance cfg < n \<and> head_gen d + maximum_forward_distance cfg < u32_MAX
        then res = (d, Err TooDistantInTheFuture)
      else if n + out_of_order_tolerance cfg < head_gen d then res = (d, Err TooDistantInThePast)
      else if n \<in> opened then res = (d, Err SecretReuseError)
      else if n = u32_MAX then \<exists>d'. res = (d', Err RatchetTooLong) \<and> head_gen d' = n
      else \<exists>d' k. res = (d', Ok k) \<and> key_at p c s n = Some k \<and> head_gen d' = max (head_gen d) (Suc n)) \<and>
    ((\<forall>req \<in> set requests. fst req \<noteq> u32_MAX) \<longrightarrow> head_gen d = (if opened = {} then 0 else Suc (Max opened)))"
proof -
  let ?run = "run_opened (decryption_step p c) (decryption_opened p c) requests (DecryptionRatchet_new s)"
  have inv: "DecryptionRatchet_inv p c s d" unfolding assms(5) by (rule dr.run_invar [OF DecryptionRatchet_inv_new])
  have tracks: "window_tracks (out_of_order_tolerance cfg) opened d"
    using window_tracks_run [OF DecryptionRatchet_inv_new window_tracks_new, where requests = requests and tolerance = "out_of_order_tolerance cfg" and p = p and c = c and s = s] assms(3-6) by simp
  have "head_gen d = (if opened = {} then 0 else Suc (Max opened))" if "\<forall>req \<in> set requests. fst req \<noteq> u32_MAX"
    using after_newest_run [OF assms(1) DecryptionRatchet_inv_new window_tracks_new after_newest_new, where requests = requests and tolerance = "out_of_order_tolerance cfg" and c = c and s = s]
      assms(3-6) that by (auto simp: after_newest_def le_neq_implies_less)
  then show ?thesis using decryption_outcome [OF assms(1) inv tracks assms(3,2)] by simp
qed

text \<open>Two requests for examples: the second is for a skipped generation.\<close>

lemma sample_opened:
  "set (run_opened (decryption_step zero_provider suite1) (decryption_opened zero_provider suite1)
     [(3, SenderRatchetConfiguration_default), (1, SenderRatchetConfiguration_default)] (DecryptionRatchet_new (Secret []))) = {1, 3}"
proof -
  let ?c = SenderRatchetConfiguration_default and ?d = "DecryptionRatchet_new (Secret [])"
  have tol: "out_of_order_tolerance ?c = 5" "maximum_forward_distance ?c = 1000"
    by (simp_all add: SenderRatchetConfiguration_default_def SenderRatchetConfiguration_new_def)
  have h: "head_gen ?d = 0" by (simp add: DecryptionRatchet_new_def initial_ratchet_secret_def)
  note out = decryption_outcome [OF zero_provider_laws(4), where cfg = ?c, unfolded tol Let_def]
  obtain d k where d: "DecryptionRatchet_secret_for_decryption zero_provider suite1 3 ?c ?d = (d, Ok k)" "head_gen d = 4"
    using out [OF DecryptionRatchet_inv_new window_tracks_new, where n = 3 and c = suite1 and s = "Secret []"] h by (auto simp: u32_MAX_def)
  then have step: "decryption_opened zero_provider suite1 (3, ?c) ?d = Some 3" "decryption_step zero_provider suite1 (3, ?c) ?d = d"
    by (simp_all add: decryption_opened_def decryption_step_def)
  have "window_tracks 5 {3} d" "DecryptionRatchet_inv zero_provider suite1 (Secret []) d"
    using window_tracks_step [OF DecryptionRatchet_inv_new [of zero_provider suite1 "Secret []"] window_tracks_new, of "(3, ?c)" 5]
      dr.step_invar [OF DecryptionRatchet_inv_new [of zero_provider suite1 "Secret []"], of "(3, ?c)"] step tol by simp_all
  then obtain d' k' where "DecryptionRatchet_secret_for_decryption zero_provider suite1 1 ?c d = (d', Ok k')"
    using out [where c = suite1 and s = "Secret []" and d = d and opened = "{3}" and n = 1] d(2) by (auto simp: u32_MAX_def)
  then have "decryption_opened zero_provider suite1 (1, ?c) d = Some 1" by (simp add: decryption_opened_def)
  then show ?thesis using step by auto
qed

theorem decryption_ratchet_outcomes_witness:
  "let d = fold (decryption_step zero_provider suite1) [(3, SenderRatchetConfiguration_default), (1, SenderRatchetConfiguration_default)]
       (DecryptionRatchet_new (Secret []));
     request = (\<lambda>n. DecryptionRatchet_secret_for_decryption zero_provider suite1 n SenderRatchetConfiguration_default d) in
   head_gen d = 4 \<and> request 1 = (d, Err SecretReuseError) \<and> request 3 = (d, Err SecretReuseError) \<and>
   request 1005 = (d, Err TooDistantInTheFuture) \<and> (\<exists>d' k. request 2 = (d', Ok k) \<and> head_gen d' = 4) \<and>
   (\<exists>d' k. request 1004 = (d', Ok k) \<and> head_gen d' = 1005)"
proof -
  let ?c = SenderRatchetConfiguration_default
  let ?reqs = "[(3, ?c), (1, ?c)]" and ?new = "DecryptionRatchet_new (Secret [])"
  let ?d = "fold (decryption_step zero_provider suite1) ?reqs ?new"
  let ?o = "run_opened (decryption_step zero_provider suite1) (decryption_opened zero_provider suite1) ?reqs ?new"
  have tol: "out_of_order_tolerance ?c = 5" "maximum_forward_distance ?c = 1000"
    by (simp_all add: SenderRatchetConfiguration_default_def SenderRatchetConfiguration_new_def)
  have o: "set ?o = {1, 3}" by (rule sample_opened)
  have r: "\<forall>req \<in> set ?reqs. fst req \<le> u32_MAX \<and> out_of_order_tolerance (snd req) = out_of_order_tolerance ?c"
    by (simp add: u32_MAX_def)
  note out = decryption_ratchet_outcomes [OF zero_provider_laws(4) _ _ r refl o [symmetric], unfolded tol Let_def]
  have h: "head_gen ?d = 4" using out [of 0] by (simp add: u32_MAX_def del: fold_simps)
  show ?thesis
    using h out [of 1] out [of 2] out [of 3] out [of 1004] out [of 1005]
    unfolding Let_def by (simp add: u32_MAX_def del: fold_simps) blast
qed

text \<open>
  (C22) In every run of a dual-use ratchet, with sending, receiving and confirming interleaved in
  any order, no generation is opened for decryption twice and no generation is used for sending
  twice.
\<close>

theorem dual_use_keys_once:
  "distinct (run_opened (dual_step p c) (dual_opened p c) ops (DualUseRatchet_new s)) \<and>
   distinct (run_opened (dual_step p c) (dual_sent p c) ops (DualUseRatchet_new s))"
  using du.run_distinct [OF DualUseRatchet_inv_new] ds.run_distinct [OF DualUseRatchet_inv_new] by blast

end
