(* ===== verification/SecretTree.thy ===== *)
theory SecretTree
  imports SenderRatchet
begin

text \<open>
  The secret tree of an epoch (\<open>tree/secret_tree.rs\<close>): the encryption secret at the root
  is expanded down to a leaf when the leaf's ratchets are first needed, and every secret on the way is
  deleted once its children are derived.

  \<open>vc\<close> says whether the feature \<open>virtual-clients-draft\<close> is on.
\<close>

section \<open>The secret tree\<close>

datatype SecretType = HandshakeSecret | ApplicationSecret

definition derive_child_secrets ::
    "Secret \<Rightarrow> 'a provider_scheme \<Rightarrow> Ciphersuite \<Rightarrow> (Secret \<times> Secret, CryptoError) outcome" where
  "derive_child_secrets parent_secret p c =
     outcome_bind (Secret_kdf_expand_label parent_secret p c ''tree'' (str_bytes ''left'') (hash_length c))
       (\<lambda>left_child.
     outcome_bind (Secret_kdf_expand_label parent_secret p c ''tree'' (str_bytes ''right'') (hash_length c))
       (\<lambda>right_child. Ok (left_child, right_child)))"

lemma all_SecretType: "(\<forall>ty. P ty) \<longleftrightarrow> P HandshakeSecret \<and> P ApplicationSecret"
  by (metis SecretType.exhaust)

record SecretTree =
  own_index :: LeafNodeIndex
  st_leaf_nodes :: "Secret option list"
  st_parent_nodes :: "Secret option list"
  handshake_sender_ratchets :: "SenderRatchet option list"
  application_sender_ratchets :: "SenderRatchet option list"
  st_size :: TreeSize

fun get_node :: "SecretTree \<Rightarrow> TreeNodeIndex \<Rightarrow> (Secret option, SecretTreeError) outcome" where
  "get_node t (Leaf leaf_index) = ok_or (vec_get (st_leaf_nodes t) leaf_index) IndexOutOfBounds"
| "get_node t (Parent parent_index) = ok_or (vec_get (st_parent_nodes t) parent_index) IndexOutOfBounds"

fun set_node ::
    "TreeNodeIndex \<Rightarrow> Secret option \<Rightarrow> SecretTree \<Rightarrow> SecretTree \<times> (unit, SecretTreeError) outcome" where
  "set_node (Leaf leaf_index) node t =
     (if leaf_index < length (st_leaf_nodes t)
      then (t\<lparr>st_leaf_nodes := (st_leaf_nodes t)[leaf_index := node]\<rparr>, Ok ())
      else (t, Err IndexOutOfBounds))"
| "set_node (Parent parent_index) node t =
     (if parent_index < length (st_parent_nodes t)
      then (t\<lparr>st_parent_nodes := (st_parent_nodes t)[parent_index := node]\<rparr>, Ok ())
      else (t, Err IndexOutOfBounds))"

definition SecretTree_new :: "Secret \<Rightarrow> TreeSize \<Rightarrow> LeafNodeIndex \<Rightarrow> SecretTree option" where
  "SecretTree_new encryption_secret sz own =
     (let leaf_count = TreeSize_leaf_count sz;
          t = \<lparr>own_index = own,
               st_leaf_nodes = replicate leaf_count None,
               st_parent_nodes = replicate leaf_count None,
               handshake_sender_ratchets = replicate leaf_count None,
               application_sender_ratchets = replicate leaf_count None,
               st_size = sz\<rparr> in
      do {
        r \<leftarrow> root sz;
        Some (fst (set_node r (Some encryption_secret) t)) })"

definition ratchets_of :: "SecretTree \<Rightarrow> SecretType \<Rightarrow> SenderRatchet option list" where
  "ratchets_of t secret_type =
     (case secret_type of
        HandshakeSecret \<Rightarrow> handshake_sender_ratchets t
      | ApplicationSecret \<Rightarrow> application_sender_ratchets t)"

definition ratchet_opt ::
    "SecretTree \<Rightarrow> LeafNodeIndex \<Rightarrow> SecretType \<Rightarrow> (SenderRatchet option, SecretTreeError) outcome" where
  "ratchet_opt t i secret_type = ok_or (vec_get (ratchets_of t secret_type) i) IndexOutOfBounds"

text \<open>
  \<open>ratchet_mut\<close> hands out a mutable reference; the caller's new ratchet is written back with
  \<open>put_ratchet\<close>.
\<close>

definition ratchet_mut ::
    "SecretTree \<Rightarrow> LeafNodeIndex \<Rightarrow> SecretType \<Rightarrow> (SenderRatchet, SecretTreeError) outcome" where
  "ratchet_mut t i secret_type =
     ok_or (Option.bind (vec_get (ratchets_of t secret_type) i) (\<lambda>r. r)) IndexOutOfBounds"

fun put_ratchet :: "LeafNodeIndex \<Rightarrow> SecretType \<Rightarrow> SenderRatchet \<Rightarrow> SecretTree \<Rightarrow> SecretTree" where
  "put_ratchet i HandshakeSecret r t =
     t\<lparr>handshake_sender_ratchets := (handshake_sender_ratchets t)[i := Some r]\<rparr>"
| "put_ratchet i ApplicationSecret r t =
     t\<lparr>application_sender_ratchets := (application_sender_ratchets t)[i := Some r]\<rparr>"

definition derive_down ::
    "'a provider_scheme \<Rightarrow> Ciphersuite \<Rightarrow> ParentNodeIndex \<Rightarrow> SecretTree \<Rightarrow>
     SecretTree \<times> (unit, SecretTreeError) outcome" where
  "derive_down p c i t =
     try_then (t, get_node t (Parent i)) (\<lambda>t node.
       case node of
         None \<Rightarrow> (t, Err SecretTreeLibraryError)
       | Some node_secret \<Rightarrow>
           try_then (t, or_panic (left i)) (\<lambda>t left_index.
           try_then (t, or_panic (right i)) (\<lambda>t right_index.
           try_then (t, map_err SecretTreeCryptoError (derive_child_secrets node_secret p c))
             (\<lambda>t (left_secret, right_secret).
           try_then (set_node left_index (Some left_secret) t) (\<lambda>t _.
           try_then (set_node right_index (Some right_secret) t) (\<lambda>t _.
           set_node (Parent i) None t))))))"

fun collect_empty_nodes ::
    "SecretTree \<Rightarrow> ParentNodeIndex list \<Rightarrow> (ParentNodeIndex list, SecretTreeError) outcome" where
  "collect_empty_nodes t [] = Ok []"
| "collect_empty_nodes t (i # path) =
     outcome_bind (get_node t (Parent i)) (\<lambda>node.
       if node \<noteq> None then Ok [i]
       else outcome_bind (collect_empty_nodes t path) (\<lambda>nodes. Ok (i # nodes)))"

text \<open>The ratchets of a leaf: own ratchets send, those of other members receive.\<close>

definition new_ratchets ::
    "bool \<Rightarrow> bool \<Rightarrow> Secret \<Rightarrow> Secret \<Rightarrow> SenderRatchet \<times> SenderRatchet" where
  "new_ratchets vc own handshake_ratchet_secret application_ratchet_secret =
     (if own then
        if vc then
          (DualUse (DualUseRatchet_new handshake_ratchet_secret),
           DualUse (DualUseRatchet_new application_ratchet_secret))
        else
          (EncryptionRatchet (initial_ratchet_secret handshake_ratchet_secret),
           EncryptionRatchet (initial_ratchet_secret application_ratchet_secret))
      else
        (DecryptionRatchetOf (DecryptionRatchet_new handshake_ratchet_secret),
         DecryptionRatchetOf (DecryptionRatchet_new application_ratchet_secret)))"

definition derive_to_leaf ::
    "'a provider_scheme \<Rightarrow> Ciphersuite \<Rightarrow> LeafNodeIndex \<Rightarrow> SecretTree \<Rightarrow>
     SecretTree \<times> (unit, SecretTreeError) outcome" where
  "derive_to_leaf p c i t =
     try_then (t, get_node t (Leaf i)) (\<lambda>t node.
       if node = None then
         try_then (t, or_panic (direct_path i (st_size t))) (\<lambda>t path.
         try_then (t, collect_empty_nodes t path) (\<lambda>t empty_nodes.
         for_each_try (derive_down p c) (rev empty_nodes) t))
       else (t, Ok ()))"

definition ratchets_from_leaf ::
    "bool \<Rightarrow> 'a provider_scheme \<Rightarrow> Ciphersuite \<Rightarrow> LeafNodeIndex \<Rightarrow> SecretTree \<Rightarrow>
     SecretTree \<times> (unit, SecretTreeError) outcome" where
  "ratchets_from_leaf vc p c i t =
     try_then (t, get_node t (Leaf i)) (\<lambda>t node.
       case node of
         None \<Rightarrow> (t, Err SecretTreeLibraryError)
       | Some node_secret \<Rightarrow>
           try_then (t, map_err SecretTreeCryptoError
             (Secret_kdf_expand_label node_secret p c ''handshake'' [] (hash_length c))) (\<lambda>t hs.
           try_then (t, map_err SecretTreeCryptoError
             (Secret_kdf_expand_label node_secret p c ''application'' [] (hash_length c))) (\<lambda>t as.
           let (handshake_sender_ratchet, application_sender_ratchet) =
             new_ratchets vc (i = own_index t) hs as in
           if i \<ge> length (handshake_sender_ratchets t) then (t, Err IndexOutOfBounds)
           else
             let t = put_ratchet i HandshakeSecret handshake_sender_ratchet t in
             if i \<ge> length (application_sender_ratchets t) then (t, Err IndexOutOfBounds)
             else
               let t = put_ratchet i ApplicationSecret application_sender_ratchet t in
               set_node (Leaf i) None t)))"

definition initialize_sender_ratchets ::
    "bool \<Rightarrow> 'a provider_scheme \<Rightarrow> Ciphersuite \<Rightarrow> LeafNodeIndex \<Rightarrow> SecretTree \<Rightarrow>
     SecretTree \<times> (unit, SecretTreeError) outcome" where
  "initialize_sender_ratchets vc p c i t =
     (if i \<ge> TreeSize_leaf_count (st_size t) then (t, Err IndexOutOfBounds)
      else
        try_then (t, ratchet_opt t i HandshakeSecret) (\<lambda>t hs.
        try_then (t, if hs \<noteq> None then ratchet_opt t i ApplicationSecret else Ok None) (\<lambda>t as.
          if hs \<noteq> None \<and> as \<noteq> None then (t, Ok ())
          else
            try_then (derive_to_leaf p c i t) (\<lambda>t _.
            ratchets_from_leaf vc p c i t))))"

definition SecretTree_secret_for_decryption ::
    "bool \<Rightarrow> 'a provider_scheme \<Rightarrow> Ciphersuite \<Rightarrow> LeafNodeIndex \<Rightarrow> SecretType \<Rightarrow> Generation \<Rightarrow>
     SenderRatchetConfiguration \<Rightarrow> SecretTree \<Rightarrow>
     SecretTree \<times> (RatchetKeyMaterial, SecretTreeError) outcome" where
  "SecretTree_secret_for_decryption vc p c i secret_type generation configuration t =
     (if i \<ge> TreeSize_leaf_count (st_size t) then (t, Err IndexOutOfBounds)
      else
        try_then (t, ratchet_opt t i secret_type) (\<lambda>t r.
        try_then (if r = None then initialize_sender_ratchets vc p c i t else (t, Ok ())) (\<lambda>t _.
        try_then (t, ratchet_mut t i secret_type) (\<lambda>t r.
          case r of
            EncryptionRatchet _ \<Rightarrow> (t, Err RatchetTypeError)
          | DecryptionRatchetOf d \<Rightarrow>
              let (d', res) = DecryptionRatchet_secret_for_decryption p c generation configuration d in
              (put_ratchet i secret_type (DecryptionRatchetOf d') t, res)
          | DualUse d \<Rightarrow>
              let (d', res) = DualUseRatchet_secret_for_decryption p c generation configuration d in
              (put_ratchet i secret_type (DualUse d') t, res)))))"

definition SecretTree_secret_for_encryption ::
    "bool \<Rightarrow> 'a provider_scheme \<Rightarrow> Ciphersuite \<Rightarrow> LeafNodeIndex \<Rightarrow> SecretType \<Rightarrow> SecretTree \<Rightarrow>
     SecretTree \<times> (Generation \<times> RatchetKeyMaterial, SecretTreeError) outcome" where
  "SecretTree_secret_for_encryption vc p c i secret_type t =
     try_then (t, ratchet_opt t i secret_type) (\<lambda>t r.
     try_then (if r = None then initialize_sender_ratchets vc p c i t else (t, Ok ())) (\<lambda>t _.
     try_then (t, ratchet_mut t i secret_type) (\<lambda>t r.
       case r of
         DecryptionRatchetOf _ \<Rightarrow> (t, Err RatchetTypeError)
       | EncryptionRatchet r \<Rightarrow>
           let (r', res) = ratchet_forward p c r in
           (put_ratchet i secret_type (EncryptionRatchet r') t, res)
       | DualUse d \<Rightarrow>
           let (d', res) = DualUseRatchet_secret_for_encryption p c d in
           (put_ratchet i secret_type (DualUse d') t, res))))"

definition delete_own_secret_for_generation ::
    "SecretType \<Rightarrow> Generation \<Rightarrow> SecretTree \<Rightarrow> SecretTree \<times> (unit, SecretTreeError) outcome" where
  "delete_own_secret_for_generation secret_type generation t =
     try_then (t, ratchet_mut t (own_index t) secret_type) (\<lambda>t r.
       case r of
         DualUse d \<Rightarrow>
           (put_ratchet (own_index t) secret_type (DualUse (delete_secret_for_generation generation d)) t, Ok ())
       | EncryptionRatchet _ \<Rightarrow> (t, Err RatchetTypeError)
       | DecryptionRatchetOf _ \<Rightarrow> (t, Err RatchetTypeError))"

section \<open>Nodes by level and position\<close>

definition node_of :: "SecretTree \<Rightarrow> nat \<Rightarrow> nat \<Rightarrow> Secret option" where
  "node_of t k q = (case get_node t (tree_node k q) of Ok n \<Rightarrow> n | _ \<Rightarrow> None)"

text \<open>The vectors have the lengths that \<open>new\<close> gives them.\<close>

definition SecretTree_shape :: "nat \<Rightarrow> SecretTree \<Rightarrow> bool" where
  "SecretTree_shape d t \<longleftrightarrow> d < 30 \<and> st_size t = depth_size d \<and>
     length (st_leaf_nodes t) = 2 ^ d \<and> length (st_parent_nodes t) = 2 ^ d \<and>
     length (handshake_sender_ratchets t) = 2 ^ d \<and> length (application_sender_ratchets t) = 2 ^ d"

lemma parent_slot: "in_tree d (Suc k) q \<Longrightarrow> node_at k q < 2 ^ d"
  using parent_in_tree_bound [of d k q] by simp

lemma get_node_in_tree:
  assumes "SecretTree_shape d t" "in_tree d k q"
  shows "get_node t (tree_node k q) = Ok (node_of t k q)"
  using assms parent_slot [of d "k - 1" q]
  by (cases k) (auto simp: SecretTree_shape_def node_of_def in_tree_leaf)

text \<open>The part of the tree that deriving secrets does not touch.\<close>

definition SecretTree_frame where
  "SecretTree_frame t = (own_index t, handshake_sender_ratchets t, application_sender_ratchets t, st_size t)"

lemma SecretTree_frame_ratchets:
  assumes "SecretTree_frame t' = SecretTree_frame t"
  shows "ratchets_of t' ty = ratchets_of t ty" "own_index t' = own_index t"
  using assms by (cases ty; simp add: SecretTree_frame_def ratchets_of_def)+

lemma set_node_in_tree:
  assumes sh: "SecretTree_shape d t" and i: "in_tree d k q"
  shows "\<exists>t'. set_node (tree_node k q) x t = (t', Ok ()) \<and> SecretTree_shape d t' \<and>
    SecretTree_frame t' = SecretTree_frame t \<and>
    (\<forall>k' q'. in_tree d k' q' \<longrightarrow> node_of t' k' q' = (if k' = k \<and> q' = q then x else node_of t k' q'))"
proof (cases k)
  case 0
  then show ?thesis
    using sh i by (auto simp: SecretTree_shape_def SecretTree_frame_def in_tree_leaf node_of_def tree_node_def
        vec_get_list_update split: if_splits)
next
  case (Suc j)
  have b: "node_at j q < length (st_parent_nodes t)"
    using sh i Suc parent_slot [of d j q] by (simp add: SecretTree_shape_def)
  let ?t' = "t\<lparr>st_parent_nodes := (st_parent_nodes t)[node_at j q := x]\<rparr>"
  have "node_of ?t' k' q' = (if k' = k \<and> q' = q then x else node_of t k' q')" if "in_tree d k' q'" for k' q'
  proof (cases k')
    case (Suc j')
    then show ?thesis
      using \<open>k = Suc j\<close> b by (auto simp: node_of_def vec_get_list_update)
  qed (use \<open>k = Suc j\<close> in \<open>simp add: node_of_def\<close>)
  then show ?thesis
    using Suc b sh by (intro exI [of _ ?t']) (simp add: SecretTree_shape_def SecretTree_frame_def)
qed

lemma children_of_node:
  assumes "in_tree d (Suc k) q" "d < 30"
  shows "left (node_at k q) = Some (tree_node k (2 * q))" "right (node_at k q) = Some (tree_node k (2 * q + 1))"
proof -
  have b: "node_at (Suc k) q < 2 ^ 32" "k < 31" using in_tree_bound [OF assms(1)] assms(2) by simp_all
  show "left (node_at k q) = Some (tree_node k (2 * q))" by (rule left_node_at [OF b])
  show "right (node_at k q) = Some (tree_node k (2 * q + 1))" by (rule right_node_at [OF b])
qed

section \<open>What the tree holds\<close>

text \<open>
  The secret of a node, by the number of its ancestors and its position: the encryption secret at
  the root, and what \<open>derive_child_secrets\<close> gives below.
\<close>

fun path_secret :: "'a provider_scheme \<Rightarrow> Ciphersuite \<Rightarrow> Secret \<Rightarrow> nat \<Rightarrow> nat \<Rightarrow> Secret option" where
  "path_secret p c es 0 q = Some es"
| "path_secret p c es (Suc j) q =
     (case path_secret p c es j (q div 2) of
        None \<Rightarrow> None
      | Some s \<Rightarrow> (case derive_child_secrets s p c of
          Ok (l, r) \<Rightarrow> Some (if even q then l else r)
        | _ \<Rightarrow> None))"

fun type_label :: "SecretType \<Rightarrow> string" where
  "type_label HandshakeSecret = ''handshake''"
| "type_label ApplicationSecret = ''application''"

definition leaf_ratchet_secret ::
    "'a provider_scheme \<Rightarrow> Ciphersuite \<Rightarrow> Secret \<Rightarrow> nat \<Rightarrow> LeafNodeIndex \<Rightarrow> SecretType \<Rightarrow> Secret option" where
  "leaf_ratchet_secret p c es d i ty =
     (case path_secret p c es d i of
        None \<Rightarrow> None
      | Some s \<Rightarrow> (case Secret_kdf_expand_label s p c (type_label ty) [] (hash_length c) of
          Ok r \<Rightarrow> Some r
        | _ \<Rightarrow> None))"

text \<open>The levels at which the path from a leaf to the root still has a secret.\<close>

definition path_levels :: "nat \<Rightarrow> SecretTree \<Rightarrow> LeafNodeIndex \<Rightarrow> nat set" where
  "path_levels d t i = {k. k \<le> d \<and> node_of t k (i div 2 ^ k) \<noteq> None}"

text \<open>The ratchet of a leaf, started from the secret \<open>s\<close>.\<close>

definition ratchet_ok ::
    "bool \<Rightarrow> 'a provider_scheme \<Rightarrow> Ciphersuite \<Rightarrow> bool \<Rightarrow> Secret \<Rightarrow> SenderRatchet \<Rightarrow> bool" where
  "ratchet_ok vc p c own s r \<longleftrightarrow>
     (case r of
        EncryptionRatchet rs \<Rightarrow> own \<and> \<not> vc \<and> on_chain p c s rs
      | DualUse d \<Rightarrow> own \<and> vc \<and> DualUseRatchet_inv p c s d
      | DecryptionRatchetOf d \<Rightarrow> \<not> own \<and> DecryptionRatchet_inv p c s d)"

text \<open>
  The invariant. Every secret in the tree is the one the encryption secret gives. The two
  ratchets of a leaf are initialised together, from the secrets of that leaf. A leaf without
  ratchets has exactly one secret on its path to the root, and a leaf with ratchets has none.
\<close>

definition nodes_inv :: "'a provider_scheme \<Rightarrow> Ciphersuite \<Rightarrow> Secret \<Rightarrow> nat \<Rightarrow> SecretTree \<Rightarrow> bool" where
  "nodes_inv p c es d t \<longleftrightarrow>
     (\<forall>k q s. in_tree d k q \<longrightarrow> node_of t k q = Some s \<longrightarrow> path_secret p c es (d - k) q = Some s)"

definition ratchets_inv ::
    "bool \<Rightarrow> 'a provider_scheme \<Rightarrow> Ciphersuite \<Rightarrow> Secret \<Rightarrow> nat \<Rightarrow> SecretTree \<Rightarrow> bool" where
  "ratchets_inv vc p c es d t \<longleftrightarrow>
     (\<forall>ty i r. i < 2 ^ d \<longrightarrow> ratchets_of t ty ! i = Some r \<longrightarrow>
        (\<exists>s. leaf_ratchet_secret p c es d i ty = Some s \<and> ratchet_ok vc p c (i = own_index t) s r)) \<and>
     (\<forall>i < 2 ^ d. ratchets_of t HandshakeSecret ! i = None \<longleftrightarrow> ratchets_of t ApplicationSecret ! i = None)"

definition cover_inv :: "nat \<Rightarrow> SecretTree \<Rightarrow> bool" where
  "cover_inv d t \<longleftrightarrow>
     (\<forall>i < 2 ^ d. if ratchets_of t HandshakeSecret ! i = None then \<exists>k. path_levels d t i = {k}
        else path_levels d t i = {})"

definition SecretTree_inv ::
    "bool \<Rightarrow> 'a provider_scheme \<Rightarrow> Ciphersuite \<Rightarrow> Secret \<Rightarrow> nat \<Rightarrow> SecretTree \<Rightarrow> bool" where
  "SecretTree_inv vc p c es d t \<longleftrightarrow> SecretTree_shape d t \<and> nodes_inv p c es d t \<and>
     ratchets_inv vc p c es d t \<and> cover_inv d t"

lemma path_levels_node:
  assumes "i < 2 ^ d" "k \<le> d" "path_levels d t i = {k}"
  shows "\<exists>s. node_of t k (i div 2 ^ k) = Some s"
  using assms by (auto simp: path_levels_def set_eq_iff)

section \<open>Deriving down\<close>

lemma derive_down_effect:
  assumes sh: "SecretTree_shape d t" and i: "in_tree d (Suc k) q" and s: "node_of t (Suc k) q = Some s"
    and ch: "derive_child_secrets s p c = Ok (l, r)"
  shows "\<exists>t'. derive_down p c (node_at k q) t = (t', Ok ()) \<and> SecretTree_shape d t' \<and>
    SecretTree_frame t' = SecretTree_frame t \<and>
    (\<forall>k' q'. in_tree d k' q' \<longrightarrow> node_of t' k' q' =
      (if k' = Suc k \<and> q' = q then None else if k' = k \<and> q' = 2 * q then Some l
       else if k' = k \<and> q' = 2 * q + 1 then Some r else node_of t k' q'))"
proof -
  have d: "d < 30" using sh by (simp add: SecretTree_shape_def)
  note ch_in = in_tree_children [OF i]
  obtain t1 where t1: "set_node (tree_node k (2 * q)) (Some l) t = (t1, Ok ())" "SecretTree_shape d t1"
    "SecretTree_frame t1 = SecretTree_frame t"
    "\<And>k' q'. in_tree d k' q' \<Longrightarrow> node_of t1 k' q' = (if k' = k \<and> q' = 2 * q then Some l else node_of t k' q')"
    using set_node_in_tree [OF sh ch_in(1), of "Some l"] by blast
  obtain t2 where t2: "set_node (tree_node k (2 * q + 1)) (Some r) t1 = (t2, Ok ())" "SecretTree_shape d t2"
    "SecretTree_frame t2 = SecretTree_frame t1"
    "\<And>k' q'. in_tree d k' q' \<Longrightarrow> node_of t2 k' q' = (if k' = k \<and> q' = 2 * q + 1 then Some r else node_of t1 k' q')"
    using set_node_in_tree [OF t1(2) ch_in(2), of "Some r"] by blast
  obtain t3 where t3: "set_node (tree_node (Suc k) q) None t2 = (t3, Ok ())" "SecretTree_shape d t3"
    "SecretTree_frame t3 = SecretTree_frame t2"
    "\<And>k' q'. in_tree d k' q' \<Longrightarrow> node_of t3 k' q' = (if k' = Suc k \<and> q' = q then None else node_of t2 k' q')"
    using set_node_in_tree [OF t2(2) i, of None] by blast
  have "derive_down p c (node_at k q) t = (t3, Ok ())"
    using get_node_in_tree [OF sh i] s ch children_of_node [OF i d] t1(1) t2(1) t3(1)
    by (simp add: derive_down_def)
  then show ?thesis using t1 t2 t3 by (intro exI [of _ t3]) auto
qed

lemma derive_down_error:
  assumes "SecretTree_shape d t" "in_tree d (Suc k) q" "node_of t (Suc k) q = Some s"
    and "\<And>l r. derive_child_secrets s p c \<noteq> Ok (l, r)"
  shows "fst (derive_down p c (node_at k q) t) = t" "snd (derive_down p c (node_at k q) t) \<noteq> Ok ()"
proof -
  have d: "d < 30" using assms(1) by (simp add: SecretTree_shape_def)
  have "fst (derive_down p c (node_at k q) t) = t \<and> snd (derive_down p c (node_at k q) t) \<noteq> Ok ()"
    using get_node_in_tree [OF assms(1,2)] assms(3,4) children_of_node [OF assms(2) d]
    by (cases "derive_child_secrets s p c") (auto simp: derive_down_def)
  then show "fst (derive_down p c (node_at k q) t) = t" "snd (derive_down p c (node_at k q) t) \<noteq> Ok ()"
    by simp_all
qed

lemma div_power_Suc: "(i::nat) div 2 ^ Suc k = i div 2 ^ k div 2"
  by (simp only: power_Suc2 div_mult2_eq)

lemma half_cases: "(m::nat) = 2 * (m div 2) \<or> m = 2 * (m div 2) + 1"
  by presburger

lemma path_levels_derived:
  assumes lev: "path_levels d t i = {} \<or> (\<exists>k. path_levels d t i = {k})"
    and i: "i < 2 ^ d" and q: "in_tree d (Suc k) q" and s: "node_of t (Suc k) q = Some s"
    and t': "\<And>k' q'. in_tree d k' q' \<Longrightarrow> node_of t' k' q' =
      (if k' = Suc k \<and> q' = q then None else if k' = k \<and> q' = 2 * q then Some l
       else if k' = k \<and> q' = 2 * q + 1 then Some r else node_of t k' q')"
  shows "path_levels d t' i = (if i div 2 ^ Suc k = q then {k} else path_levels d t i)"
proof -
  have k: "Suc k \<le> d" using q by (simp add: in_tree_def)
  have n: "node_of t' k' (i div 2 ^ k') =
      (if k' = Suc k \<and> i div 2 ^ k' = q then None else if k' = k \<and> i div 2 ^ k' = 2 * q then Some l
       else if k' = k \<and> i div 2 ^ k' = 2 * q + 1 then Some r else node_of t k' (i div 2 ^ k'))"
    if "k' \<le> d" for k'
    using t' [OF in_tree_div [OF i that]] .
  have half: "i div 2 ^ Suc k = q \<longleftrightarrow> i div 2 ^ k = 2 * q \<or> i div 2 ^ k = 2 * q + 1"
    by (simp only: div_power_Suc) auto
  show ?thesis
  proof (cases "i div 2 ^ Suc k = q")
    case True
    then have "Suc k \<in> path_levels d t i" using s k by (simp add: path_levels_def del: power_Suc)
    then have one: "path_levels d t i = {Suc k}" using lev by auto
    have "node_of t' k (i div 2 ^ k) \<noteq> None" using n [of k] k half True by (auto simp del: power_Suc)
    moreover have "node_of t' (Suc k) (i div 2 ^ Suc k) = None" using n [OF k] True by (simp del: power_Suc)
    moreover have "node_of t' k' (i div 2 ^ k') = None" if "k' \<noteq> k" "k' \<noteq> Suc k" "k' \<le> d" for k'
      using one that n [of k'] unfolding path_levels_def by force
    ultimately have "k' \<in> path_levels d t' i \<longleftrightarrow> k' = k" for k'
      using k by (cases "k' = k"; cases "k' = Suc k") (simp_all add: path_levels_def del: power_Suc)
    then show ?thesis using True by (auto simp del: power_Suc)
  next
    case False
    then have "node_of t' k' (i div 2 ^ k') = node_of t k' (i div 2 ^ k')" if "k' \<le> d" for k'
      using n [OF that] half by (auto simp del: power_Suc)
    then show ?thesis using False by (auto simp: path_levels_def)
  qed
qed

lemma SecretTree_invD:
  assumes "SecretTree_inv vc p c es d t"
  shows "SecretTree_shape d t" "nodes_inv p c es d t" "ratchets_inv vc p c es d t" "cover_inv d t"
  using assms by (simp_all add: SecretTree_inv_def)

lemma cover_inv_levels:
  "cover_inv d t \<Longrightarrow> i < 2 ^ d \<Longrightarrow> path_levels d t i = {} \<or> (\<exists>k. path_levels d t i = {k})"
  by (auto simp: cover_inv_def split: if_splits)

lemma cover_inv_unused:
  assumes "cover_inv d t" "i < 2 ^ d" "ratchets_of t HandshakeSecret ! i = None"
  shows "\<exists>k. path_levels d t i = {k}"
proof -
  have "if ratchets_of t HandshakeSecret ! i = None then \<exists>k. path_levels d t i = {k} else path_levels d t i = {}"
    using assms unfolding cover_inv_def by blast
  then show ?thesis using assms(3) by simp
qed

lemma derive_down_inv:
  assumes inv: "SecretTree_inv vc p c es d t" and i: "in_tree d (Suc k) q" and s: "node_of t (Suc k) q = Some s"
    and ch: "derive_child_secrets s p c = Ok (l, r)"
  shows "\<exists>t'. derive_down p c (node_at k q) t = (t', Ok ()) \<and> SecretTree_inv vc p c es d t' \<and>
    SecretTree_frame t' = SecretTree_frame t \<and>
    node_of t' k (2 * q) \<noteq> None \<and> node_of t' k (2 * q + 1) \<noteq> None"
proof -
  note D = SecretTree_invD [OF inv] and ch_in = in_tree_children [OF i]
  obtain t' where t': "derive_down p c (node_at k q) t = (t', Ok ())" "SecretTree_shape d t'"
    "SecretTree_frame t' = SecretTree_frame t"
    and n: "\<And>k' q'. in_tree d k' q' \<Longrightarrow> node_of t' k' q' =
      (if k' = Suc k \<and> q' = q then None else if k' = k \<and> q' = 2 * q then Some l
       else if k' = k \<and> q' = 2 * q + 1 then Some r else node_of t k' q')"
    using derive_down_effect [OF D(1) i s ch] by blast
  have "d - k = Suc (d - Suc k)" using i by (auto simp: in_tree_def)
  moreover have "path_secret p c es (d - Suc k) q = Some s" using D(2) i s by (simp add: nodes_inv_def)
  ultimately have "nodes_inv p c es d t'"
    using D(2) n ch unfolding nodes_inv_def by (auto split: if_splits)
  moreover have "ratchets_inv vc p c es d t'"
    using D(3) SecretTree_frame_ratchets [OF t'(3)] by (simp add: ratchets_inv_def)
  moreover have "cover_inv d t'"
    unfolding cover_inv_def SecretTree_frame_ratchets [OF t'(3)]
  proof (intro allI impI)
    fix j :: nat assume j: "j < 2 ^ d"
    have lev: "path_levels d t' j = (if j div 2 ^ Suc k = q then {k} else path_levels d t j)"
      by (rule path_levels_derived [OF cover_inv_levels [OF D(4) j] j i s n])
    have "Suc k \<in> path_levels d t j" if "j div 2 ^ Suc k = q"
      using that s i by (simp add: path_levels_def in_tree_def del: power_Suc)
    then show "if ratchets_of t HandshakeSecret ! j = None then \<exists>k. path_levels d t' j = {k}
        else path_levels d t' j = {}"
      using D(4) j lev unfolding cover_inv_def by (auto split: if_splits)
  qed
  ultimately show ?thesis
    using t' n [OF ch_in(1)] n [OF ch_in(2)] by (auto simp: SecretTree_inv_def)
qed

lemma expand_hash_total:
  "expand_total p \<Longrightarrow> \<exists>k. Secret_kdf_expand_label s p c label ctx (hash_length c) = Ok k"
  using expand_total_Ok [of p "hash_length c" s c label ctx] hash_length_bounds [of c] by auto

lemma derive_child_secrets_total:
  assumes "expand_total p"
  shows "\<exists>l r. derive_child_secrets s p c = Ok (l, r)"
proof -
  obtain l r where
    "Secret_kdf_expand_label s p c ''tree'' (str_bytes ''left'') (hash_length c) = Ok l"
    "Secret_kdf_expand_label s p c ''tree'' (str_bytes ''right'') (hash_length c) = Ok r"
    using expand_hash_total [OF assms] by metis
  then show ?thesis by (simp add: derive_child_secrets_def)
qed

text \<open>From a secret at level \<open>K\<close> of a leaf's path down to the leaf.\<close>

lemma derive_path_down:
  assumes "SecretTree_inv vc p c es d t" "i < 2 ^ d" "K \<le> d" "node_of t K (i div 2 ^ K) \<noteq> None"
    and "for_each_try (derive_down p c) (rev (map (\<lambda>j. node_at j (i div 2 ^ Suc j)) [0..<K])) t = (t', res)"
  shows "SecretTree_inv vc p c es d t' \<and> SecretTree_frame t' = SecretTree_frame t \<and>
    (res = Ok () \<longrightarrow> node_of t' 0 i \<noteq> None) \<and> (expand_total p \<longrightarrow> res = Ok ())"
  using assms
proof (induction K arbitrary: t)
  case (Suc k)
  let ?q = "i div 2 ^ Suc k"
  have q: "in_tree d (Suc k) ?q" by (rule in_tree_div) (use Suc.prems in auto)
  obtain s where s: "node_of t (Suc k) ?q = Some s" using Suc.prems(4) by blast
  obtain t1 r1 where dd: "derive_down p c (node_at k ?q) t = (t1, r1)" by fastforce
  have run: "try_then (t1, r1) (\<lambda>t _. for_each_try (derive_down p c)
      (rev (map (\<lambda>j. node_at j (i div 2 ^ Suc j)) [0..<k])) t) = (t', res)"
    using Suc.prems(5) dd by (simp del: power_Suc)
  show ?case
  proof (cases "\<exists>l r. derive_child_secrets s p c = Ok (l, r)")
    case True
    then obtain l r where "derive_child_secrets s p c = Ok (l, r)" by blast
    from derive_down_inv [OF Suc.prems(1) q s this] dd
    have t1: "r1 = Ok ()" "SecretTree_inv vc p c es d t1" "SecretTree_frame t1 = SecretTree_frame t"
      "node_of t1 k (2 * ?q) \<noteq> None" "node_of t1 k (2 * ?q + 1) \<noteq> None" by auto
    have "i div 2 ^ k = 2 * ?q \<or> i div 2 ^ k = 2 * ?q + 1"
      using half_cases [of "i div 2 ^ k"] by (simp only: div_power_Suc)
    then have "node_of t1 k (i div 2 ^ k) \<noteq> None" using t1(4,5) by metis
    from Suc.IH [OF t1(2) Suc.prems(2) _ this] Suc.prems(3) run t1(1,3) show ?thesis
      by (simp del: power_Suc)
  next
    case False
    then have "\<And>l r. derive_child_secrets s p c \<noteq> Ok (l, r)" by blast
    note e = derive_down_error [OF SecretTree_invD(1) [OF Suc.prems(1)] q s this]
    have "\<not> expand_total p" using False derive_child_secrets_total by blast
    then show ?thesis using e dd run Suc.prems(1) by (cases r1) auto
  qed
qed simp

lemma collect_empty_nodes_prefix:
  assumes "\<And>x. x \<in> set xs \<Longrightarrow> get_node t (Parent x) = Ok None" "get_node t (Parent y) = Ok (Some s)"
  shows "collect_empty_nodes t (xs @ y # ys) = Ok (xs @ [y])"
  using assms by (induction xs) auto

lemma collect_empty_nodes_path:
  assumes sh: "SecretTree_shape d t" and i: "i < 2 ^ d" and lev: "path_levels d t i = {Suc k}"
  shows "collect_empty_nodes t (map (\<lambda>j. node_at j (i div 2 ^ Suc j)) [0..<d]) =
    Ok (map (\<lambda>j. node_at j (i div 2 ^ Suc j)) [0..<Suc k])"
proof -
  let ?f = "\<lambda>j. node_at j (i div 2 ^ Suc j)"
  have k: "Suc k \<le> d" using lev by (auto simp: path_levels_def)
  have g: "get_node t (Parent (?f j)) = Ok (node_of t (Suc j) (i div 2 ^ Suc j))" if "j < d" for j
    using get_node_in_tree [OF sh in_tree_div [OF i, of "Suc j"]] that by (simp del: power_Suc)
  have none: "node_of t (Suc j) (i div 2 ^ Suc j) = None" if "j < d" "j \<noteq> k" for j
  proof -
    have "Suc j \<notin> path_levels d t i" using lev that by simp
    then show ?thesis using that by (simp add: path_levels_def del: power_Suc)
  qed
  obtain s where s: "node_of t (Suc k) (i div 2 ^ Suc k) = Some s"
    using path_levels_node [OF i k lev] by blast
  have "[0..<d] = [0..<k] @ k # [Suc k..<d]"
    using k upt_add_eq_append [of 0 k "d - k"] upt_conv_Cons [of k d] by simp
  then have eq: "map ?f [0..<d] = map ?f [0..<k] @ ?f k # map ?f [Suc k..<d]" by (simp del: power_Suc)
  have "get_node t (Parent x) = Ok None" if "x \<in> set (map ?f [0..<k])" for x
    using that g none k by (auto simp del: power_Suc get_node.simps)
  moreover have "get_node t (Parent (?f k)) = Ok (Some s)" using g [of k] s k by (simp del: power_Suc)
  ultimately have "collect_empty_nodes t (map ?f [0..<k] @ ?f k # map ?f [Suc k..<d]) = Ok (map ?f [0..<k] @ [?f k])"
    by (rule collect_empty_nodes_prefix)
  then show ?thesis using eq by (simp del: power_Suc)
qed

lemma derive_to_leaf_effect:
  assumes inv: "SecretTree_inv vc p c es d t" and i: "i < 2 ^ d" and un: "ratchets_of t HandshakeSecret ! i = None"
    and run: "derive_to_leaf p c i t = (t', res)"
  shows "SecretTree_inv vc p c es d t' \<and> SecretTree_frame t' = SecretTree_frame t \<and>
    (res = Ok () \<longrightarrow> node_of t' 0 i \<noteq> None) \<and> (expand_total p \<longrightarrow> res = Ok ())"
proof -
  note D = SecretTree_invD [OF inv]
  have d: "d < 30" "st_size t = depth_size d" using D(1) by (simp_all add: SecretTree_shape_def)
  obtain K where K: "path_levels d t i = {K}" using cover_inv_unused [OF D(4) i un] by blast
  have leaf: "get_node t (Leaf i) = Ok (node_of t 0 i)"
    using get_node_in_tree [OF D(1), of 0 i] i by (simp add: in_tree_leaf)
  show ?thesis
  proof (cases K)
    case 0
    then have "node_of t 0 i \<noteq> None" using path_levels_node [OF i _ K] by auto
    then show ?thesis using run leaf inv by (auto simp: derive_to_leaf_def)
  next
    case (Suc k)
    have "0 \<notin> path_levels d t i" using K Suc by simp
    then have none: "node_of t 0 i = None" by (simp add: path_levels_def)
    have "direct_path i (depth_size d) = Some (map (\<lambda>j. node_at j (i div 2 ^ Suc j)) [0..<d])"
      using d i by (simp add: direct_path_depth_size)
    then have "for_each_try (derive_down p c) (rev (map (\<lambda>j. node_at j (i div 2 ^ Suc j)) [0..<K])) t = (t', res)"
      using run leaf none d collect_empty_nodes_path [OF D(1) i, of k] K Suc
      by (simp add: derive_to_leaf_def del: power_Suc)
    moreover have "K \<le> d" using K by (auto simp: path_levels_def)
    ultimately show ?thesis
      using derive_path_down [OF inv i, of K] path_levels_node [OF i _ K] by blast
  qed
qed

section \<open>Initialising the ratchets of a leaf\<close>

lemma nth_put_ratchet:
  assumes "i < length (ratchets_of t ty)"
  shows "ratchets_of (put_ratchet i ty r t) ty' =
    (if ty' = ty then (ratchets_of t ty)[i := Some r] else ratchets_of t ty')"
  using assms by (cases ty; cases ty') (auto simp: ratchets_of_def)

lemma put_ratchet_other [simp]:
  "own_index (put_ratchet i ty r t) = own_index t" "st_leaf_nodes (put_ratchet i ty r t) = st_leaf_nodes t"
  "st_parent_nodes (put_ratchet i ty r t) = st_parent_nodes t" "st_size (put_ratchet i ty r t) = st_size t"
  by (cases ty; simp)+

lemma put_ratchet_shape [simp]: "SecretTree_shape d (put_ratchet i ty r t) \<longleftrightarrow> SecretTree_shape d t"
  by (cases ty) (auto simp: SecretTree_shape_def)

lemma get_node_cong:
  "st_leaf_nodes t' = st_leaf_nodes t \<Longrightarrow> st_parent_nodes t' = st_parent_nodes t \<Longrightarrow> get_node t' n = get_node t n"
  by (cases n) auto

lemma node_of_put_ratchet [simp]: "node_of (put_ratchet i ty r t) = node_of t"
  by (simp add: node_of_def fun_eq_iff get_node_cong [of "put_ratchet i ty r t" t])

lemma path_levels_put_ratchet [simp]: "path_levels d (put_ratchet i ty r t) = path_levels d t"
  by (simp add: path_levels_def fun_eq_iff)

lemma length_ratchets: "SecretTree_shape d t \<Longrightarrow> length (ratchets_of t ty) = 2 ^ d"
  by (cases ty) (simp_all add: SecretTree_shape_def ratchets_of_def)

lemma new_ratchets_ok:
  assumes "new_ratchets vc own hs as = (rh, ra)"
  shows "ratchet_ok vc p c own hs rh" "ratchet_ok vc p c own as ra"
  using assms DualUseRatchet_inv_new DecryptionRatchet_inv_new
  by (auto simp: new_ratchets_def ratchet_ok_def split: if_splits)

lemma path_levels_delete_leaf:
  assumes j: "j < 2 ^ d"
    and node: "\<And>k q. in_tree d k q \<Longrightarrow> node_of t' k q = (if k = 0 \<and> q = i then None else node_of t k q)"
  shows "path_levels d t' j = (if j = i then path_levels d t j - {0} else path_levels d t j)"
proof -
  have "node_of t' k (j div 2 ^ k) = (if k = 0 \<and> j = i then None else node_of t k (j div 2 ^ k))"
    if "k \<le> d" for k
    using node [OF in_tree_div [OF j that]] by (cases k) auto
  then have "k \<in> path_levels d t' j \<longleftrightarrow> k \<in> path_levels d t j \<and> \<not> (k = 0 \<and> j = i)" for k
    by (cases "k \<le> d") (simp_all add: path_levels_def)
  then show ?thesis by (cases "j = i") (simp_all add: set_eq_iff)
qed

text \<open>The state after both ratchets are stored and the leaf is deleted.\<close>

lemma SecretTree_inv_initialised:
  assumes inv: "SecretTree_inv vc p c es d t" and i: "i < 2 ^ d" and s: "node_of t 0 i = Some s"
    and un: "ratchets_of t HandshakeSecret ! i = None"
    and kdf: "Secret_kdf_expand_label s p c ''handshake'' [] (hash_length c) = Ok hs"
      "Secret_kdf_expand_label s p c ''application'' [] (hash_length c) = Ok as"
    and r: "new_ratchets vc (i = own_index t) hs as = (rh, ra)"
    and t': "t' = t\<lparr>handshake_sender_ratchets := (handshake_sender_ratchets t)[i := Some rh],
      application_sender_ratchets := (application_sender_ratchets t)[i := Some ra],
      st_leaf_nodes := (st_leaf_nodes t)[i := None]\<rparr>"
  shows "SecretTree_inv vc p c es d t'" "\<And>ty. ratchets_of t' ty ! i \<noteq> None"
proof -
  note D = SecretTree_invD [OF inv]
  have sh: "SecretTree_shape d t'" using D(1) t' by (simp add: SecretTree_shape_def)
  have own: "own_index t' = own_index t" using t' by simp
  have len: "length (ratchets_of t ty) = 2 ^ d" for ty by (rule length_ratchets [OF D(1)])
  have rat: "ratchets_of t' ty = (ratchets_of t ty)[i := Some (case ty of HandshakeSecret \<Rightarrow> rh | ApplicationSecret \<Rightarrow> ra)]"
    for ty by (cases ty) (simp_all add: t' ratchets_of_def)
  have node: "node_of t' k q = (if k = 0 \<and> q = i then None else node_of t k q)" if "in_tree d k q" for k q
    using that D(1) i
    by (cases k) (auto simp: t' node_of_def SecretTree_shape_def vec_get_list_update in_tree_leaf)
  have "path_secret p c es d i = Some s"
    using D(2) s i unfolding nodes_inv_def by (metis diff_zero in_tree_leaf)
  then have leaf: "leaf_ratchet_secret p c es d i HandshakeSecret = Some hs"
    "leaf_ratchet_secret p c es d i ApplicationSecret = Some as"
    using kdf by (simp_all add: leaf_ratchet_secret_def)
  have "nodes_inv p c es d t'" using D(2) node unfolding nodes_inv_def by (simp split: if_splits)
  moreover have "ratchets_inv vc p c es d t'"
    unfolding ratchets_inv_def
  proof (intro conjI allI impI)
    fix ty j x assume j: "j < 2 ^ d" "ratchets_of t' ty ! j = Some x"
    show "\<exists>s. leaf_ratchet_secret p c es d j ty = Some s \<and> ratchet_ok vc p c (j = own_index t') s x"
      using j D(3) leaf new_ratchets_ok [OF r, of p c] len [of ty]
      by (cases "j = i"; cases ty) (auto simp: rat own ratchets_inv_def)
  next
    fix j :: nat assume j: "j < 2 ^ d"
    show "ratchets_of t' HandshakeSecret ! j = None \<longleftrightarrow> ratchets_of t' ApplicationSecret ! j = None"
      using j D(3) len by (cases "j = i") (simp_all add: rat ratchets_inv_def)
  qed
  moreover have "cover_inv d t'"
    unfolding cover_inv_def
  proof (intro allI impI)
    fix j :: nat assume j: "j < 2 ^ d"
    note lev = path_levels_delete_leaf [OF j node]
    have "0 \<in> path_levels d t i" using s by (simp add: path_levels_def)
    then have "path_levels d t i = {0}" using cover_inv_unused [OF D(4) i un] by auto
    then show "if ratchets_of t' HandshakeSecret ! j = None then \<exists>k. path_levels d t' j = {k}
        else path_levels d t' j = {}"
      using lev j D(4) len by (cases "j = i") (simp_all add: rat cover_inv_def)
  qed
  ultimately show "SecretTree_inv vc p c es d t'" using sh by (simp add: SecretTree_inv_def)
  show "ratchets_of t' ty ! i \<noteq> None" for ty using len i by (simp add: rat)
qed

text \<open>The generation that a leaf's ratchet is at: zero if it was not initialised yet.\<close>

fun ratchet_generation :: "SenderRatchet \<Rightarrow> Generation" where
  "ratchet_generation (EncryptionRatchet r) = rs_generation r"
| "ratchet_generation (DecryptionRatchetOf d) = rs_generation (ratchet_head d)"
| "ratchet_generation (DualUse d) = rs_generation (dual_ratchet_head d)"

definition sender_generation :: "SecretTree \<Rightarrow> LeafNodeIndex \<Rightarrow> SecretType \<Rightarrow> Generation" where
  "sender_generation t i ty = (case ratchets_of t ty ! i of None \<Rightarrow> 0 | Some r \<Rightarrow> ratchet_generation r)"

lemma sender_generation_put:
  assumes "i < length (ratchets_of t ty)"
  shows "sender_generation (put_ratchet i ty r t) j ty' =
    (if j = i \<and> ty' = ty then ratchet_generation r else sender_generation t j ty')"
  using assms by (simp add: sender_generation_def nth_put_ratchet nth_list_update)

lemma new_ratchets_generation:
  "new_ratchets vc own hs as = (rh, ra) \<Longrightarrow> ratchet_generation rh = 0 \<and> ratchet_generation ra = 0"
  by (auto simp: new_ratchets_def initial_ratchet_secret_def DualUseRatchet_new_def DecryptionRatchet_new_def split: if_splits)

lemma ratchets_from_leaf_effect:
  assumes inv: "SecretTree_inv vc p c es d t" and i: "i < 2 ^ d" and s: "node_of t 0 i = Some s"
    and un: "ratchets_of t HandshakeSecret ! i = None"
    and run: "ratchets_from_leaf vc p c i t = (t', res)"
  shows "SecretTree_inv vc p c es d t' \<and> own_index t' = own_index t \<and>
    (res = Ok () \<longrightarrow> (\<forall>ty. ratchets_of t' ty ! i \<noteq> None)) \<and> (expand_total p \<longrightarrow> res = Ok ()) \<and>
    sender_generation t' = sender_generation t"
proof -
  note D = SecretTree_invD [OF inv]
  let ?hs = "Secret_kdf_expand_label s p c ''handshake'' [] (hash_length c)"
  let ?as = "Secret_kdf_expand_label s p c ''application'' [] (hash_length c)"
  have leaf: "get_node t (Leaf i) = Ok (Some s)"
    using get_node_in_tree [OF D(1), of 0 i] i s by (simp add: in_tree_leaf)
  have len: "i < length (handshake_sender_ratchets t)" "i < length (application_sender_ratchets t)"
    "i < length (st_leaf_nodes t)" using D(1) i by (simp_all add: SecretTree_shape_def)
  show ?thesis
  proof (cases "\<exists>hs as. ?hs = Ok hs \<and> ?as = Ok as")
    case True
    then obtain hs as where kdf: "?hs = Ok hs" "?as = Ok as" by blast
    obtain rh ra where r: "new_ratchets vc (i = own_index t) hs as = (rh, ra)" by fastforce
    let ?t = "t\<lparr>handshake_sender_ratchets := (handshake_sender_ratchets t)[i := Some rh],
      application_sender_ratchets := (application_sender_ratchets t)[i := Some ra],
      st_leaf_nodes := (st_leaf_nodes t)[i := None]\<rparr>"
    have "ratchets_from_leaf vc p c i t = (?t, Ok ())"
      using leaf kdf r len by (simp add: ratchets_from_leaf_def Let_def)
    moreover have "ratchets_of t ApplicationSecret ! i = None" using D(3) i un by (simp add: ratchets_inv_def)
    then have "sender_generation ?t j ty = sender_generation t j ty" for j ty
      using un len new_ratchets_generation [OF r]
      by (cases ty; cases "j = i") (simp_all add: sender_generation_def ratchets_of_def)
    then have "sender_generation ?t = sender_generation t" by (intro ext)
    ultimately show ?thesis
      using SecretTree_inv_initialised [OF inv i s un kdf r refl] run by auto
  next
    case False
    then have "t' = t \<and> res \<noteq> Ok ()"
      using leaf run by (cases ?hs; cases ?as) (auto simp: ratchets_from_leaf_def)
    moreover have "\<not> expand_total p" using False expand_hash_total by metis
    ultimately show ?thesis using inv by simp
  qed
qed

lemma initialize_effect:
  assumes inv: "SecretTree_inv vc p c es d t" and i: "i < 2 ^ d"
    and run: "initialize_sender_ratchets vc p c i t = (t', res)"
  shows "SecretTree_inv vc p c es d t' \<and> own_index t' = own_index t \<and>
    (res = Ok () \<longrightarrow> (\<forall>ty. ratchets_of t' ty ! i \<noteq> None)) \<and> (expand_total p \<longrightarrow> res = Ok ()) \<and>
    sender_generation t' = sender_generation t"
proof -
  note D = SecretTree_invD [OF inv]
  have cnt: "i < TreeSize_leaf_count (st_size t)" using D(1) i by (simp add: SecretTree_shape_def)
  have opt: "ratchet_opt t i ty = Ok (ratchets_of t ty ! i)" for ty
    using length_ratchets [OF D(1), of ty] i by (simp add: ratchet_opt_def)
  have both: "ratchets_of t HandshakeSecret ! i = None \<longleftrightarrow> ratchets_of t ApplicationSecret ! i = None"
    using D(3) i by (simp add: ratchets_inv_def)
  show ?thesis
  proof (cases "ratchets_of t HandshakeSecret ! i = None")
    case True
    obtain t1 r1 where d1: "derive_to_leaf p c i t = (t1, r1)" by fastforce
    note e = derive_to_leaf_effect [OF inv i True d1]
    have gen: "sender_generation t1 = sender_generation t"
      using SecretTree_frame_ratchets [of t1 t] e by (simp add: sender_generation_def fun_eq_iff)
    have run': "try_then (t1, r1) (\<lambda>t _. ratchets_from_leaf vc p c i t) = (t', res)"
      using run cnt opt True d1 by (simp add: initialize_sender_ratchets_def)
    show ?thesis
    proof (cases r1)
      case (Ok u)
      then obtain s where s: "node_of t1 0 i = Some s" using e by auto
      have "ratchets_of t1 HandshakeSecret ! i = None" "own_index t1 = own_index t"
        using SecretTree_frame_ratchets [of t1 t] e True by auto
      then show ?thesis
        using ratchets_from_leaf_effect [of vc p c es d t1 i s t' res] e i s run' Ok gen by auto
    qed (use run' e gen SecretTree_frame_ratchets [of t1 t] in auto)
  next
    case False
    then show ?thesis
      using run cnt opt both inv by (auto simp: initialize_sender_ratchets_def all_SecretType)
  qed
qed

section \<open>A new tree\<close>

lemma SecretTree_new_inv:
  assumes d: "d < 30"
  shows "\<exists>t. SecretTree_new es (depth_size d) own = Some t \<and> own_index t = own \<and>
    SecretTree_inv vc p c es d t \<and> (\<forall>ty. \<forall>i < 2 ^ d. ratchets_of t ty ! i = None)"
proof -
  let ?t0 = "\<lparr>own_index = own, st_leaf_nodes = replicate (2 ^ d) None, st_parent_nodes = replicate (2 ^ d) None,
    handshake_sender_ratchets = replicate (2 ^ d) None, application_sender_ratchets = replicate (2 ^ d) None,
    st_size = depth_size d\<rparr>"
  have sh0: "SecretTree_shape d ?t0" using d by (simp add: SecretTree_shape_def)
  have n0: "node_of ?t0 k q = None" if "in_tree d k q" for k q
    using that parent_slot [of d "k - 1" q] by (cases k) (simp_all add: node_of_def in_tree_leaf)
  have top: "in_tree d d 0" by (simp add: in_tree_def)
  obtain t where t: "set_node (tree_node d 0) (Some es) ?t0 = (t, Ok ())" "SecretTree_shape d t"
    "SecretTree_frame t = SecretTree_frame ?t0"
    and n: "\<And>k q. in_tree d k q \<Longrightarrow> node_of t k q = (if k = d \<and> q = 0 then Some es else None)"
    using set_node_in_tree [OF sh0 top, of "Some es"] n0 by auto
  have new: "SecretTree_new es (depth_size d) own = Some t"
    using d t(1) root_depth_size [of d] by (simp add: SecretTree_new_def)
  note rat = SecretTree_frame_ratchets [OF t(3)]
  have none: "ratchets_of t ty ! i = None" if "i < 2 ^ d" for ty i
    using that unfolding rat by (cases ty) (simp_all add: ratchets_of_def)
  have lev: "path_levels d t i = {d}" if i: "i < 2 ^ d" for i
  proof -
    have "k \<in> path_levels d t i \<longleftrightarrow> k = d" for k
      using n [OF in_tree_div [OF i, of k]] i by (cases "k \<le> d") (auto simp: path_levels_def)
    then show ?thesis by (simp add: set_eq_iff)
  qed
  have "SecretTree_inv vc p c es d t"
    using t(2) n none lev
    by (auto simp: SecretTree_inv_def nodes_inv_def ratchets_inv_def cover_inv_def split: if_splits)
  then show ?thesis using new rat none by auto
qed

section \<open>Using the ratchets\<close>

lemma SecretTree_inv_put:
  assumes inv: "SecretTree_inv vc p c es d t" and i: "i < 2 ^ d" and old: "ratchets_of t ty ! i = Some r0"
    and r: "\<And>s. ratchet_ok vc p c (i = own_index t) s r0 \<Longrightarrow> ratchet_ok vc p c (i = own_index t) s r"
  shows "SecretTree_inv vc p c es d (put_ratchet i ty r t)"
proof -
  note D = SecretTree_invD [OF inv]
  have len: "length (ratchets_of t ty) = 2 ^ d" for ty by (rule length_ratchets [OF D(1)])
  have rat: "ratchets_of (put_ratchet i ty r t) ty' =
      (if ty' = ty then (ratchets_of t ty)[i := Some r] else ratchets_of t ty')" for ty'
    using nth_put_ratchet [of i t ty r ty'] len i by simp
  have unused: "ratchets_of (put_ratchet i ty r t) ty' ! j = None \<longleftrightarrow> ratchets_of t ty' ! j = None"
    if "j < 2 ^ d" for ty' j
    using old i that len by (cases "j = i") (auto simp: rat)
  have "\<exists>s. leaf_ratchet_secret p c es d j ty' = Some s \<and> ratchet_ok vc p c (j = own_index t) s x"
    if "j < 2 ^ d" "ratchets_of (put_ratchet i ty r t) ty' ! j = Some x" for ty' j x
  proof (cases "j = i \<and> ty' = ty")
    case True
    then obtain s where "leaf_ratchet_secret p c es d i ty = Some s" "ratchet_ok vc p c (i = own_index t) s r0"
      using D(3) i old unfolding ratchets_inv_def by blast
    then show ?thesis using True r that(2) len i by (auto simp: rat)
  next
    case False
    then have "ratchets_of t ty' ! j = Some x" using that len by (auto simp: rat split: if_splits)
    then show ?thesis using D(3) that(1) unfolding ratchets_inv_def by blast
  qed
  then have "ratchets_inv vc p c es d (put_ratchet i ty r t)"
    using unused D(3) unfolding ratchets_inv_def by simp
  moreover have "cover_inv d (put_ratchet i ty r t)"
    using D(4) unused unfolding cover_inv_def by simp
  ultimately show ?thesis using D(1,2) by (simp add: SecretTree_inv_def nodes_inv_def)
qed

text \<open>The first part of both operations: the ratchet is there, or is initialised now.\<close>

lemma ensure_ratchet_effect:
  assumes inv: "SecretTree_inv vc p c es d t" and i: "i < 2 ^ d"
    and run: "(if ratchets_of t ty ! i = None then initialize_sender_ratchets vc p c i t else (t, Ok ())) = (t', res)"
  shows "SecretTree_inv vc p c es d t' \<and> own_index t' = own_index t \<and> (expand_total p \<longrightarrow> res = Ok ()) \<and>
    sender_generation t' = sender_generation t \<and>
    (res = Ok () \<longrightarrow> (\<exists>r s. ratchets_of t' ty ! i = Some r \<and> leaf_ratchet_secret p c es d i ty = Some s \<and>
      ratchet_ok vc p c (i = own_index t) s r \<and> path_levels d t' i = {}))"
proof -
  have e: "SecretTree_inv vc p c es d t' \<and> own_index t' = own_index t \<and> (expand_total p \<longrightarrow> res = Ok ()) \<and>
      sender_generation t' = sender_generation t \<and> (res = Ok () \<longrightarrow> ratchets_of t' ty ! i \<noteq> None)"
    using run initialize_effect [OF inv i] inv by (auto split: if_splits)
  have "\<exists>s. leaf_ratchet_secret p c es d i ty = Some s \<and> ratchet_ok vc p c (i = own_index t) s r \<and>
      path_levels d t' i = {}" if r: "ratchets_of t' ty ! i = Some r"
    for r
  proof -
    have inv': "SecretTree_inv vc p c es d t'" using e by blast
    note D = SecretTree_invD [OF inv']
    obtain s where s: "leaf_ratchet_secret p c es d i ty = Some s" "ratchet_ok vc p c (i = own_index t') s r"
      using D(3) i r unfolding ratchets_inv_def by blast
    have "ratchets_of t' HandshakeSecret ! i \<noteq> None"
      using D(3) i r by (cases ty) (auto simp: ratchets_inv_def)
    then have "path_levels d t' i = {}" using D(4) i unfolding cover_inv_def by (metis (no_types))
    then show ?thesis using s e by auto
  qed
  then show ?thesis using e by blast
qed

lemma ratchet_mut_Some:
  assumes "SecretTree_shape d t" "i < 2 ^ d" "ratchets_of t ty ! i = Some r"
  shows "ratchet_mut t i ty = Ok r"
  using assms length_ratchets [OF assms(1), of ty] by (simp add: ratchet_mut_def)

lemma ratchet_opt_nth:
  assumes "SecretTree_shape d t" "i < 2 ^ d"
  shows "ratchet_opt t i ty = Ok (ratchets_of t ty ! i)"
  using assms length_ratchets [OF assms(1), of ty] by (simp add: ratchet_opt_def)

lemma with_ratchet_cases:
  fixes F :: "SecretTree \<Rightarrow> SenderRatchet \<Rightarrow> SecretTree \<times> ('k, SecretTreeError) outcome"
  assumes inv: "SecretTree_inv vc p c es d t" and i: "i < 2 ^ d"
    and run: "try_then (t, ratchet_opt t i ty) (\<lambda>t r.
      try_then (if r = None then initialize_sender_ratchets vc p c i t else (t, Ok ())) (\<lambda>t _.
      try_then (t, ratchet_mut t i ty) F)) = (t', res)" and np: "res \<noteq> Panic \<or> expand_total p"
  obtains (error) e where "res = Err e" "SecretTree_inv vc p c es d t'" "own_index t' = own_index t"
      "\<not> expand_total p"
    | (ratchet) t1 r s where "F t1 r = (t', res)" "SecretTree_inv vc p c es d t1" "own_index t1 = own_index t"
      "ratchets_of t1 ty ! i = Some r" "leaf_ratchet_secret p c es d i ty = Some s"
      "ratchet_ok vc p c (i = own_index t) s r" "path_levels d t1 i = {}"
      "SecretTree_inv vc p c es d t1"
      "\<And>r'. (\<And>s. ratchet_ok vc p c (i = own_index t) s r \<Longrightarrow> ratchet_ok vc p c (i = own_index t) s r') \<Longrightarrow>
        SecretTree_inv vc p c es d (put_ratchet i ty r' t1)"
      "sender_generation t1 = sender_generation t"
proof -
  note D = SecretTree_invD [OF inv]
  obtain t1 r1 where e1: "(if ratchets_of t ty ! i = None then initialize_sender_ratchets vc p c i t
    else (t, Ok ())) = (t1, r1)" by fastforce
  note e = ensure_ratchet_effect [OF inv i e1]
  have run': "try_then (t1, r1) (\<lambda>t _. try_then (t, ratchet_mut t i ty) F) = (t', res)"
    using run ratchet_opt_nth [OF D(1) i, of ty] e1 by simp
  show thesis
  proof (cases r1)
    case (Ok u)
    then obtain r s where r: "ratchets_of t1 ty ! i = Some r" "leaf_ratchet_secret p c es d i ty = Some s"
      "ratchet_ok vc p c (i = own_index t) s r" "path_levels d t1 i = {}" using e by auto
    have inv1: "SecretTree_inv vc p c es d t1" and own: "own_index t1 = own_index t" using e by auto
    have "F t1 r = (t', res)"
      using run' Ok ratchet_mut_Some [OF SecretTree_invD(1) [OF inv1] i r(1)] by simp
    then show thesis
      using ratchet [of t1 r s] inv1 own r SecretTree_inv_put [OF inv1 i r(1)] e by simp
  next
    case (Err er)
    then show thesis using error [of er] run' e by auto
  next
    case Panic
    then show thesis using run' np e by auto
  qed
qed

lemma tree_decrypt_effect:
  assumes inv: "SecretTree_inv vc p c es d t" and i: "i < 2 ^ d"
    and run: "SecretTree_secret_for_decryption vc p c i ty n cfg t = (t', res)" and np: "res \<noteq> Panic"
  shows "SecretTree_inv vc p c es d t' \<and> own_index t' = own_index t \<and>
    (\<forall>k. res = Ok k \<longrightarrow> path_levels d t' i = {} \<and>
      (\<exists>s. leaf_ratchet_secret p c es d i ty = Some s \<and> key_at p c s n = Some k))"
proof -
  have "i < TreeSize_leaf_count (st_size t)"
    using SecretTree_invD(1) [OF inv] i by (simp add: SecretTree_shape_def)
  then have "\<not> i \<ge> TreeSize_leaf_count (st_size t)" by simp
  note run' = run [unfolded SecretTree_secret_for_decryption_def if_not_P [OF this]]
  from inv i run' disjI1 [OF np] show ?thesis
  proof (cases rule: with_ratchet_cases)
    case (ratchet t1 r s)
    show ?thesis
    proof (cases r)
      case (DecryptionRatchetOf x)
      obtain x' where x': "DecryptionRatchet_secret_for_decryption p c n cfg x = (x', res)"
        and t': "t' = put_ratchet i ty (DecryptionRatchetOf x') t1"
        using ratchet(1) DecryptionRatchetOf by (auto split: prod.splits)
      have "opens_key p c s' n x x' res" if "DecryptionRatchet_inv p c s' x" for s'
        using secret_for_decryption_effect [OF that x' np] .
      then show ?thesis
        using ratchet t' DecryptionRatchetOf by (auto simp: ratchet_ok_def opens_key_def)
    next
      case (DualUse x)
      obtain x' where x': "DualUseRatchet_secret_for_decryption p c n cfg x = (x', res)"
        and t': "t' = put_ratchet i ty (DualUse x') t1"
        using ratchet(1) DualUse by (auto split: prod.splits)
      have "dual_opens p c s' n x x' res" if "DualUseRatchet_inv p c s' x" for s'
        using dual_secret_for_decryption_effect [OF that x' np] .
      then show ?thesis
        using ratchet t' DualUse by (auto simp: ratchet_ok_def dual_opens_def dual_shrinks_def)
    qed (use ratchet in auto)
  qed auto
qed

lemma tree_encrypt_effect:
  assumes inv: "SecretTree_inv vc p c es d t" and i: "i < 2 ^ d"
    and run: "SecretTree_secret_for_encryption vc p c i ty t = (t', res)" and np: "res \<noteq> Panic"
  shows "SecretTree_inv vc p c es d t' \<and> own_index t' = own_index t \<and>
    (\<forall>g k. res = Ok (g, k) \<longrightarrow> path_levels d t' i = {} \<and>
      (\<exists>s. leaf_ratchet_secret p c es d i ty = Some s \<and> key_at p c s g = Some k))"
  using inv i run [unfolded SecretTree_secret_for_encryption_def] disjI1 [OF np]
proof (cases rule: with_ratchet_cases)
  case (ratchet t1 r s)
  show ?thesis
  proof (cases r)
    case (EncryptionRatchet x)
    obtain x' where x': "ratchet_forward p c x = (x', res)"
      and t': "t' = put_ratchet i ty (EncryptionRatchet x') t1"
      using ratchet(1) EncryptionRatchet by (auto split: prod.splits)
    have "on_chain p c s' x'" if "on_chain p c s' x" for s'
      using that x' np on_chain_step(1) [OF that] ratchet_forward_Err [of p c x x']
      by (cases res) auto
    moreover have "key_at p c s g = Some k" if "res = Ok (g, k)" for g k
      using on_chain_step(2) [of p c s x x' g k] ratchet_forward_Ok(1) [of p c x x' g k] that x' ratchet(6)
        EncryptionRatchet by (simp add: ratchet_ok_def)
    ultimately show ?thesis
      using ratchet t' EncryptionRatchet by (simp add: ratchet_ok_def)
  next
    case (DualUse x)
    obtain x' where x': "DualUseRatchet_secret_for_encryption p c x = (x', res)"
      and t': "t' = put_ratchet i ty (DualUse x') t1"
      using ratchet(1) DualUse by (auto split: prod.splits)
    have "dual_shrinks p c s' x x'" if "DualUseRatchet_inv p c s' x" for s'
      using dual_encrypt_effect(1) [OF that x' np] .
    moreover have "key_at p c s g = Some k" if "res = Ok (g, k)" for g k
      using dual_encrypt_effect(2) [OF _ x' np that, of s] ratchet(6) DualUse by (auto simp: ratchet_ok_def)
    ultimately show ?thesis
      using ratchet t' DualUse by (simp add: ratchet_ok_def dual_shrinks_def)
  qed (use ratchet in auto)
qed auto

text \<open>Sending gives the next generation, unless the ratchet is at the last one.\<close>

lemma ratchet_forward_generation:
  assumes "expand_total p" "on_chain p c s x"
  shows "if rs_generation x = u32_MAX then ratchet_forward p c x = (x, Err RatchetTooLong)
    else \<exists>x' k. ratchet_forward p c x = (x', Ok (rs_generation x, k)) \<and> rs_generation x' = Suc (rs_generation x)"
  using ratchet_forward_total [OF assms(1), of x c] ratchet_forward_too_long [of x p c] on_chain_bound [OF assms(2)]
  by (cases "rs_generation x < u32_MAX") auto

lemma tree_encrypt_total:
  assumes inv: "SecretTree_inv vc p c es d t" and own: "own_index t < 2 ^ d" and tot: "expand_total p"
    and run: "SecretTree_secret_for_encryption vc p c (own_index t) ty t = (t', res)"
  shows "if sender_generation t (own_index t) ty = u32_MAX then res = Err RatchetTooLong \<and> sender_generation t' = sender_generation t
    else (\<exists>k. res = Ok (sender_generation t (own_index t) ty, k)) \<and>
      (\<forall>j ty'. sender_generation t' j ty' = sender_generation t j ty' + (if j = own_index t \<and> ty' = ty then 1 else 0))"
  using inv own run [unfolded SecretTree_secret_for_encryption_def] disjI2 [OF tot]
proof (cases rule: with_ratchet_cases)
  case (ratchet t1 r s)
  have len: "own_index t < length (ratchets_of t1 ty)"
    using length_ratchets [OF SecretTree_invD(1) [OF ratchet(2)], of ty] own by simp
  have g: "sender_generation t (own_index t) ty = ratchet_generation r"
    unfolding ratchet(10) [symmetric] by (simp add: sender_generation_def ratchet(4))
  have same: "sender_generation (put_ratchet (own_index t) ty r' t1) = sender_generation t"
    if "ratchet_generation r' = ratchet_generation r" for r'
    using that g ratchet(10) by (simp add: sender_generation_put [OF len] fun_eq_iff)
  show ?thesis
  proof (cases r)
    case (EncryptionRatchet x)
    then have "on_chain p c s x" using ratchet(6) by (simp add: ratchet_ok_def)
    from ratchet_forward_generation [OF tot this] show ?thesis
      using ratchet(1,10) EncryptionRatchet g same [of "EncryptionRatchet x"]
      by (auto simp: sender_generation_put [OF len] split: if_splits)
  next
    case (DualUse x)
    then have "on_chain p c s (dual_ratchet_head x)"
      using ratchet(6) by (auto simp: ratchet_ok_def DualUseRatchet_inv_def)
    from ratchet_forward_generation [OF tot this] show ?thesis
      using ratchet(1,10) DualUse g same
      by (auto simp: DualUseRatchet_secret_for_encryption_def Let_def sender_generation_put [OF len] split: if_splits)
  next
    case (DecryptionRatchetOf x)
    then show ?thesis using ratchet(6) by (simp add: ratchet_ok_def)
  qed
qed (use tot in auto)

text \<open>Without the feature for virtual clients, no other call moves the ratchets of the own leaf.\<close>

lemma tree_encrypt_other:
  assumes inv: "SecretTree_inv vc p c es d t" and i: "i < 2 ^ d" "i \<noteq> own_index t" and tot: "expand_total p"
    and run: "SecretTree_secret_for_encryption vc p c i ty t = (t', res)"
  shows "sender_generation t' = sender_generation t"
  using inv i(1) run [unfolded SecretTree_secret_for_encryption_def] disjI2 [OF tot]
proof (cases rule: with_ratchet_cases)
  case (ratchet t1 r s)
  then show ?thesis using i(2) by (cases r) (auto simp: ratchet_ok_def)
qed (use tot in simp)

lemma tree_decrypt_own_generation:
  assumes inv: "SecretTree_inv False p c es d t" and i: "i < 2 ^ d" and tot: "expand_total p"
    and run: "SecretTree_secret_for_decryption False p c i ty n cfg t = (t', res)"
  shows "sender_generation t' (own_index t) = sender_generation t (own_index t)"
proof -
  have "\<not> i \<ge> TreeSize_leaf_count (st_size t)"
    using SecretTree_invD(1) [OF inv] i by (simp add: SecretTree_shape_def)
  note run' = run [unfolded SecretTree_secret_for_decryption_def if_not_P [OF this]]
  from inv i run' disjI2 [OF tot] show ?thesis
  proof (cases rule: with_ratchet_cases)
    case (ratchet t1 r s)
    have "i < length (ratchets_of t1 ty)" using length_ratchets [OF SecretTree_invD(1) [OF ratchet(2)], of ty] i by simp
    then show ?thesis
      using ratchet(1,6,10) by (cases r) (auto simp: ratchet_ok_def sender_generation_put fun_eq_iff split: prod.splits)
  qed (use tot in simp)
qed

lemma tree_delete_effect:
  assumes inv: "SecretTree_inv vc p c es d t" and own: "own_index t < 2 ^ d"
    and run: "delete_own_secret_for_generation ty n t = (t', res)"
  shows "SecretTree_inv vc p c es d t' \<and> own_index t' = own_index t"
proof (cases "ratchets_of t ty ! own_index t")
  case None
  then have "ratchet_mut t (own_index t) ty = Err IndexOutOfBounds"
    using own length_ratchets [OF SecretTree_invD(1) [OF inv], of ty] by (simp add: ratchet_mut_def)
  then show ?thesis using run inv by (auto simp: delete_own_secret_for_generation_def)
next
  case (Some r)
  note mut = ratchet_mut_Some [OF SecretTree_invD(1) [OF inv] own Some]
  show ?thesis
  proof (cases r)
    case (DualUse x)
    have "dual_shrinks p c s x (delete_secret_for_generation n x)" if "DualUseRatchet_inv p c s x" for s
      by (rule delete_secret_shrinks [OF that])
    then show ?thesis
      using SecretTree_inv_put [OF inv own Some, of "DualUse (delete_secret_for_generation n x)"] run mut DualUse
      by (auto simp: delete_own_secret_for_generation_def ratchet_ok_def dual_shrinks_def)
  qed (use run mut inv in \<open>auto simp: delete_own_secret_for_generation_def\<close>)
qed

section \<open>Runs of a secret tree\<close>

text \<open>
  The operations that a group calls on the secret tree of an epoch. As for the ratchets, a run goes on
  after a panic from the state before it, which only adds runs to those of the program.
\<close>

datatype tree_op =
    TreeDecrypt LeafNodeIndex SecretType Generation SenderRatchetConfiguration
  | TreeEncrypt LeafNodeIndex SecretType
  | TreeDelete SecretType Generation

fun tree_step :: "bool \<Rightarrow> 'a provider_scheme \<Rightarrow> Ciphersuite \<Rightarrow> tree_op \<Rightarrow> SecretTree \<Rightarrow> SecretTree" where
  "tree_step vc p c (TreeDecrypt i ty n cfg) t =
     (case SecretTree_secret_for_decryption vc p c i ty n cfg t of (t', Panic) \<Rightarrow> t | (t', _) \<Rightarrow> t')"
| "tree_step vc p c (TreeEncrypt i ty) t =
     (case SecretTree_secret_for_encryption vc p c i ty t of (t', Panic) \<Rightarrow> t | (t', _) \<Rightarrow> t')"
| "tree_step vc p c (TreeDelete ty n) t = fst (delete_own_secret_for_generation ty n t)"

lemma tree_decrypt_outside:
  assumes "SecretTree_shape d t" "\<not> i < 2 ^ d"
  shows "SecretTree_secret_for_decryption vc p c i ty n cfg t = (t, Err IndexOutOfBounds)"
  using assms by (simp add: SecretTree_secret_for_decryption_def SecretTree_shape_def)

lemma tree_encrypt_outside:
  assumes "SecretTree_shape d t" "\<not> i < 2 ^ d"
  shows "SecretTree_secret_for_encryption vc p c i ty t = (t, Err IndexOutOfBounds)"
  using assms length_ratchets [OF assms(1), of ty]
  by (simp add: SecretTree_secret_for_encryption_def ratchet_opt_def)

definition tree_inv :: "bool \<Rightarrow> 'a provider_scheme \<Rightarrow> Ciphersuite \<Rightarrow> Secret \<Rightarrow> nat \<Rightarrow> LeafNodeIndex \<Rightarrow> SecretTree \<Rightarrow> bool" where
  "tree_inv vc p c es d own t \<longleftrightarrow> SecretTree_inv vc p c es d t \<and> own_index t = own \<and> own < 2 ^ d"

lemma tree_step_inv:
  assumes "tree_inv vc p c es d own t"
  shows "tree_inv vc p c es d own (tree_step vc p c op t)"
proof -
  have inv: "SecretTree_inv vc p c es d t" and own: "own_index t = own" "own < 2 ^ d"
    using assms by (simp_all add: tree_inv_def)
  note sh = SecretTree_invD(1) [OF inv]
  show ?thesis
  proof (cases op)
    case (TreeDecrypt i ty n cfg)
    obtain t' res where r: "SecretTree_secret_for_decryption vc p c i ty n cfg t = (t', res)" by fastforce
    show ?thesis
      using TreeDecrypt r assms tree_decrypt_effect [OF inv _ r] tree_decrypt_outside [OF sh, of i vc p c ty n cfg] own
      by (cases "i < 2 ^ d"; cases res) (auto simp: tree_inv_def)
  next
    case (TreeEncrypt i ty)
    obtain t' res where r: "SecretTree_secret_for_encryption vc p c i ty t = (t', res)" by fastforce
    show ?thesis
      using TreeEncrypt r assms tree_encrypt_effect [OF inv _ r] tree_encrypt_outside [OF sh, of i vc p c ty] own
      by (cases "i < 2 ^ d"; cases res) (auto simp: tree_inv_def)
  next
    case (TreeDelete ty n)
    obtain t' res where r: "delete_own_secret_for_generation ty n t = (t', res)" by fastforce
    show ?thesis
      using TreeDelete r tree_delete_effect [OF inv _ r] own by (auto simp: tree_inv_def)
  qed
qed

lemma tree_run_inv:
  "tree_inv vc p c es d own t \<Longrightarrow> tree_inv vc p c es d own (fold (tree_step vc p c) ops t)"
  by (induction ops arbitrary: t) (simp_all add: tree_step_inv)

lemma tree_reachable:
  assumes "full_size sz" "own < TreeSize_leaf_count sz" "SecretTree_new es sz own = Some t0"
  obtains d where "sz = depth_size d" "tree_inv vc p c es d own (fold (tree_step vc p c) ops t0)"
proof -
  obtain d where d: "d < 30" "sz = depth_size d" using assms(1) by (rule full_sizeE)
  have "tree_inv vc p c es d own t0"
    using SecretTree_new_inv [OF d(1), of es own vc p c] assms(2,3) d(2) by (auto simp: tree_inv_def)
  then show thesis using that [of d] d(2) tree_run_inv by blast
qed

lemma tree_step_generation:
  assumes inv: "tree_inv False p c es d own t" and tot: "expand_total p" and le: "sender_generation t own ty \<le> u32_MAX"
  shows "sender_generation (tree_step False p c op t) own ty =
    min u32_MAX (sender_generation t own ty + (if op = TreeEncrypt own ty then 1 else 0))"
proof -
  have I: "SecretTree_inv False p c es d t" and own: "own_index t = own" "own < 2 ^ d"
    using inv by (simp_all add: tree_inv_def)
  note sh = SecretTree_invD(1) [OF I]
  show ?thesis
  proof (cases op)
    case (TreeDecrypt i ty' n cfg)
    obtain t' res where r: "SecretTree_secret_for_decryption False p c i ty' n cfg t = (t', res)" by fastforce
    show ?thesis
      using TreeDecrypt r le own tree_decrypt_own_generation [OF I _ tot r] tree_decrypt_outside [OF sh, of i False p c ty' n cfg]
      by (cases "i < 2 ^ d"; cases res) auto
  next
    case (TreeEncrypt i ty')
    obtain t' res where r: "SecretTree_secret_for_encryption False p c i ty' t = (t', res)" by fastforce
    show ?thesis
    proof (cases "i = own")
      case True
      then show ?thesis using TreeEncrypt r le own tree_encrypt_total [OF I _ tot, of ty' t' res]
        by (cases res) (auto split: if_splits)
    next
      case False
      then show ?thesis
        using TreeEncrypt r le own tree_encrypt_other [OF I _ _ tot r] tree_encrypt_outside [OF sh, of i False p c ty']
        by (cases "i < 2 ^ d"; cases res) auto
    qed
  next
    case (TreeDelete ty' n)
    have "ratchets_of t ty' ! own = None \<or> (\<exists>x. ratchets_of t ty' ! own = Some (EncryptionRatchet x))"
    proof (cases "ratchets_of t ty' ! own")
      case (Some r)
      with SecretTree_invD(3) [OF I] own obtain s where "ratchet_ok False p c (own = own_index t) s r"
        unfolding ratchets_inv_def by blast
      then show ?thesis using Some own(1) by (cases r) (simp_all add: ratchet_ok_def)
    qed simp
    then have "fst (delete_own_secret_for_generation ty' n t) = t"
      using own length_ratchets [OF sh, of ty'] by (auto simp: delete_own_secret_for_generation_def ratchet_mut_def)
    then show ?thesis using TreeDelete le by simp
  qed
qed

lemma tree_run_generation:
  assumes "tree_inv False p c es d own t" "expand_total p" "sender_generation t own ty \<le> u32_MAX"
  shows "sender_generation (fold (tree_step False p c) ops t) own ty =
    min u32_MAX (sender_generation t own ty + length (filter ((=) (TreeEncrypt own ty)) ops))"
  using assms
proof (induction ops arbitrary: t)
  case (Cons op ops)
  show ?case
    using Cons.IH [OF tree_step_inv [OF Cons.prems(1)] Cons.prems(2)] tree_step_generation [OF Cons.prems, of op]
    by (auto simp: min_def)
qed simp

section \<open>Properties\<close>

text \<open>
  (C16) In every run of a secret tree, a key that is returned for decryption or for encryption is
  the key of that generation on the chain of that leaf and content type, which starts from the secret
  that the encryption secret of the epoch gives for the leaf by derivation from the root.
\<close>

theorem tree_keys_from_leaf_secret:
  assumes "full_size sz" "own < TreeSize_leaf_count sz" "SecretTree_new es sz own = Some t0"
    and "t = fold (tree_step vc p c) ops t0" "i < TreeSize_leaf_count sz"
    and "SecretTree_secret_for_decryption vc p c i ty n cfg t = (t', Ok k) \<or>
      SecretTree_secret_for_encryption vc p c i ty t = (t', Ok (n, k))"
  shows "\<exists>leaf s. path_secret p c es (log2 sz) i = Some leaf \<and>
    Secret_kdf_expand_label leaf p c (type_label ty) [] (hash_length c) = Ok s \<and> key_at p c s n = Some k"
proof -
  obtain d where d: "sz = depth_size d" and t: "tree_inv vc p c es d own t"
    using tree_reachable [OF assms(1-3)] assms(4) by metis
  have inv: "SecretTree_inv vc p c es d t" and i: "i < 2 ^ d"
    using t d assms(5) by (simp_all add: tree_inv_def)
  have "log2 sz = d" using SecretTree_invD(1) [OF inv] d by (simp add: SecretTree_shape_def)
  moreover obtain s where "leaf_ratchet_secret p c es d i ty = Some s" "key_at p c s n = Some k"
    using assms(6) tree_decrypt_effect [OF inv i, of ty n cfg t' "Ok k"]
      tree_encrypt_effect [OF inv i, of ty t' "Ok (n, k)"] by blast
  ultimately show ?thesis
    by (auto simp: leaf_ratchet_secret_def split: option.splits outcome.splits)
qed

text \<open>
  (C17) Forward secrecy of the tree: once a leaf's key was returned, in this or an earlier call, no
  secret from which the leaf's ratchets could be derived again is left: the leaf and every node on its
  direct path are empty.
\<close>

theorem tree_path_deleted:
  assumes "full_size sz" "own < TreeSize_leaf_count sz" "SecretTree_new es sz own = Some t0"
    and "t = fold (tree_step vc p c) ops t0" "i < TreeSize_leaf_count sz"
    and "SecretTree_secret_for_decryption vc p c i ty n cfg t = (t', Ok k) \<or>
      SecretTree_secret_for_encryption vc p c i ty t = (t', Ok (n, k))"
  shows "\<exists>path. direct_path i sz = Some path \<and> get_node t' (Leaf i) = Ok None \<and>
    (\<forall>j \<in> set path. get_node t' (Parent j) = Ok None)"
proof -
  obtain d where d: "sz = depth_size d" and t: "tree_inv vc p c es d own t"
    using tree_reachable [OF assms(1-3)] assms(4) by metis
  have inv: "SecretTree_inv vc p c es d t" and i: "i < 2 ^ d"
    using t d assms(5) by (simp_all add: tree_inv_def)
  have e: "SecretTree_inv vc p c es d t' \<and> path_levels d t' i = {}"
    using assms(6) tree_decrypt_effect [OF inv i, of ty n cfg t' "Ok k"]
      tree_encrypt_effect [OF inv i, of ty t' "Ok (n, k)"] by blast
  then have sh: "SecretTree_shape d t'" by (simp add: SecretTree_inv_def)
  have none: "get_node t' (tree_node j (i div 2 ^ j)) = Ok None" if "j \<le> d" for j
    using get_node_in_tree [OF sh in_tree_div [OF i that]] e that by (auto simp: path_levels_def)
  have "direct_path i sz = Some (map (\<lambda>j. node_at j (i div 2 ^ Suc j)) [0..<d])"
    using sh i d by (simp add: direct_path_depth_size SecretTree_shape_def)
  moreover have "get_node t' (Leaf i) = Ok None" using none [of 0] by simp
  moreover have "get_node t' (Parent (node_at j (i div 2 ^ Suc j))) = Ok None" if "j < d" for j
    using none [of "Suc j"] that by (simp del: power_Suc)
  ultimately show ?thesis by (auto simp del: power_Suc get_node.simps)
qed

text \<open>
  (C18) If key derivation does not fail, sending succeeds in every reachable state of the tree with the
  generation that the own ratchet is at, and moves that ratchet and no other to the next one. Only at the
  last generation of \<open>u32\<close> it reports that the ratchet is too long, and moves no ratchet. Without the
  feature for virtual clients the generation is the number of earlier sends of that content type:
  nothing else that is done with the tree uses one up.
\<close>

theorem tree_encryption_succeeds:
  assumes "expand_total p" "full_size sz" "own < TreeSize_leaf_count sz" "SecretTree_new es sz own = Some t0"
    and "t = fold (tree_step vc p c) ops t0"
  shows "\<exists>t'. (if sender_generation t own ty = u32_MAX
      then SecretTree_secret_for_encryption vc p c own ty t = (t', Err RatchetTooLong) \<and> sender_generation t' = sender_generation t
      else (\<exists>k. SecretTree_secret_for_encryption vc p c own ty t = (t', Ok (sender_generation t own ty, k))) \<and>
        (\<forall>i ty'. sender_generation t' i ty' = sender_generation t i ty' + (if i = own \<and> ty' = ty then 1 else 0))) \<and>
    (\<not> vc \<longrightarrow> sender_generation t own ty = min u32_MAX (length (filter ((=) (TreeEncrypt own ty)) ops)))"
proof -
  obtain d where t: "tree_inv vc p c es d own t"
    using tree_reachable [OF assms(2-4)] assms(5) by metis
  obtain t' res where r: "SecretTree_secret_for_encryption vc p c own ty t = (t', res)" by fastforce
  obtain d' where d': "sz = depth_size d'" "tree_inv vc p c es d' own t0"
    using tree_reachable [OF assms(2-4), of vc p c "[]"] by auto
  have "sender_generation t0 own ty = 0"
    using SecretTree_new_inv [of d' es own vc p c] assms(3,4) d' SecretTree_invD(1) [of vc p c es d' t0]
    by (auto simp: sender_generation_def tree_inv_def SecretTree_shape_def)
  then have "sender_generation t own ty = min u32_MAX (length (filter ((=) (TreeEncrypt own ty)) ops))" if "\<not> vc"
    using tree_run_generation [of p c es d' own t0 ty ops] d'(2) assms(1,5) that by simp
  then show ?thesis
    using tree_encrypt_total [of vc p c es d t ty t' res] t assms(1) r by (auto simp: tree_inv_def split: if_splits)
qed

text \<open>A tree of one leaf, over the provider of zeros.\<close>

definition one_leaf_tree :: SecretTree where
  "one_leaf_tree = \<lparr>own_index = 0, st_leaf_nodes = [Some (Secret [1])], st_parent_nodes = [None],
     handshake_sender_ratchets = [None], application_sender_ratchets = [None], st_size = 1\<rparr>"

lemma one_leaf_tree_new: "full_size 1" "0 < TreeSize_leaf_count 1" "SecretTree_new (Secret [1]) 1 0 = Some one_leaf_tree"
proof -
  show "full_size 1" using full_size_depth_size [of 0] by (simp add: depth_size_def)
  show "0 < TreeSize_leaf_count 1" by (simp add: TreeSize_leaf_count_def)
  have "root 1 = Some (Leaf 0)" using root_depth_size [of 0] by (simp add: depth_size_def)
  then show "SecretTree_new (Secret [1]) 1 0 = Some one_leaf_tree"
    by (simp add: SecretTree_new_def TreeSize_leaf_count_def one_leaf_tree_def)
qed

lemma one_leaf_encrypt:
  "\<exists>t' k. SecretTree_secret_for_encryption False zero_provider suite1 0 ApplicationSecret one_leaf_tree = (t', Ok (0, k))"
proof -
  have kdf: "\<exists>k. Secret_kdf_expand_label (Secret [1]) zero_provider suite1 l [] (hash_length suite1) = Ok k" for l
    by (rule expand_hash_total) simp
  then obtain hs as where
    "Secret_kdf_expand_label (Secret [1]) zero_provider suite1 ''handshake'' [] (hash_length suite1) = Ok hs"
    "Secret_kdf_expand_label (Secret [1]) zero_provider suite1 ''application'' [] (hash_length suite1) = Ok as"
    by metis
  then show ?thesis
    using zero_ratchet_forward [of 0 suite1 as]
    by (simp add: SecretTree_secret_for_encryption_def ratchet_opt_def ratchets_of_def one_leaf_tree_def
        initialize_sender_ratchets_def TreeSize_leaf_count_def derive_to_leaf_def ratchets_from_leaf_def
        new_ratchets_def Let_def ratchet_mut_def initial_ratchet_secret_def u32_MAX_def)
qed

theorem tree_keys_from_leaf_secret_witness:
  "\<exists>k leaf s. path_secret zero_provider suite1 (Secret [1]) (log2 1) 0 = Some leaf \<and>
     Secret_kdf_expand_label leaf zero_provider suite1 ''application'' [] (hash_length suite1) = Ok s \<and>
     key_at zero_provider suite1 s 0 = Some k"
proof -
  obtain t' k where e: "SecretTree_secret_for_encryption False zero_provider suite1 0 ApplicationSecret
      one_leaf_tree = (t', Ok (0, k))" using one_leaf_encrypt by blast
  have "one_leaf_tree = fold (tree_step False zero_provider suite1) [] one_leaf_tree" by simp
  from tree_keys_from_leaf_secret [OF one_leaf_tree_new this one_leaf_tree_new(2) disjI2 [OF e]]
  show ?thesis by (simp only: type_label.simps) blast
qed

theorem tree_path_deleted_witness:
  "\<exists>t' k. SecretTree_secret_for_encryption False zero_provider suite1 0 ApplicationSecret one_leaf_tree =
     (t', Ok (0, k)) \<and> get_node t' (Leaf 0) = Ok None"
proof -
  obtain t' k where e: "SecretTree_secret_for_encryption False zero_provider suite1 0 ApplicationSecret
      one_leaf_tree = (t', Ok (0, k))" using one_leaf_encrypt by blast
  have "one_leaf_tree = fold (tree_step False zero_provider suite1) [] one_leaf_tree" by simp
  from tree_path_deleted [OF one_leaf_tree_new this one_leaf_tree_new(2) disjI2 [OF e]]
  have "get_node t' (Leaf 0) = Ok None" by blast
  with e show ?thesis by blast
qed

theorem tree_encryption_succeeds_witness:
  "\<exists>t' k. SecretTree_secret_for_encryption False zero_provider suite1 0 HandshakeSecret
      (fold (tree_step False zero_provider suite1) [TreeEncrypt 0 HandshakeSecret, TreeDecrypt 0 ApplicationSecret 3 SenderRatchetConfiguration_default,
         TreeEncrypt 0 ApplicationSecret, TreeEncrypt 0 HandshakeSecret] one_leaf_tree) = (t', Ok (2, k)) \<and>
    sender_generation t' 0 HandshakeSecret = 3"
  using tree_encryption_succeeds [OF zero_provider_laws(4) one_leaf_tree_new refl, of False suite1
      "[TreeEncrypt 0 HandshakeSecret, TreeDecrypt 0 ApplicationSecret 3 SenderRatchetConfiguration_default,
        TreeEncrypt 0 ApplicationSecret, TreeEncrypt 0 HandshakeSecret]" HandshakeSecret]
  by (auto simp: u32_MAX_def simp del: tree_step.simps fold_simps)

end
