(* ===== verification/Pprf.thy ===== *)
theory Pprf
  imports SecretTree
begin

text \<open>
  The puncturable pseudorandom function (\<open>schedule/pprf\<close>) with the prefix type
  \<open>Prefix16\<close>, its only instance, and the application export tree built on it
  (\<open>schedule/application_export_tree.rs\<close>). The map of nodes is a HashMap, here a HOL map.
\<close>

unbundle bit_operations_syntax

section \<open>Prefixes\<close>

datatype PprfError = PprfIndexOutOfBounds | PuncturedInput | ChildDerivationError CryptoError
  | PrefixMaxDepthExceeded

definition MAX_DEPTH :: nat where
  "MAX_DEPTH = 16"

definition MAX_INPUT_LEN :: nat where
  "MAX_INPUT_LEN = MAX_DEPTH div 8"

text \<open>\<open>PrefixLen<16, u8>\<close>, with the conversion from \<open>usize\<close> to \<open>u8\<close>.\<close>

type_synonym PrefixLen = nat

definition PrefixLen_new :: "nat \<Rightarrow> (PrefixLen, PprfError) outcome" where
  "PrefixLen_new len = (if len > MAX_DEPTH then Err PrefixMaxDepthExceeded else Ok len)"

definition PrefixLen_incremented :: "PrefixLen \<Rightarrow> (PrefixLen, PprfError) outcome" where
  "PrefixLen_incremented len =
     (if len + 1 < 2 ^ 8 then PrefixLen_new (len + 1) else Err PrefixMaxDepthExceeded)"

record Prefix16 =
  prefix_bits :: "16 word"
  prefix_len :: PrefixLen

definition Prefix16_new :: Prefix16 where
  "Prefix16_new = \<lparr>prefix_bits = 0, prefix_len = 0\<rparr>"

definition Prefix16_push_bit :: "Prefix16 \<Rightarrow> bool \<Rightarrow> (Prefix16, PprfError) outcome" where
  "Prefix16_push_bit prefix b =
     outcome_bind (PrefixLen_incremented (prefix_len prefix)) (\<lambda>len.
       Ok \<lparr>prefix_bits = push_bit 1 (prefix_bits prefix) OR of_bool b, prefix_len = len\<rparr>)"

section \<open>The function\<close>

record Pprf =
  pprf_nodes :: "Prefix16 \<rightharpoonup> Secret"
  pprf_width :: nat

text \<open>The bit at an index of a byte string, most significant first; the index may be out of bounds.\<close>

definition get_bit :: "bytes \<Rightarrow> nat \<Rightarrow> bool option" where
  "get_bit index bit_index =
     (case vec_get index (bit_index div 8) of
        None \<Rightarrow> None
      | Some byte \<Rightarrow> Some (drop_bit (7 - bit_index mod 8) byte AND 1 = 1))"

definition Pprf_new_with_size :: "Secret \<Rightarrow> TreeSize \<Rightarrow> Pprf" where
  "Pprf_new_with_size secret sz =
     \<lparr>pprf_nodes = [Prefix16_new \<mapsto> secret], pprf_width = TreeSize_leaf_count sz\<rparr>"

lemma get_bit_Some: "get_bit index i = Some b \<Longrightarrow> i < 8 * length index"
  by (auto simp: get_bit_def vec_get_def split: if_split_asm)

text \<open>
  The loop of step 1: the first node on the path of the input that the map has, which it removes,
  with its prefix and depth.
\<close>

function find_deepest ::
    "bytes \<Rightarrow> Prefix16 \<Rightarrow> nat \<Rightarrow> Pprf \<Rightarrow> Pprf \<times> (Secret \<times> Prefix16 \<times> nat, PprfError) outcome" where
  "find_deepest index prefix depth t =
     (case pprf_nodes t prefix of
        Some node \<Rightarrow> (t\<lparr>pprf_nodes := (pprf_nodes t)(prefix := None)\<rparr>, Ok (node, prefix, depth))
      | None \<Rightarrow>
          if depth = MAX_DEPTH then (t, Err PuncturedInput)
          else (case get_bit index depth of
              None \<Rightarrow> (t, Panic)
            | Some b \<Rightarrow> (case Prefix16_push_bit prefix b of
                Ok prefix' \<Rightarrow> find_deepest index prefix' (depth + 1) t
              | Err e \<Rightarrow> (t, Err e)
              | Panic \<Rightarrow> (t, Panic))))"
  by pat_completeness auto

termination
  by (relation "measure (\<lambda>(index, _, depth, _). 8 * length index - depth)")
    (auto dest: get_bit_Some)

declare find_deepest.simps [simp del]

text \<open>Step 2: the children of the nodes on the path, the siblings of which go into the map.\<close>

fun walk_path ::
    "'a provider_scheme \<Rightarrow> Ciphersuite \<Rightarrow> bytes \<Rightarrow> nat list \<Rightarrow> Prefix16 \<Rightarrow> Secret \<Rightarrow> Pprf \<Rightarrow>
     Pprf \<times> (Secret, PprfError) outcome" where
  "walk_path p c index [] prefix current_node t = (t, Ok current_node)"
| "walk_path p c index (d # ds) prefix current_node t =
     try_then (t, map_err ChildDerivationError (derive_child_secrets current_node p c)) (\<lambda>t (left, right).
     try_then (t, or_panic (get_bit index d)) (\<lambda>t b.
       let (next_node, copath_node) = (if b then (right, left) else (left, right)) in
       try_then (t, Prefix16_push_bit prefix (\<not> b)) (\<lambda>t copath_prefix.
       let t' = t\<lparr>pprf_nodes := (pprf_nodes t)(copath_prefix \<mapsto> copath_node)\<rparr> in
       try_then (t', or_panic (debug_assert (pprf_nodes t copath_prefix = None))) (\<lambda>t _.
       try_then (t, Prefix16_push_bit prefix b) (\<lambda>t prefix'.
         walk_path p c index ds prefix' next_node t)))))"

definition Pprf_evaluate ::
    "'a provider_scheme \<Rightarrow> Ciphersuite \<Rightarrow> bytes \<Rightarrow> Pprf \<Rightarrow> Pprf \<times> (Secret, PprfError) outcome" where
  "Pprf_evaluate p c input t =
     (if length input > MAX_INPUT_LEN then (t, Err PprfIndexOutOfBounds)
      else try_then (find_deepest input Prefix16_new 0 t) (\<lambda>t (node, prefix, depth).
        if depth = MAX_DEPTH then (t, Ok node)
        else walk_path p c input [depth..<MAX_DEPTH] prefix node t))"

text \<open>The inputs of the application export tree are component ids.\<close>

definition as_index_bytes :: "ComponentId \<Rightarrow> bytes" where
  "as_index_bytes v = [ucast (drop_bit 8 v), ucast v]"

definition ApplicationExportTree_new :: "Secret \<Rightarrow> Pprf option" where
  "ApplicationExportTree_new application_exporter =
     (case TreeSize_from_leaf_count (2 ^ 16 - 1) of
        None \<Rightarrow> None
      | Some sz \<Rightarrow> Some (Pprf_new_with_size application_exporter sz))"

definition safe_export_secret ::
    "'a provider_scheme \<Rightarrow> Ciphersuite \<Rightarrow> ComponentId \<Rightarrow> Pprf \<Rightarrow> Pprf \<times> (Secret, PprfError) outcome" where
  "safe_export_secret p c component_id t = Pprf_evaluate p c (as_index_bytes component_id) t"

section \<open>Serialisation of the map\<close>

text \<open>
  A prefix is stored as the pair of its bits and its length, the length is checked when it is
  read, and the nodes are stored as a sequence of pairs in the order the HashMap iterates.
\<close>

definition SerdePrefix16_from :: "Prefix16 \<Rightarrow> 16 word \<times> nat" where
  "SerdePrefix16_from prefix = (prefix_bits prefix, prefix_len prefix)"

definition deserialize_prefix :: "16 word \<times> nat \<Rightarrow> (Prefix16, PprfError) outcome" where
  "deserialize_prefix x =
     outcome_bind (PrefixLen_new (snd x)) (\<lambda>len. Ok \<lparr>prefix_bits = fst x, prefix_len = len\<rparr>)"

definition serialize_hashmap :: "(Prefix16 \<times> Secret) list \<Rightarrow> ((16 word \<times> nat) \<times> bytes) list" where
  "serialize_hashmap entries =
     map (\<lambda>(k, v). (SerdePrefix16_from k, Secret_as_slice v)) entries"

fun deserialize_hashmap ::
    "((16 word \<times> nat) \<times> bytes) list \<Rightarrow> (Prefix16 \<rightharpoonup> Secret) \<Rightarrow> (Prefix16 \<rightharpoonup> Secret, PprfError) outcome" where
  "deserialize_hashmap [] m = Ok m"
| "deserialize_hashmap ((k, v) # xs) m =
     outcome_bind (deserialize_prefix k) (\<lambda>k'. deserialize_hashmap xs (m(k' \<mapsto> Secret_from_slice v)))"

section \<open>Nodes by depth and position\<close>

text \<open>The node at depth \<open>d\<close> and position \<open>q\<close> from the left.\<close>

definition pfx :: "nat \<Rightarrow> nat \<Rightarrow> Prefix16" where
  "pfx d q = \<lparr>prefix_bits = word_of_nat q, prefix_len = d\<rparr>"

lemma pfx_new: "Prefix16_new = pfx 0 0"
  by (simp add: Prefix16_new_def pfx_def)

lemma pfx_eq_iff:
  assumes "q < 2 ^ d" "d \<le> 16" "r < 2 ^ e" "e \<le> 16"
  shows "pfx d q = pfx e r \<longleftrightarrow> d = e \<and> q = r"
proof -
  have "(2::nat) ^ d \<le> 2 ^ 16" "(2::nat) ^ e \<le> 2 ^ 16"
    using power_increasing [OF assms(2), of "2::nat"] power_increasing [OF assms(4), of "2::nat"] by simp_all
  then have "q < 2 ^ 16" "r < 2 ^ 16" using assms(1,3) by linarith+
  then have "(word_of_nat q :: 16 word) = word_of_nat r \<longleftrightarrow> q = r"
    by (simp add: word_of_nat_eq_iff take_bit_nat_eq_self)
  then show ?thesis by (auto simp: pfx_def)
qed

lemma push_bit_pfx:
  assumes "d < 16"
  shows "Prefix16_push_bit (pfx d q) b = Ok (pfx (Suc d) (2 * q + of_bool b))"
proof -
  have "push_bit 1 (word_of_nat q :: 16 word) OR of_bool b = push_bit 1 (word_of_nat q) + of_bool b"
    by (cases b) (simp_all add: or_one_eq)
  then show ?thesis
    using assms
    by (simp add: Prefix16_push_bit_def PrefixLen_incremented_def PrefixLen_new_def MAX_DEPTH_def pfx_def
        push_bit_eq_mult)
qed

lemma get_bit_index:
  assumes "d < 16"
  shows "get_bit (as_index_bytes v) d = Some (odd (unat v div 2 ^ (15 - d)))"
proof -
  have b: "bit v (15 - d) = odd (unat v div 2 ^ (15 - d))"
    by (simp add: bit_unsigned_iff flip: bit_iff_odd [of "unat v"])
  show ?thesis
  proof (cases "d < 8")
    case True
    then have "bit (ucast (drop_bit 8 v) :: 8 word) (7 - d) = bit v (15 - d)"
      by (auto simp: bit_simps)
    with True b show ?thesis
      by (simp add: get_bit_def as_index_bytes_def and_one_eq odd_iff_mod_2_eq_one bit_iff_odd_drop_bit)
  next
    case False
    then have e: "d div 8 = 1" "7 - d mod 8 = 15 - d" using assms by presburger+
    have "bit (ucast v :: 8 word) (15 - d) = bit v (15 - d)"
      using False by (auto simp: bit_simps)
    with False b e show ?thesis
      by (simp add: get_bit_def as_index_bytes_def and_one_eq odd_iff_mod_2_eq_one bit_iff_odd_drop_bit)
  qed
qed

text \<open>The position, at depth \<open>d\<close>, of the node on the path of an input.\<close>

definition pos :: "nat \<Rightarrow> 16 word \<Rightarrow> nat" where
  "pos d v = unat v div 2 ^ (16 - d)"

lemma pos_bound: "d \<le> 16 \<Longrightarrow> pos d v < 2 ^ d"
  using unsigned_less [of v, where ?'a = nat] unfolding pos_def
  by (intro less_mult_imp_div_less) (simp flip: power_add)

lemma pos_0: "pos 0 v = 0"
  using pos_bound [of 0 v] by simp

lemma pos_16: "pos 16 v = unat v"
  by (simp add: pos_def)

lemma pos_div: "d \<le> e \<Longrightarrow> e \<le> 16 \<Longrightarrow> pos e v div 2 ^ (e - d) = pos d v"
  by (simp add: pos_def flip: div_mult2_eq power_add)

lemma pos_Suc: "d < 16 \<Longrightarrow> pos (Suc d) v = 2 * pos d v + of_bool (odd (unat v div 2 ^ (15 - d)))"
proof -
  assume "d < 16"
  then have "16 - d = Suc (15 - d)" "16 - Suc d = 15 - d" by simp_all
  then have "pos d v = unat v div 2 ^ (15 - d) div 2" "pos (Suc d) v = unat v div 2 ^ (15 - d)"
    by (simp_all only: pos_def div_power_Suc)
  then show ?thesis by simp
qed

section \<open>The invariant\<close>

text \<open>
  Every node in the map holds the secret that the root determines for its position, and no node
  in the map is above another. An input is live if a node on its path is in the map.
\<close>

definition valid_node ::
    "'a provider_scheme \<Rightarrow> Ciphersuite \<Rightarrow> Secret \<Rightarrow> Prefix16 \<Rightarrow> Secret \<Rightarrow> bool" where
  "valid_node p c es k s \<longleftrightarrow>
     (\<exists>d q. k = pfx d q \<and> d \<le> 16 \<and> q < 2 ^ d \<and> path_secret p c es d q = Some s)"

definition prefix_free :: "(Prefix16 \<rightharpoonup> Secret) \<Rightarrow> bool" where
  "prefix_free m \<longleftrightarrow>
     (\<forall>d q e r. d \<le> e \<longrightarrow> e \<le> 16 \<longrightarrow> q < 2 ^ d \<longrightarrow> r < 2 ^ e \<longrightarrow> r div 2 ^ (e - d) = q \<longrightarrow>
        m (pfx d q) \<noteq> None \<longrightarrow> m (pfx e r) \<noteq> None \<longrightarrow> d = e)"

definition nodes_ok :: "'a provider_scheme \<Rightarrow> Ciphersuite \<Rightarrow> Secret \<Rightarrow> (Prefix16 \<rightharpoonup> Secret) \<Rightarrow> bool" where
  "nodes_ok p c es m \<longleftrightarrow> (\<forall>k s. m k = Some s \<longrightarrow> valid_node p c es k s) \<and> prefix_free m"

definition live :: "(Prefix16 \<rightharpoonup> Secret) \<Rightarrow> 16 word \<Rightarrow> bool" where
  "live m v \<longleftrightarrow> (\<exists>d \<le> 16. m (pfx d (pos d v)) \<noteq> None)"

lemma valid_nodeI:
  "d \<le> 16 \<Longrightarrow> q < 2 ^ d \<Longrightarrow> path_secret p c es d q = Some s \<Longrightarrow> valid_node p c es (pfx d q) s"
  unfolding valid_node_def by blast

lemma prefix_freeD:
  assumes "prefix_free m" "m (pfx d q) \<noteq> None" "m (pfx e r) \<noteq> None"
    and "d \<le> e" "e \<le> 16" "q < 2 ^ d" "r < 2 ^ e" "r div 2 ^ (e - d) = q"
  shows "d = e"
  using assms unfolding prefix_free_def by blast

lemma live_unique:
  assumes "prefix_free m" "m (pfx d (pos d v)) \<noteq> None" "m (pfx e (pos e v)) \<noteq> None" "d \<le> 16" "e \<le> 16"
  shows "d = e"
proof (cases "d \<le> e")
  case True
  then show ?thesis using prefix_freeD [OF assms(1-3)] assms pos_bound pos_div by simp
next
  case False
  then show ?thesis using prefix_freeD [OF assms(1,3,2)] assms pos_bound pos_div by simp
qed

lemma nodes_ok_remove: "nodes_ok p c es m \<Longrightarrow> nodes_ok p c es (m(k := None))"
  unfolding nodes_ok_def prefix_free_def by (simp add: fun_upd_def)

lemma live_remove: "live (m(k := None)) u \<Longrightarrow> live m u"
  by (auto simp: live_def split: if_split_asm)

text \<open>Removing the node on the path of an input punctures the input; at a leaf, no other input.\<close>

lemma punctured:
  assumes "prefix_free m" "m (pfx d (pos d v)) \<noteq> None" "d \<le> 16"
  shows "\<not> live (m(pfx d (pos d v) := None)) v"
proof
  assume "live (m(pfx d (pos d v) := None)) v"
  then obtain e where e: "e \<le> 16" "pfx e (pos e v) \<noteq> pfx d (pos d v)" "m (pfx e (pos e v)) \<noteq> None"
    by (auto simp: live_def split: if_split_asm)
  from live_unique [OF assms(1,2) e(3) assms(3) e(1)] e(2) show False by simp
qed

lemma live_remove_leaf:
  assumes "live m u" "u \<noteq> v"
  shows "live (m(pfx 16 (pos 16 v) := None)) u"
proof -
  obtain d where d: "d \<le> 16" "m (pfx d (pos d u)) \<noteq> None" using assms(1) by (auto simp: live_def)
  have "pfx d (pos d u) \<noteq> pfx 16 (pos 16 v)"
    using pfx_eq_iff [OF pos_bound [OF d(1)] d(1) pos_bound [of 16]] assms(2)
    by (auto simp: pos_16 word_unat_eq_iff)
  then show ?thesis using d by (auto simp: live_def)
qed

lemma live_new: "live [Prefix16_new \<mapsto> s] v"
  unfolding live_def by (rule exI [of _ 0]) (simp add: pfx_new pos_0)

lemma nodes_ok_new: "nodes_ok p c es [Prefix16_new \<mapsto> es]"
proof -
  have "valid_node p c es (pfx 0 0) es" by (rule valid_nodeI) simp_all
  moreover have "prefix_free [pfx 0 0 \<mapsto> es]"
    unfolding prefix_free_def using pfx_eq_iff [where e = 0 and r = 0] by (auto split: if_split_asm)
  ultimately show ?thesis by (simp add: nodes_ok_def pfx_new)
qed

text \<open>Replacing a node by its two children keeps the invariant and what is live.\<close>

definition split_node :: "nat \<Rightarrow> nat \<Rightarrow> Secret \<Rightarrow> Secret \<Rightarrow> (Prefix16 \<rightharpoonup> Secret) \<Rightarrow> Prefix16 \<rightharpoonup> Secret" where
  "split_node d q l r m =
     m(pfx d q := None, pfx (Suc d) (2 * q) \<mapsto> l, pfx (Suc d) (2 * q + 1) \<mapsto> r)"

lemma split_node_at:
  assumes "d < 16" "q < 2 ^ d" "e \<le> 16" "x < 2 ^ e"
  shows "split_node d q l r m (pfx e x) =
    (if e = Suc d \<and> x div 2 = q then Some (if even x then l else r)
     else if e = d \<and> x = q then None else m (pfx e x))"
proof -
  have c: "2 * q + 1 < 2 ^ Suc d" "2 * q < 2 ^ Suc d" using assms(2) by simp_all
  have eq: "pfx e x = pfx d q \<longleftrightarrow> e = d \<and> x = q"
    "pfx e x = pfx (Suc d) (2 * q) \<longleftrightarrow> e = Suc d \<and> x = 2 * q"
    "pfx e x = pfx (Suc d) (2 * q + 1) \<longleftrightarrow> e = Suc d \<and> x = 2 * q + 1"
    using assms(1) by (simp_all only: pfx_eq_iff [OF assms(4,3) assms(2)] pfx_eq_iff [OF assms(4,3) c(1)]
        pfx_eq_iff [OF assms(4,3) c(2)] Suc_leI less_imp_le)
  have half: "x = 2 * q \<longleftrightarrow> x div 2 = q \<and> even x" "x = 2 * q + 1 \<longleftrightarrow> x div 2 = q \<and> odd x"
    by presburger+
  show ?thesis
    unfolding split_node_def fun_upd_apply eq half by (cases "even x") simp_all
qed

lemma split_node_prefix_free:
  assumes pf: "prefix_free m" and m: "m (pfx d q) \<noteq> None" and d: "d < 16" "q < 2 ^ d"
  shows "prefix_free (split_node d q l r m)"
  unfolding prefix_free_def
proof (intro allI impI)
  fix d1 q1 e1 r1
  assume b: "d1 \<le> e1" "e1 \<le> (16::nat)" "q1 < 2 ^ d1" "r1 < 2 ^ e1" and div: "r1 div 2 ^ (e1 - d1) = q1"
    and n: "split_node d q l r m (pfx d1 q1) \<noteq> None" "split_node d q l r m (pfx e1 r1) \<noteq> None"
  show "d1 = e1"
  proof (rule ccontr)
    assume "d1 \<noteq> e1"
    with b have lt: "d1 < e1" "d1 \<le> 16" by simp_all
    have new1: "(d1 = Suc d \<and> q1 div 2 = q) \<or> (\<not> (d1 = d \<and> q1 = q) \<and> m (pfx d1 q1) \<noteq> None)"
      using n(1) split_node_at [OF d lt(2) b(3)] by (auto split: if_split_asm)
    have new2: "(e1 = Suc d \<and> r1 div 2 = q) \<or> (\<not> (e1 = d \<and> r1 = q) \<and> m (pfx e1 r1) \<noteq> None)"
      using n(2) split_node_at [OF d b(2,4)] by (auto split: if_split_asm)
    show False
    proof (cases "e1 = Suc d \<and> r1 div 2 = q")
      case True
      then have "d1 \<le> d" "e1 - d1 = Suc (d - d1)" using lt by auto
      then have q1: "q div 2 ^ (d - d1) = q1" using div True by (simp add: div_mult2_eq)
      moreover have "m (pfx d1 q1) \<noteq> None" using new1 \<open>d1 \<le> d\<close> by auto
      ultimately have "d1 = d" using prefix_freeD [OF pf _ m \<open>d1 \<le> d\<close>] b d by simp
      with new1 q1 show False by simp
    next
      case False
      with new2 have old: "m (pfx e1 r1) \<noteq> None" by blast
      show False
      proof (cases "d1 = Suc d \<and> q1 div 2 = q")
        case True
        then have "e1 - d = Suc (e1 - d1)" "d \<le> e1" using lt by auto
        moreover from this True div have "r1 div 2 ^ (e1 - d) = q" by (simp only: div_power_Suc)
        ultimately show False using prefix_freeD [OF pf m old] b d lt True by simp
      next
        case False
        with new1 have "m (pfx d1 q1) \<noteq> None" by blast
        from prefix_freeD [OF pf this old b(1-4) div] lt show False by simp
      qed
    qed
  qed
qed

lemma split_node_ok:
  assumes ok: "nodes_ok p c es m" and m: "m (pfx d q) = Some s" and d: "d < 16" "q < 2 ^ d"
    and ch: "derive_child_secrets s p c = Ok (l, r)"
  shows "nodes_ok p c es (split_node d q l r m)"
proof -
  have "valid_node p c es (pfx d q) s" using ok m by (simp add: nodes_ok_def)
  then have s: "path_secret p c es d q = Some s"
    using pfx_eq_iff d by (auto simp: valid_node_def)
  have "valid_node p c es (pfx (Suc d) (2 * q)) l" "valid_node p c es (pfx (Suc d) (2 * q + 1)) r"
    using s ch d by (simp_all add: valid_nodeI)
  then have "\<forall>k s. split_node d q l r m k = Some s \<longrightarrow> valid_node p c es k s"
    using ok by (auto simp: split_node_def nodes_ok_def split: if_split_asm)
  then show ?thesis using split_node_prefix_free [OF _ _ d] ok m by (simp add: nodes_ok_def)
qed

lemma split_node_live:
  assumes "m (pfx d q) \<noteq> None" "d < 16" "q < 2 ^ d"
  shows "live (split_node d q l r m) u \<longleftrightarrow> live m u"
proof -
  have at: "split_node d q l r m (pfx e (pos e u)) =
    (if e = Suc d \<and> pos e u div 2 = q then Some (if even (pos e u) then l else r)
     else if e = d \<and> pos e u = q then None else m (pfx e (pos e u)))" if "e \<le> 16" for e
    using split_node_at [OF assms(2,3) that pos_bound [OF that]] .
  have half: "pos (Suc d) u div 2 = pos d u" using pos_div [of d "Suc d" u] assms(2) by simp
  show ?thesis
  proof (cases "pos d u = q")
    case True
    have "live m u" unfolding live_def by (rule exI [of _ d]) (use True assms in simp)
    moreover have "live (split_node d q l r m) u"
      unfolding live_def by (rule exI [of _ "Suc d"]) (use True assms at [of "Suc d"] half in simp)
    ultimately show ?thesis by simp
  next
    case False
    then show ?thesis unfolding live_def using at half by (auto split: if_split_asm)
  qed
qed

lemma no_child:
  assumes "prefix_free m" "m (pfx d q) \<noteq> None" "d < 16" "q < 2 ^ d"
  shows "m (pfx (Suc d) (2 * q + of_bool b)) = None"
proof (rule ccontr)
  assume "m (pfx (Suc d) (2 * q + of_bool b)) \<noteq> None"
  from prefix_freeD [OF assms(1,2) this] assms(3,4) show False by (cases b) auto
qed

lemma split_held:
  assumes "m (pfx d q) = None" "d < 16" "q < 2 ^ d"
  shows "split_node d q l r (m(pfx d q \<mapsto> s)) =
    m(pfx (Suc d) (2 * q + of_bool (\<not> b)) \<mapsto> if b then l else r,
      pfx (Suc d) (2 * q + of_bool b) \<mapsto> if b then r else l)"
proof -
  have "pfx (Suc d) (2 * q) \<noteq> pfx (Suc d) (2 * q + 1)" using assms by (subst pfx_eq_iff) simp_all
  moreover have "m(pfx d q := None) = m" using assms(1) by (rule fun_upd_idem)
  ultimately show ?thesis
    unfolding split_node_def by (cases b) (simp_all add: fun_upd_twist)
qed

section \<open>Evaluation\<close>

lemma held_secret:
  assumes "nodes_ok p c es m" "m (pfx d (pos d v)) = Some s" "d \<le> 16"
  shows "path_secret p c es d (pos d v) = Some s"
proof -
  have "valid_node p c es (pfx d (pos d v)) s" using assms by (simp add: nodes_ok_def)
  then obtain e q where e: "pfx d (pos d v) = pfx e q" "e \<le> 16" "q < 2 ^ e" "path_secret p c es e q = Some s"
    by (auto simp: valid_node_def)
  then show ?thesis using pfx_eq_iff [OF pos_bound [OF assms(3), of v] assms(3) e(3,2)] by auto
qed

text \<open>
  What walking down from a node does: \<open>m\<close> is the map with the node the walk holds.
\<close>

definition walk_post ::
    "'a provider_scheme \<Rightarrow> Ciphersuite \<Rightarrow> Secret \<Rightarrow> 16 word \<Rightarrow> (Prefix16 \<rightharpoonup> Secret) \<Rightarrow>
     Pprf \<times> (Secret, PprfError) outcome \<Rightarrow> bool" where
  "walk_post p c es v m out \<longleftrightarrow>
     (case out of (t', res) \<Rightarrow>
        nodes_ok p c es (pprf_nodes t') \<and>
        (\<forall>u. live (pprf_nodes t') u \<longrightarrow> live m u \<and> u \<noteq> v) \<and>
        (\<forall>s. res = Ok s \<longrightarrow> path_secret p c es 16 (unat v) = Some s \<and>
           (\<forall>u. live m u \<longrightarrow> u \<noteq> v \<longrightarrow> live (pprf_nodes t') u)) \<and>
        res \<noteq> Err PuncturedInput \<and> (expand_total p \<longrightarrow> (\<exists>s. res = Ok s)))"

lemma walk_post_dropped:
  assumes "nodes_ok p c es m" "m (pfx d (pos d v)) \<noteq> None" "d \<le> 16"
    and "pprf_nodes t' = m(pfx d (pos d v) := None)" "res = Panic \<or> (\<exists>e. res = Err e)"
    and "res \<noteq> Err PuncturedInput" "\<not> expand_total p"
  shows "walk_post p c es v m (t', res)"
proof -
  have "nodes_ok p c es (pprf_nodes t')" using nodes_ok_remove [OF assms(1)] assms(4) by simp
  moreover have "\<not> live (pprf_nodes t') v" using punctured [of m d v] assms(1-4) by (simp add: nodes_ok_def)
  moreover have "live (pprf_nodes t') u \<Longrightarrow> live m u" for u using live_remove assms(4) by metis
  ultimately show ?thesis using assms(5-7) by (auto simp: walk_post_def)
qed

lemma walk_post_leaf:
  assumes "nodes_ok p c es m" "m (pfx 16 (pos 16 v)) = Some s" "pprf_nodes t' = m(pfx 16 (pos 16 v) := None)"
  shows "walk_post p c es v m (t', Ok s)"
proof -
  have "\<not> live (pprf_nodes t') v" using punctured [of m 16 v] assms by (simp add: nodes_ok_def)
  moreover have "path_secret p c es 16 (unat v) = Some s"
    using held_secret [OF assms(1,2)] by (simp add: pos_16)
  moreover have "live (pprf_nodes t') u \<Longrightarrow> live m u" for u using live_remove assms(3) by metis
  moreover have "live m u \<Longrightarrow> u \<noteq> v \<Longrightarrow> live (pprf_nodes t') u" for u
    using live_remove_leaf assms(3) by metis
  ultimately show ?thesis
    using nodes_ok_remove [OF assms(1)] assms(3) by (auto simp: walk_post_def)
qed

lemma walk_path_effect:
  assumes "nodes_ok p c es ((pprf_nodes t)(pfx d (pos d v) \<mapsto> s))" "pprf_nodes t (pfx d (pos d v)) = None" "d \<le> 16"
  shows "walk_post p c es v ((pprf_nodes t)(pfx d (pos d v) \<mapsto> s))
    (walk_path p c (as_index_bytes v) [d..<16] (pfx d (pos d v)) s t)"
  using assms
proof (induction "16 - d" arbitrary: d s t)
  case 0
  then have d: "d = 16" by simp
  have "walk_post p c es v ((pprf_nodes t)(pfx 16 (pos 16 v) \<mapsto> s)) (t, Ok s)"
    by (rule walk_post_leaf [OF 0(2) [unfolded d]]) (use 0(3) d in auto)
  moreover have "[16..<16::nat] = []" by simp
  ultimately show ?case by (simp only: d walk_path.simps)
next
  case (Suc n)
  let ?m = "pprf_nodes t" and ?q = "pos d v" and ?b = "odd (unat v div 2 ^ (15 - d))"
  let ?M = "?m(pfx d ?q \<mapsto> s)"
  have d: "d < 16" "?q < 2 ^ d" "[d..<16] = d # [Suc d..<16]"
    using Suc(2) pos_bound [of d v] by (simp_all add: upt_conv_Cons)
  have drop: "?m = ?M(pfx d ?q := None)" using Suc.prems(2) by auto
  show ?case
  proof (cases "derive_child_secrets s p c")
    case (Ok lr)
    obtain l r where lr: "lr = (l, r)" by (cases lr)
    have pf: "prefix_free ?M" using Suc.prems(1) by (simp add: nodes_ok_def)
    have none: "?m (pfx (Suc d) (2 * ?q + of_bool b)) = None" for b
      using no_child [OF pf _ d(1,2), of b] drop by (metis fun_upd_apply option.distinct(1))
    let ?t = "t\<lparr>pprf_nodes := ?m(pfx (Suc d) (2 * ?q + of_bool (\<not> ?b)) \<mapsto> if ?b then l else r)\<rparr>"
    let ?s = "if ?b then r else l"
    have S: "pos (Suc d) v = 2 * ?q + of_bool ?b" using pos_Suc [OF d(1)] .
    have neq: "pfx (Suc d) (2 * ?q + of_bool ?b) \<noteq> pfx (Suc d) (2 * ?q + of_bool (\<not> ?b))"
      using d by (subst pfx_eq_iff) auto
    have sp: "split_node d ?q l r ?M = ?m(pfx (Suc d) (2 * ?q + of_bool (\<not> ?b)) \<mapsto> if ?b then l else r,
        pfx (Suc d) (2 * ?q + of_bool ?b) \<mapsto> ?s)"
      by (rule split_held) (use Suc.prems(2) d in simp_all)
    have split: "(pprf_nodes ?t)(pfx (Suc d) (pos (Suc d) v) \<mapsto> ?s) = split_node d ?q l r ?M"
      unfolding S sp by simp
    have "walk_post p c es v ((pprf_nodes ?t)(pfx (Suc d) (pos (Suc d) v) \<mapsto> ?s))
      (walk_path p c (as_index_bytes v) [Suc d..<16] (pfx (Suc d) (pos (Suc d) v)) ?s ?t)"
    proof (rule Suc.hyps(1))
      show "nodes_ok p c es ((pprf_nodes ?t)(pfx (Suc d) (pos (Suc d) v) \<mapsto> ?s))"
        unfolding split using split_node_ok [of p c es ?M d ?q s l r] Suc.prems(1) d(1,2) Ok lr by simp
      show "pprf_nodes ?t (pfx (Suc d) (pos (Suc d) v)) = None"
        unfolding S using none neq by simp
    qed (use Suc(2) in simp_all)
    moreover have "walk_path p c (as_index_bytes v) [d..<16] (pfx d ?q) s t =
      walk_path p c (as_index_bytes v) [Suc d..<16] (pfx (Suc d) (pos (Suc d) v)) ?s ?t"
      using Ok lr none by (simp add: d(3) get_bit_index [OF d(1)] push_bit_pfx [OF d(1)] S)
    ultimately show ?thesis
      using split_node_live [of ?M d ?q l r] d split by (simp add: walk_post_def)
  qed (use walk_post_dropped [OF Suc.prems(1) _ Suc.prems(3) drop] derive_child_secrets_total [of p s c] d in auto)
qed

lemma find_deepest_effect:
  assumes "d \<le> 16" "\<forall>e < d. pprf_nodes t (pfx e (pos e v)) = None"
  shows "(\<not> live (pprf_nodes t) v \<and>
      find_deepest (as_index_bytes v) (pfx d (pos d v)) d t = (t, Err PuncturedInput)) \<or>
    (\<exists>e s. e \<le> 16 \<and> pprf_nodes t (pfx e (pos e v)) = Some s \<and>
      find_deepest (as_index_bytes v) (pfx d (pos d v)) d t =
        (t\<lparr>pprf_nodes := (pprf_nodes t)(pfx e (pos e v) := None)\<rparr>, Ok (s, pfx e (pos e v), e)))"
  using assms
proof (induction "16 - d" arbitrary: d)
  case 0
  then have d: "d = 16" by simp
  show ?case
  proof (cases "pprf_nodes t (pfx 16 (pos 16 v))")
    case None
    have "\<not> live (pprf_nodes t) v"
      using 0(3) None le_neq_implies_less unfolding live_def d by metis
    with None show ?thesis by (simp add: d find_deepest.simps MAX_DEPTH_def)
  next
    case (Some s)
    then have "find_deepest (as_index_bytes v) (pfx 16 (pos 16 v)) 16 t =
        (t\<lparr>pprf_nodes := (pprf_nodes t)(pfx 16 (pos 16 v) := None)\<rparr>, Ok (s, pfx 16 (pos 16 v), 16))"
      by (subst find_deepest.simps) simp
    with Some d show ?thesis by blast
  qed
next
  case (Suc n)
  then have d: "d < 16" by simp
  show ?case
  proof (cases "pprf_nodes t (pfx d (pos d v))")
    case None
    have "find_deepest (as_index_bytes v) (pfx d (pos d v)) d t =
        find_deepest (as_index_bytes v) (pfx (Suc d) (pos (Suc d) v)) (Suc d) t"
      using None d by (subst find_deepest.simps)
        (simp add: MAX_DEPTH_def get_bit_index push_bit_pfx pos_Suc)
    moreover have "\<forall>e < Suc d. pprf_nodes t (pfx e (pos e v)) = None"
      using None Suc.prems(2) by (auto simp: less_Suc_eq)
    ultimately show ?thesis using Suc.hyps(1) [of "Suc d"] Suc.hyps(2) d by simp
  next
    case (Some s)
    then have "find_deepest (as_index_bytes v) (pfx d (pos d v)) d t =
        (t\<lparr>pprf_nodes := (pprf_nodes t)(pfx d (pos d v) := None)\<rparr>, Ok (s, pfx d (pos d v), d))"
      by (subst find_deepest.simps) simp
    with Some d show ?thesis by (meson less_imp_le)
  qed
qed

lemma export_effect:
  assumes ok: "nodes_ok p c es (pprf_nodes t)"
  shows "if live (pprf_nodes t) v then walk_post p c es v (pprf_nodes t) (safe_export_secret p c v t)
    else safe_export_secret p c v t = (t, Err PuncturedInput)"
proof -
  have ev: "safe_export_secret p c v t =
      try_then (find_deepest (as_index_bytes v) (pfx 0 (pos 0 v)) 0 t) (\<lambda>t (node, prefix, depth).
        if depth = 16 then (t, Ok node) else walk_path p c (as_index_bytes v) [depth..<16] prefix node t)"
    unfolding safe_export_secret_def Pprf_evaluate_def MAX_DEPTH_def pfx_new pos_0
    by (simp add: MAX_INPUT_LEN_def MAX_DEPTH_def as_index_bytes_def)
  consider (dead) "\<not> live (pprf_nodes t) v"
      "find_deepest (as_index_bytes v) (pfx 0 (pos 0 v)) 0 t = (t, Err PuncturedInput)"
    | (found) e s where "e \<le> 16" "pprf_nodes t (pfx e (pos e v)) = Some s"
      "find_deepest (as_index_bytes v) (pfx 0 (pos 0 v)) 0 t =
        (t\<lparr>pprf_nodes := (pprf_nodes t)(pfx e (pos e v) := None)\<rparr>, Ok (s, pfx e (pos e v), e))"
    using find_deepest_effect [of 0 t v] by auto
  then show ?thesis
  proof cases
    case dead
    then show ?thesis using ev by simp
  next
    case (found e s)
    let ?t = "t\<lparr>pprf_nodes := (pprf_nodes t)(pfx e (pos e v) := None)\<rparr>"
    have m: "(pprf_nodes ?t)(pfx e (pos e v) \<mapsto> s) = pprf_nodes t" using found(2) by auto
    have "live (pprf_nodes t) v" unfolding live_def using found by blast
    moreover have "safe_export_secret p c v t = walk_path p c (as_index_bytes v) [e..<16] (pfx e (pos e v)) s ?t"
      using ev found(3) by (cases "e = 16") simp_all
    moreover have "walk_post p c es v ((pprf_nodes ?t)(pfx e (pos e v) \<mapsto> s))
        (walk_path p c (as_index_bytes v) [e..<16] (pfx e (pos e v)) s ?t)"
      by (rule walk_path_effect) (use ok m found(1) in simp_all)
    ultimately show ?thesis unfolding m by simp
  qed
qed

section \<open>Runs of exports\<close>

definition export_step :: "'a provider_scheme \<Rightarrow> Ciphersuite \<Rightarrow> ComponentId \<Rightarrow> Pprf \<Rightarrow> Pprf" where
  "export_step p c v t = fst (safe_export_secret p c v t)"

definition export_opened :: "'a provider_scheme \<Rightarrow> Ciphersuite \<Rightarrow> ComponentId \<Rightarrow> Pprf \<Rightarrow> nat option" where
  "export_opened p c v t = (case snd (safe_export_secret p c v t) of Ok _ \<Rightarrow> Some (unat v) | _ \<Rightarrow> None)"

lemma export_step_effect:
  assumes "nodes_ok p c es (pprf_nodes t)"
  shows "nodes_ok p c es (pprf_nodes (export_step p c v t))"
    and "live (pprf_nodes (export_step p c v t)) u \<Longrightarrow> live (pprf_nodes t) u \<and> u \<noteq> v"
    and "export_opened p c v t = Some n \<Longrightarrow> n = unat v \<and> live (pprf_nodes t) v"
    and "expand_total p \<Longrightarrow> live (pprf_nodes (export_step p c v t)) u \<longleftrightarrow> live (pprf_nodes t) u \<and> u \<noteq> v"
  using export_effect [OF assms, of v] assms
  by (auto simp: walk_post_def export_step_def export_opened_def split: if_split_asm prod.splits outcome.splits)

interpretation ex: one_time_keys "export_step p c" "export_opened p c"
    "\<lambda>t n. \<exists>v. n = unat v \<and> live (pprf_nodes t) v" "\<lambda>t. nodes_ok p c es (pprf_nodes t)"
  for p :: "'a provider_scheme" and c es
  using export_step_effect(1-3) [of p c es] by unfold_locales (blast, blast, blast, metis word_unat_eq_iff)

lemma export_tree_new: "\<exists>t. ApplicationExportTree_new es = Some t \<and> pprf_nodes t = [Prefix16_new \<mapsto> es]"
proof -
  have "log2 131070 = 16" by (rule log2_eq) simp_all
  then have "TreeSize_from_leaf_count 65535 = Some 131071"
    by (simp add: TreeSize_from_leaf_count_def TreeSize_new_def u32_mul_def u32_shl_def u32_sub_def
        push_bit_eq_mult take_bit_eq_mod)
  then show ?thesis by (simp add: ApplicationExportTree_new_def Pprf_new_with_size_def)
qed

lemma export_run:
  assumes "nodes_ok p c es (pprf_nodes t)" "expand_total p"
  shows "live (pprf_nodes (fold (export_step p c) ids t)) v \<longleftrightarrow> live (pprf_nodes t) v \<and> v \<notin> set ids"
  using assms(1) export_step_effect(1,4) [of p c es] assms(2)
  by (induction ids arbitrary: t) auto

lemma deserialize_entries:
  "(\<forall>(k, s) \<in> set xs. prefix_len k \<le> MAX_DEPTH) \<Longrightarrow>
   deserialize_hashmap (serialize_hashmap xs) m = Ok (m ++ map_of (rev xs))"
proof (induction xs arbitrary: m)
  case (Cons x xs)
  have eta: "\<lparr>prefix_bits = prefix_bits k, prefix_len = prefix_len k\<rparr> = k" for k :: Prefix16 by (cases k) simp
  from Cons show ?case
    by (cases x) (simp add: eta serialize_hashmap_def deserialize_prefix_def SerdePrefix16_from_def
        PrefixLen_new_def Secret_from_slice_def map_add_assoc)
qed (simp add: serialize_hashmap_def)

text \<open>
  (C27) The application export tree gives a component its secret exactly once. After any exports,
  an export for a component that has none yet returns the secret that the exporter secret determines
  for the component's id, and every later one is refused and changes nothing. (For a key derivation
  that does not fail.)
\<close>

theorem export_once_per_component:
  assumes "expand_total p" "ApplicationExportTree_new es = Some t0"
    and "t = fold (export_step p c) ids t0"
  shows "if v \<in> set ids then safe_export_secret p c v t = (t, Err PuncturedInput)
    else \<exists>t' s. safe_export_secret p c v t = (t', Ok s) \<and> path_secret p c es 16 (unat v) = Some s"
proof -
  have ok0: "nodes_ok p c es (pprf_nodes t0)" and l0: "live (pprf_nodes t0) v"
    using export_tree_new [of es] assms(2) nodes_ok_new live_new by auto
  have ok: "nodes_ok p c es (pprf_nodes t)" using ex.run_invar [OF ok0] assms(3) by simp
  have "live (pprf_nodes t) v \<longleftrightarrow> v \<notin> set ids" using export_run [OF ok0 assms(1)] l0 assms(3) by simp
  then show ?thesis
    using export_effect [OF ok, of v] assms(1) by (auto simp: walk_post_def split: if_split_asm prod.splits)
qed

theorem export_once_per_component_witness:
  "\<exists>t0 t s. ApplicationExportTree_new (Secret [1]) = Some t0 \<and>
     safe_export_secret zero_provider suite1 7 t0 = (t, Ok s) \<and>
     safe_export_secret zero_provider suite1 7 t = (t, Err PuncturedInput)"
proof -
  obtain t0 where t0: "ApplicationExportTree_new (Secret [1]) = Some t0" using export_tree_new by blast
  note p = export_once_per_component [OF zero_provider_laws(4) t0, where c = suite1 and v = 7]
  from p [of t0 "[]"] obtain t s where "safe_export_secret zero_provider suite1 7 t0 = (t, Ok s)" by auto
  moreover from this p [of t "[7]"] have "safe_export_secret zero_provider suite1 7 t = (t, Err PuncturedInput)"
    by (simp add: export_step_def)
  ultimately show ?thesis using t0 by blast
qed

text \<open>
  (C28) Even if key derivation fails at times, no component ever gets a second secret.
\<close>

theorem export_never_repeats:
  "case ApplicationExportTree_new es of
     None \<Rightarrow> False
   | Some t0 \<Rightarrow> distinct (run_opened (export_step p c) (export_opened p c) ids t0)"
proof -
  obtain t0 where t0: "ApplicationExportTree_new es = Some t0" "pprf_nodes t0 = [Prefix16_new \<mapsto> es]"
    using export_tree_new by blast
  then show ?thesis using ex.run_distinct [of p c es t0 ids] nodes_ok_new [of p c es] by simp
qed

text \<open>
  (C29) The nodes of a reachable tree survive serialisation, in whatever order the HashMap lists
  its entries.
\<close>

theorem export_tree_roundtrip:
  assumes "ApplicationExportTree_new es = Some t0" "t = fold (export_step p c) ids t0"
    and "distinct (map fst entries)" "map_of entries = pprf_nodes t"
  shows "deserialize_hashmap (serialize_hashmap entries) Map.empty = Ok (pprf_nodes t)"
proof -
  have ok0: "nodes_ok p c es (pprf_nodes t0)"
    using export_tree_new [of es] assms(1) nodes_ok_new by auto
  have ok: "nodes_ok p c es (pprf_nodes t)" using ex.run_invar [OF ok0] assms(2) by simp
  have "prefix_len k \<le> MAX_DEPTH" if "(k, s) \<in> set entries" for k s
  proof -
    have "valid_node p c es k s" using ok map_of_is_SomeI [OF assms(3) that] assms(4) by (simp add: nodes_ok_def)
    then show ?thesis by (auto simp: valid_node_def pfx_def MAX_DEPTH_def)
  qed
  moreover have "map_of (rev entries) = map_of entries"
    using assms(3) by (intro map_of_inject_set [THEN iffD2]) (simp_all flip: rev_map)
  ultimately show ?thesis
    using deserialize_entries [of entries Map.empty] assms(4) by auto
qed

theorem export_tree_roundtrip_witness:
  "deserialize_hashmap (serialize_hashmap [(Prefix16_new, Secret [1])]) Map.empty = Ok [Prefix16_new \<mapsto> Secret [1]]"
proof -
  obtain t0 where t0: "ApplicationExportTree_new (Secret [1]) = Some t0"
    "pprf_nodes t0 = [Prefix16_new \<mapsto> Secret [1]]" using export_tree_new by blast
  from export_tree_roundtrip [OF t0(1), of t0 zero_provider suite1 "[]" "[(Prefix16_new, Secret [1])]"] t0(2)
  show ?thesis by simp
qed

end
