(* ===== verification/Registry.thy ===== *)
theory Registry
  imports Secrets
begin

text \<open>
  The registries of MLS code points: protocol versions (\<open>versions.rs\<close>), credential types
  (\<open>credentials/mod.rs\<close>), extension types (\<open>extensions/mod.rs\<close>) and proposal types
  (\<open>messages/proposals.rs\<close>), and what the code builds from them: credentials, the required
  capabilities of a group and the capabilities of a leaf
  (\<open>treesync/node/leaf_node/capabilities.rs\<close>).
\<close>

section \<open>Protocol versions and credential types\<close>

datatype ProtocolVersion = Mls10 | OtherVersion u16

definition ProtocolVersion_from :: "u16 \<Rightarrow> ProtocolVersion" where
  "ProtocolVersion_from v = (if v = 1 then Mls10 else OtherVersion v)"

fun ProtocolVersion_u16 :: "ProtocolVersion \<Rightarrow> u16" where
  "ProtocolVersion_u16 Mls10 = 1"
| "ProtocolVersion_u16 (OtherVersion v) = v"

datatype CredentialType = Basic | X509 | CredentialGrease u16 | CredentialOther u16

definition CredentialType_is_grease :: "CredentialType \<Rightarrow> bool" where
  "CredentialType_is_grease t \<longleftrightarrow> (case t of CredentialGrease _ \<Rightarrow> True | _ \<Rightarrow> False)"

definition CredentialType_from :: "u16 \<Rightarrow> CredentialType" where
  "CredentialType_from value =
     (if value = 1 then Basic
      else if value = 2 then X509
      else if is_grease_value value then CredentialGrease value
      else CredentialOther value)"

fun CredentialType_u16 :: "CredentialType \<Rightarrow> u16" where
  "CredentialType_u16 Basic = 1"
| "CredentialType_u16 X509 = 2"
| "CredentialType_u16 (CredentialGrease value) = value"
| "CredentialType_u16 (CredentialOther other) = other"

record Credential =
  credential_type :: CredentialType
  serialized_credential_content :: bytes

definition Credential_new :: "CredentialType \<Rightarrow> bytes \<Rightarrow> Credential" where
  "Credential_new t content = \<lparr>credential_type = t, serialized_credential_content = content\<rparr>"

record CredentialWithKey =
  cwk_credential :: Credential
  cwk_signature_key :: bytes

section \<open>Extension types\<close>

datatype ExtensionType =
    TApplicationId | TRatchetTree | TRequiredCapabilities | TExternalPub | TExternalSenders
  | TLastResort | TAppDataDictionary | TGrease u16 | TUnknown u16

fun ExtensionType_is_default :: "ExtensionType \<Rightarrow> bool" where
  "ExtensionType_is_default TApplicationId = True"
| "ExtensionType_is_default TRatchetTree = True"
| "ExtensionType_is_default TRequiredCapabilities = True"
| "ExtensionType_is_default TExternalPub = True"
| "ExtensionType_is_default TExternalSenders = True"
| "ExtensionType_is_default TLastResort = False"
| "ExtensionType_is_default (TGrease _) = False"
| "ExtensionType_is_default (TUnknown _) = False"
| "ExtensionType_is_default TAppDataDictionary = False"

fun is_valid_in_leaf_node :: "ExtensionType \<Rightarrow> bool" where
  "is_valid_in_leaf_node (TGrease _) = False"
| "is_valid_in_leaf_node TLastResort = False"
| "is_valid_in_leaf_node TRatchetTree = False"
| "is_valid_in_leaf_node TRequiredCapabilities = False"
| "is_valid_in_leaf_node TExternalPub = False"
| "is_valid_in_leaf_node TExternalSenders = False"
| "is_valid_in_leaf_node (TUnknown _) = True"
| "is_valid_in_leaf_node TApplicationId = True"
| "is_valid_in_leaf_node TAppDataDictionary = True"

fun is_valid_in_group_info :: "ExtensionType \<Rightarrow> bool option" where
  "is_valid_in_group_info (TGrease _) = Some False"
| "is_valid_in_group_info TLastResort = Some False"
| "is_valid_in_group_info TRequiredCapabilities = Some False"
| "is_valid_in_group_info TExternalSenders = Some False"
| "is_valid_in_group_info TApplicationId = Some False"
| "is_valid_in_group_info TRatchetTree = Some True"
| "is_valid_in_group_info TExternalPub = Some True"
| "is_valid_in_group_info (TUnknown _) = None"
| "is_valid_in_group_info TAppDataDictionary = Some True"

fun is_valid_in_key_package :: "ExtensionType \<Rightarrow> bool" where
  "is_valid_in_key_package (TGrease _) = False"
| "is_valid_in_key_package TRatchetTree = False"
| "is_valid_in_key_package TRequiredCapabilities = False"
| "is_valid_in_key_package TExternalPub = False"
| "is_valid_in_key_package TExternalSenders = False"
| "is_valid_in_key_package TApplicationId = False"
| "is_valid_in_key_package (TUnknown _) = True"
| "is_valid_in_key_package TLastResort = True"
| "is_valid_in_key_package TAppDataDictionary = True"

fun is_valid_in_group_context :: "ExtensionType \<Rightarrow> bool" where
  "is_valid_in_group_context TRequiredCapabilities = True"
| "is_valid_in_group_context TExternalSenders = True"
| "is_valid_in_group_context (TUnknown _) = True"
| "is_valid_in_group_context TAppDataDictionary = True"
| "is_valid_in_group_context _ = False"

definition ExtensionType_is_grease :: "ExtensionType \<Rightarrow> bool" where
  "ExtensionType_is_grease t \<longleftrightarrow> (case t of TGrease _ \<Rightarrow> True | _ \<Rightarrow> False)"

definition ExtensionType_from :: "u16 \<Rightarrow> ExtensionType" where
  "ExtensionType_from a =
     (if a = 1 then TApplicationId
      else if a = 2 then TRatchetTree
      else if a = 3 then TRequiredCapabilities
      else if a = 4 then TExternalPub
      else if a = 5 then TExternalSenders
      else if a = 6 then TAppDataDictionary
      else if a = 10 then TLastResort
      else if is_grease_value a then TGrease a
      else TUnknown a)"

fun ExtensionType_u16 :: "ExtensionType \<Rightarrow> u16" where
  "ExtensionType_u16 TApplicationId = 1"
| "ExtensionType_u16 TRatchetTree = 2"
| "ExtensionType_u16 TRequiredCapabilities = 3"
| "ExtensionType_u16 TExternalPub = 4"
| "ExtensionType_u16 TExternalSenders = 5"
| "ExtensionType_u16 TAppDataDictionary = 6"
| "ExtensionType_u16 TLastResort = 10"
| "ExtensionType_u16 (TGrease value) = value"
| "ExtensionType_u16 (TUnknown unknown) = unknown"

section \<open>Proposal types\<close>

datatype ProposalType =
    PAdd | PUpdate | PRemove | PPreSharedKey | PReinit | PExternalInit | PGroupContextExtensions
  | PSelfRemove | PAppEphemeral | PAppDataUpdate | PGrease u16 | PCustom u16

fun ProposalType_is_default :: "ProposalType \<Rightarrow> bool" where
  "ProposalType_is_default PAdd = True"
| "ProposalType_is_default PUpdate = True"
| "ProposalType_is_default PRemove = True"
| "ProposalType_is_default PPreSharedKey = True"
| "ProposalType_is_default PReinit = True"
| "ProposalType_is_default PExternalInit = True"
| "ProposalType_is_default PGroupContextExtensions = True"
| "ProposalType_is_default PSelfRemove = False"
| "ProposalType_is_default (PGrease _) = False"
| "ProposalType_is_default (PCustom _) = False"
| "ProposalType_is_default PAppEphemeral = False"
| "ProposalType_is_default PAppDataUpdate = False"

definition ProposalType_is_grease :: "ProposalType \<Rightarrow> bool" where
  "ProposalType_is_grease t \<longleftrightarrow> (case t of PGrease _ \<Rightarrow> True | _ \<Rightarrow> False)"

fun is_path_required :: "ProposalType \<Rightarrow> bool" where
  "is_path_required PUpdate = True"
| "is_path_required PRemove = True"
| "is_path_required PExternalInit = True"
| "is_path_required PGroupContextExtensions = True"
| "is_path_required PSelfRemove = True"
| "is_path_required _ = False"

definition ProposalType_from :: "u16 \<Rightarrow> ProposalType" where
  "ProposalType_from value =
     (if value = 1 then PAdd
      else if value = 2 then PUpdate
      else if value = 3 then PRemove
      else if value = 4 then PPreSharedKey
      else if value = 5 then PReinit
      else if value = 6 then PExternalInit
      else if value = 7 then PGroupContextExtensions
      else if value = 8 then PAppDataUpdate
      else if value = 9 then PAppEphemeral
      else if value = 10 then PSelfRemove
      else if is_grease_value value then PGrease value
      else PCustom value)"

fun ProposalType_u16 :: "ProposalType \<Rightarrow> u16" where
  "ProposalType_u16 PAdd = 1"
| "ProposalType_u16 PUpdate = 2"
| "ProposalType_u16 PRemove = 3"
| "ProposalType_u16 PPreSharedKey = 4"
| "ProposalType_u16 PReinit = 5"
| "ProposalType_u16 PExternalInit = 6"
| "ProposalType_u16 PGroupContextExtensions = 7"
| "ProposalType_u16 PAppDataUpdate = 8"
| "ProposalType_u16 PAppEphemeral = 9"
| "ProposalType_u16 PSelfRemove = 10"
| "ProposalType_u16 (PGrease value) = value"
| "ProposalType_u16 (PCustom value) = value"

section \<open>Capabilities\<close>

record RequiredCapabilitiesExtension =
  extension_types :: "ExtensionType list"
  proposal_types :: "ProposalType list"
  credential_types :: "CredentialType list"

record Capabilities =
  cap_versions :: "ProtocolVersion list"
  cap_ciphersuites :: "VerifiableCiphersuite list"
  cap_extensions :: "ExtensionType list"
  cap_proposals :: "ProposalType list"
  cap_credentials :: "CredentialType list"

definition default_versions :: "ProtocolVersion list" where
  "default_versions = [Mls10]"

definition default_ciphersuites :: "Ciphersuite list" where
  "default_ciphersuites =
     [MLS_128_DHKEMX25519_AES128GCM_SHA256_Ed25519,
      MLS_128_DHKEMP256_AES128GCM_SHA256_P256,
      MLS_128_DHKEMX25519_CHACHA20POLY1305_SHA256_Ed25519,
      MLS_256_XWING_CHACHA20POLY1305_SHA256_Ed25519,
      MLS_192_MLKEM1024_AES256GCM_SHA384_P384,
      MLS_256_MLKEM1024_AES256GCM_SHA512_MLDSA87,
      MLS_128_MLKEM768X25519_AES256GCM_SHA384_Ed25519,
      MLS_128_MLKEM768X25519_AES128GCM_SHA256_Ed25519,
      MLS_128_MLKEM768_AES256GCM_SHA384_P256,
      MLS_128_MLKEM768X25519_CHACHA20POLY1305_SHA384_MLDSA44,
      MLS_192_MLKEM768_AES256GCM_SHA384_MLDSA65,
      MLS_256_MLKEM1024_AES256GCM_SHA384_MLDSA87,
      MLS_128_MLKEM768_AES256GCM_SHA384_Ed25519]"

definition default_credentials :: "CredentialType list" where
  "default_credentials = [Basic]"

definition Capabilities_new ::
    "ProtocolVersion list option \<Rightarrow> Ciphersuite list option \<Rightarrow> ExtensionType list option \<Rightarrow>
     ProposalType list option \<Rightarrow> CredentialType list option \<Rightarrow> Capabilities" where
  "Capabilities_new versions ciphersuites extensions proposals credentials =
     \<lparr>cap_versions = (case versions of Some v \<Rightarrow> v | None \<Rightarrow> default_versions),
      cap_ciphersuites = (case ciphersuites of
          Some c \<Rightarrow> map VerifiableCiphersuite_from c
        | None \<Rightarrow> map VerifiableCiphersuite_from default_ciphersuites),
      cap_extensions = (case extensions of Some e \<Rightarrow> e | None \<Rightarrow> []),
      cap_proposals = (case proposals of Some p \<Rightarrow> p | None \<Rightarrow> []),
      cap_credentials = (case credentials of Some c \<Rightarrow> c | None \<Rightarrow> default_credentials)\<rparr>"

definition Capabilities_default :: Capabilities where
  "Capabilities_default =
     \<lparr>cap_versions = default_versions,
      cap_ciphersuites = map VerifiableCiphersuite_from default_ciphersuites,
      cap_extensions = [], cap_proposals = [],
      cap_credentials = default_credentials\<rparr>"

definition contains_credential :: "Capabilities \<Rightarrow> CredentialType \<Rightarrow> bool" where
  "contains_credential cap t \<longleftrightarrow> t \<in> set (cap_credentials cap)"

definition contains_extension :: "Capabilities \<Rightarrow> ExtensionType \<Rightarrow> bool" where
  "contains_extension cap t \<longleftrightarrow> ExtensionType_is_default t \<or> t \<in> set (cap_extensions cap)"

definition contains_proposal :: "Capabilities \<Rightarrow> ProposalType \<Rightarrow> bool" where
  "contains_proposal cap t \<longleftrightarrow> ProposalType_is_default t \<or> t \<in> set (cap_proposals cap)"

datatype LifetimeError = Expired nat nat | NotValidYet nat nat | SystemTimeBeforeUnixEpoch

datatype LeafNodeValidationError =
    LifetimeInvalid LifetimeError | UnsupportedExtensions | UnsupportedProposals | UnsupportedCredentials
  | CredentialNotInCapabilities | ExtensionsNotInCapabilities | CiphersuiteNotInCapabilities
  | SignatureKeyAlreadyInUse | EncryptionKeyAlreadyInUse | InvalidLeafNodeSource
  | LeafNodeCredentialNotSupportedByMember | MemberCredentialNotSupportedByLeafNode

definition supports_required_capabilities ::
    "Capabilities \<Rightarrow> RequiredCapabilitiesExtension \<Rightarrow> (unit, LeafNodeValidationError) outcome" where
  "supports_required_capabilities cap r =
     (let unsupported_extension_types = filter (\<lambda>e. \<not> contains_extension cap e) (extension_types r) in
      if unsupported_extension_types \<noteq> [] then Err UnsupportedExtensions
      else if list_ex (\<lambda>p. \<not> contains_proposal cap p) (proposal_types r) then Err UnsupportedProposals
      else if list_ex (\<lambda>c. \<not> contains_credential cap c) (credential_types r) then Err UnsupportedCredentials
      else Ok ())"

text \<open>
  \<open>random_grease_value\<close>, given the random byte; a failure of the random number generator
  is a panic and not modelled. \<open>with_grease\<close> draws in the order of the fields.
\<close>

definition random_grease_value :: "8 word \<Rightarrow> u16" where
  "random_grease_value random_byte = GREASE_VALUES ! (unat random_byte mod length GREASE_VALUES)"

definition with_grease ::
    "8 word \<Rightarrow> 8 word \<Rightarrow> 8 word \<Rightarrow> 8 word \<Rightarrow> Capabilities \<Rightarrow> Capabilities" where
  "with_grease r1 r2 r3 r4 cap =
     (let cap1 = (if list_ex VerifiableCiphersuite_is_grease (cap_ciphersuites cap) then cap
                  else cap\<lparr>cap_ciphersuites :=
                    cap_ciphersuites cap @ [VerifiableCiphersuite (random_grease_value r1)]\<rparr>);
          cap2 = (if list_ex ExtensionType_is_grease (cap_extensions cap1) then cap1
                  else cap1\<lparr>cap_extensions := cap_extensions cap1 @ [TGrease (random_grease_value r2)]\<rparr>);
          cap3 = (if list_ex ProposalType_is_grease (cap_proposals cap2) then cap2
                  else cap2\<lparr>cap_proposals := cap_proposals cap2 @ [PGrease (random_grease_value r3)]\<rparr>);
          cap4 = (if list_ex CredentialType_is_grease (cap_credentials cap3) then cap3
                  else cap3\<lparr>cap_credentials := cap_credentials cap3 @ [CredentialGrease (random_grease_value r4)]\<rparr>)
      in cap4)"

section \<open>Properties\<close>

lemma grease_value_large: "is_grease_value v \<Longrightarrow> 10 < v"
  by (auto simp: is_grease_value_def)

lemma random_grease_value_is_grease: "is_grease_value (random_grease_value r)"
proof -
  have "random_grease_value r \<in> set GREASE_VALUES"
    unfolding random_grease_value_def by (rule nth_mem) (simp add: GREASE_VALUES_def)
  then show ?thesis by (simp add: GREASE_VALUES_def is_grease_value_def)
qed

text \<open>
  Every code point survives decoding and encoding, in each of the four registries, and a
  decoded type is a GREASE type exactly when its code point is one of the GREASE values.
\<close>

theorem registries_roundtrip:
  "ProtocolVersion_u16 (ProtocolVersion_from v) = v \<and>
   CredentialType_u16 (CredentialType_from v) = v \<and>
   ExtensionType_u16 (ExtensionType_from v) = v \<and>
   ProposalType_u16 (ProposalType_from v) = v \<and>
   (CredentialType_is_grease (CredentialType_from v) \<longleftrightarrow> is_grease_value v) \<and>
   (ExtensionType_is_grease (ExtensionType_from v) \<longleftrightarrow> is_grease_value v) \<and>
   (ProposalType_is_grease (ProposalType_from v) \<longleftrightarrow> is_grease_value v)"
  using grease_value_large [of v]
  by (auto simp: ProtocolVersion_from_def CredentialType_from_def ExtensionType_from_def
      ProposalType_from_def CredentialType_is_grease_def ExtensionType_is_grease_def ProposalType_is_grease_def)

lemma supports_required_capabilities_Ok:
  "supports_required_capabilities cap r = Ok () \<longleftrightarrow>
     (\<forall>e \<in> set (extension_types r). contains_extension cap e) \<and>
     (\<forall>p \<in> set (proposal_types r). contains_proposal cap p) \<and>
     (\<forall>c \<in> set (credential_types r). contains_credential cap c)"
  by (auto simp: supports_required_capabilities_def filter_empty_conv list_ex_iff)

lemmas grease_defs = CredentialType_is_grease_def ExtensionType_is_grease_def ProposalType_is_grease_def
  VerifiableCiphersuite_is_grease_def

text \<open>
  Adding GREASE to capabilities puts a GREASE value into each of the four lists, does nothing
  where there is one already, and never takes support away: a group's required capabilities that were
  supported still are.
\<close>

theorem with_grease_extends:
  "let cap' = with_grease r1 r2 r3 r4 cap in
     list_ex VerifiableCiphersuite_is_grease (cap_ciphersuites cap') \<and>
     list_ex ExtensionType_is_grease (cap_extensions cap') \<and>
     list_ex ProposalType_is_grease (cap_proposals cap') \<and>
     list_ex CredentialType_is_grease (cap_credentials cap') \<and>
     cap_versions cap' = cap_versions cap \<and>
     with_grease s1 s2 s3 s4 cap' = cap' \<and>
     (supports_required_capabilities cap r = Ok () \<longrightarrow> supports_required_capabilities cap' r = Ok ())"
proof -
  let ?cap = "with_grease r1 r2 r3 r4 cap"
  have g: "list_ex VerifiableCiphersuite_is_grease (cap_ciphersuites ?cap)"
    "list_ex ExtensionType_is_grease (cap_extensions ?cap)"
    "list_ex ProposalType_is_grease (cap_proposals ?cap)"
    "list_ex CredentialType_is_grease (cap_credentials ?cap)"
    by (auto simp: with_grease_def Let_def grease_defs random_grease_value_is_grease)
  moreover have "cap_versions ?cap = cap_versions cap"
    by (simp add: with_grease_def Let_def)
  moreover have "with_grease s1 s2 s3 s4 ?cap = ?cap"
    using g by (simp add: with_grease_def [of s1])
  moreover have "set (cap_extensions cap) \<subseteq> set (cap_extensions ?cap)"
    "set (cap_proposals cap) \<subseteq> set (cap_proposals ?cap)" "set (cap_credentials cap) \<subseteq> set (cap_credentials ?cap)"
    by (auto simp: with_grease_def Let_def)
  then have "supports_required_capabilities cap r = Ok () \<longrightarrow> supports_required_capabilities ?cap r = Ok ()"
    unfolding supports_required_capabilities_Ok contains_extension_def contains_proposal_def contains_credential_def
    by blast
  ultimately show ?thesis by (simp only: Let_def)
qed

theorem with_grease_extends_witness:
  "supports_required_capabilities (with_grease 0 1 2 3 Capabilities_default)
     \<lparr>extension_types = [TApplicationId], proposal_types = [PAdd], credential_types = [Basic]\<rparr> = Ok ()"
  using with_grease_extends [of 0 1 2 3 Capabilities_default 0 0 0 0
      "\<lparr>extension_types = [TApplicationId], proposal_types = [PAdd], credential_types = [Basic]\<rparr>"]
  by (simp only: Let_def) (simp add: supports_required_capabilities_Ok contains_extension_def
      contains_proposal_def contains_credential_def Capabilities_default_def default_credentials_def)

end
