(* ===== verification/Extensions.thy ===== *)
theory Extensions
  imports Registry
begin

text \<open>
  Extensions (\<open>extensions/mod.rs\<close>), their wire format (\<open>extensions/codec.rs\<close>) and
  the application data dictionary (\<open>extensions/app_data_dict_extension.rs\<close>). The nodes of a
  ratchet-tree extension are kept in their serialised form. The validation an extension list is
  subject to, which the code selects by a type parameter, is an argument here.
\<close>

section \<open>The application data dictionary\<close>

record ComponentData =
  component_id :: ComponentId
  component_bytes :: bytes

type_synonym AppDataDictionary = "(ComponentId, ComponentData) btree_map"

datatype BuildAppDataDictionaryError = EntriesNotInOrder | DuplicateEntries

definition AppDataDictionary_get :: "AppDataDictionary \<Rightarrow> ComponentId \<Rightarrow> bytes option" where
  "AppDataDictionary_get d i = map_option component_bytes (btm_get d i)"

definition AppDataDictionary_insert ::
    "ComponentId \<Rightarrow> bytes \<Rightarrow> AppDataDictionary \<Rightarrow> AppDataDictionary \<times> bytes option" where
  "AppDataDictionary_insert i data d =
     (btm_insert i \<lparr>component_id = i, component_bytes = data\<rparr> d, AppDataDictionary_get d i)"

definition AppDataDictionary_remove ::
    "ComponentId \<Rightarrow> AppDataDictionary \<Rightarrow> AppDataDictionary \<times> bytes option" where
  "AppDataDictionary_remove i d = (btm_remove i d, AppDataDictionary_get d i)"

definition AppDataDictionary_entries :: "AppDataDictionary \<Rightarrow> ComponentData list" where
  "AppDataDictionary_entries d = map snd d"

fun try_from_data_loop ::
    "ComponentData list \<Rightarrow> AppDataDictionary \<Rightarrow> (AppDataDictionary, BuildAppDataDictionaryError) outcome" where
  "try_from_data_loop [] m = Ok m"
| "try_from_data_loop (x # xs) m =
     (if btm_get m (component_id x) \<noteq> None then Err DuplicateEntries
      else if m \<noteq> [] \<and> fst (last m) > component_id x then Err EntriesNotInOrder
      else try_from_data_loop xs (btm_insert (component_id x) x m))"

definition AppDataDictionary_try_from_data ::
    "ComponentData list \<Rightarrow> (AppDataDictionary, BuildAppDataDictionaryError) outcome" where
  "AppDataDictionary_try_from_data data = try_from_data_loop data []"

section \<open>Extensions and lists of extensions\<close>

record ExternalSender =
  es_signature_key :: bytes
  es_credential :: Credential

datatype Extension =
    ApplicationId bytes
  | RatchetTree bytes
  | RequiredCapabilities RequiredCapabilitiesExtension
  | ExternalPub bytes
  | ExternalSenders "ExternalSender list"
  | AppDataDictionary AppDataDictionary
  | LastResort
  | Unknown u16 bytes

fun extension_type :: "Extension \<Rightarrow> ExtensionType" where
  "extension_type (ApplicationId _) = TApplicationId"
| "extension_type (RatchetTree _) = TRatchetTree"
| "extension_type (RequiredCapabilities _) = TRequiredCapabilities"
| "extension_type (ExternalPub _) = TExternalPub"
| "extension_type (ExternalSenders _) = TExternalSenders"
| "extension_type (AppDataDictionary _) = TAppDataDictionary"
| "extension_type LastResort = TLastResort"
| "extension_type (Unknown kind _) = TUnknown kind"

datatype InvalidExtensionError =
    Duplicate | NotFound
  | ExtensionTypeNotValidInLeafNode ExtensionType
  | ExtensionTypeNotValidInGroupContext ExtensionType
  | ExtensionTypeNotValidInKeyPackage ExtensionType
  | ExtensionTypeNotValidInGroupInfo ExtensionType
  | CannotAddDirectlyToGroupInfo

type_synonym validator = "Extension \<Rightarrow> (unit, InvalidExtensionError) outcome"

definition GroupInfo_validate :: validator where
  "GroupInfo_validate ext =
     (if is_valid_in_group_info (extension_type ext) = Some True \<or> is_valid_in_group_info (extension_type ext) = None
      then Ok () else Err (ExtensionTypeNotValidInGroupInfo (extension_type ext)))"

definition GroupContext_validate :: validator where
  "GroupContext_validate ext =
     (if is_valid_in_group_context (extension_type ext) then Ok ()
      else Err (ExtensionTypeNotValidInGroupContext (extension_type ext)))"

definition KeyPackage_validate :: validator where
  "KeyPackage_validate ext =
     (if is_valid_in_key_package (extension_type ext) then Ok ()
      else Err (ExtensionTypeNotValidInKeyPackage (extension_type ext)))"

definition LeafNode_validate :: validator where
  "LeafNode_validate ext =
     (if is_valid_in_leaf_node (extension_type ext) then Ok ()
      else Err (ExtensionTypeNotValidInLeafNode (extension_type ext)))"

type_synonym Extensions = "Extension list"

definition Extensions_empty :: Extensions where
  "Extensions_empty = []"

definition Extensions_contains :: "Extensions \<Rightarrow> ExtensionType \<Rightarrow> bool" where
  "Extensions_contains exts t \<longleftrightarrow> list_ex (\<lambda>ext. extension_type ext = t) exts"

fun Extensions_remove :: "ExtensionType \<Rightarrow> Extensions \<Rightarrow> Extensions \<times> Extension option" where
  "Extensions_remove t [] = ([], None)"
| "Extensions_remove t (x # xs) =
     (if extension_type x = t then (xs, Some x)
      else case Extensions_remove t xs of (ys, r) \<Rightarrow> (x # ys, r))"

definition Extensions_add ::
    "validator \<Rightarrow> Extension \<Rightarrow> Extensions \<Rightarrow> Extensions \<times> (unit, InvalidExtensionError) outcome" where
  "Extensions_add validate ext exts =
     try_then (exts, validate ext) (\<lambda>exts _.
       if Extensions_contains exts (extension_type ext) then (exts, Err Duplicate)
       else (exts @ [ext], Ok ()))"

definition Extensions_add_or_replace ::
    "validator \<Rightarrow> Extension \<Rightarrow> Extensions \<Rightarrow> Extensions \<times> (Extension option, InvalidExtensionError) outcome" where
  "Extensions_add_or_replace validate ext exts =
     try_then (exts, validate ext) (\<lambda>exts _.
       case Extensions_remove (extension_type ext) exts of
         (rest, replaced) \<Rightarrow> (rest @ [ext], Ok replaced))"

fun try_from_loop ::
    "validator \<Rightarrow> Extension list \<Rightarrow> Extensions \<Rightarrow> (Extensions, InvalidExtensionError) outcome" where
  "try_from_loop validate [] unique = Ok unique"
| "try_from_loop validate (x # xs) unique =
     outcome_bind (validate x) (\<lambda>_.
       if list_ex (\<lambda>ext. extension_type ext = extension_type x) unique then Err Duplicate
       else try_from_loop validate xs (unique @ [x]))"

definition Extensions_try_from ::
    "validator \<Rightarrow> Extension list \<Rightarrow> (Extensions, InvalidExtensionError) outcome" where
  "Extensions_try_from validate candidate = try_from_loop validate candidate []"

definition find_by_type :: "Extensions \<Rightarrow> ExtensionType \<Rightarrow> Extension option" where
  "find_by_type exts t = find (\<lambda>ext. extension_type ext = t) exts"

definition Extensions_required_capabilities :: "Extensions \<Rightarrow> RequiredCapabilitiesExtension option" where
  "Extensions_required_capabilities exts =
     (case find_by_type exts TRequiredCapabilities of
        Some (RequiredCapabilities e) \<Rightarrow> Some e
      | _ \<Rightarrow> None)"

definition Extensions_app_data_dictionary :: "Extensions \<Rightarrow> AppDataDictionary option" where
  "Extensions_app_data_dictionary exts =
     (case find_by_type exts TAppDataDictionary of
        Some (AppDataDictionary e) \<Rightarrow> Some e
      | _ \<Rightarrow> None)"

text \<open>\<open>Capabilities::contains_extensions\<close>, on a list of extensions.\<close>

definition contains_extensions :: "Capabilities \<Rightarrow> Extensions \<Rightarrow> bool" where
  "contains_extensions cap exts \<longleftrightarrow>
     list_all (\<lambda>e. ExtensionType_is_default e \<or> e \<in> set (cap_extensions cap)) (map extension_type exts)"

section \<open>The wire format\<close>

text \<open>
  The codec library's variable-length byte vectors, and the encodings it derives for the bodies
  of the known extensions.
\<close>

record tls_codec =
  vl_encode :: "bytes \<Rightarrow> bytes"
  vl_decode :: "bytes \<Rightarrow> (bytes \<times> bytes, TlsCodecError) outcome"
  body_encode :: "Extension \<Rightarrow> bytes"
  body_decode :: "ExtensionType \<Rightarrow> bytes \<Rightarrow> (Extension, TlsCodecError) outcome"

definition vlbytes_len_len :: "nat \<Rightarrow> nat" where
  "vlbytes_len_len len =
     (if len < 0x40 then 1
      else if len < 0x3fff then 2
      else if len < 0x3fffffff then 4
      else 8)"

definition extension_data :: "tls_codec \<Rightarrow> Extension \<Rightarrow> bytes" where
  "extension_data codec e = (case e of Unknown _ d \<Rightarrow> d | _ \<Rightarrow> body_encode codec e)"

definition Extension_tls_serialized_len :: "tls_codec \<Rightarrow> Extension \<Rightarrow> nat" where
  "Extension_tls_serialized_len codec e =
     (let extension_data_len = length (extension_data codec e)
      in 2 + vlbytes_len_len extension_data_len + extension_data_len)"

text \<open>\<open>u16::to_be_bytes\<close> and its inverse.\<close>

definition u16_to_be_bytes :: "u16 \<Rightarrow> bytes" where
  "u16_to_be_bytes n = [of_nat (n div 256), of_nat n]"

definition ExtensionType_tls_serialize :: "ExtensionType \<Rightarrow> bytes" where
  "ExtensionType_tls_serialize t = u16_to_be_bytes (ExtensionType_u16 t)"

fun ExtensionType_tls_deserialize :: "bytes \<Rightarrow> (ExtensionType \<times> bytes, TlsCodecError) outcome" where
  "ExtensionType_tls_deserialize (a # b # rest) = Ok (ExtensionType_from (unat a * 256 + unat b), rest)"
| "ExtensionType_tls_deserialize _ = Err EndOfStream"

definition Extension_tls_serialize :: "tls_codec \<Rightarrow> Extension \<Rightarrow> bytes option" where
  "Extension_tls_serialize codec e =
     (let extension_data_len = Extension_tls_serialized_len codec e;
          data = extension_data codec e;
          extension_data_written = length data in
      if extension_data_written = extension_data_len - 2 - vlbytes_len_len extension_data_written
      then Some (ExtensionType_tls_serialize (extension_type e) @ vl_encode codec data)
      else None)"

definition Extension_tls_deserialize ::
    "tls_codec \<Rightarrow> bytes \<Rightarrow> (Extension \<times> bytes, TlsCodecError) outcome" where
  "Extension_tls_deserialize codec bs =
     outcome_bind (ExtensionType_tls_deserialize bs) (\<lambda>(t, bs).
     outcome_bind (vl_decode codec bs) (\<lambda>(data, bs).
     outcome_bind
       (case t of
          TGrease grease \<Rightarrow> Ok (Unknown grease data)
        | TUnknown unknown \<Rightarrow> Ok (Unknown unknown data)
        | _ \<Rightarrow> body_decode codec t data)
       (\<lambda>e. Ok (e, bs))))"

text \<open>The slice of the remainder panics if its start is past the end.\<close>

definition Extension_tls_deserialize_bytes ::
    "tls_codec \<Rightarrow> bytes \<Rightarrow> (Extension \<times> bytes, TlsCodecError) outcome" where
  "Extension_tls_deserialize_bytes codec bs =
     outcome_bind (Extension_tls_deserialize codec bs) (\<lambda>(e, _).
       if Extension_tls_serialized_len codec e \<le> length bs
       then Ok (e, drop (Extension_tls_serialized_len codec e) bs)
       else Panic)"

section \<open>The dictionary as a sorted list\<close>

lemma btm_insert_last:
  "(\<forall>e \<in> set m. fst e < k) \<Longrightarrow> btm_insert k v m = m @ [(k, v)]"
  by (induction m) auto

lemma btm_sorted_last: "btm_sorted m \<Longrightarrow> e \<in> set m \<Longrightarrow> fst e \<le> fst (last m)"
  by (cases m rule: rev_cases) (auto simp: btm_sorted_def sorted_wrt_append intro: less_imp_le)

lemma try_from_data_loop_Ok:
  assumes "btm_sorted m"
  shows "try_from_data_loop xs m = Ok m' \<longleftrightarrow>
    sorted_wrt (<) (map fst m @ map component_id xs) \<and> m' = m @ map (\<lambda>x. (component_id x, x)) xs"
  using assms
proof (induction xs arbitrary: m)
  case Nil
  then show ?case by (auto simp: btm_sorted_def)
next
  case (Cons x xs)
  let ?i = "component_id x"
  show ?case
  proof (cases "\<forall>e \<in> set m. fst e < ?i")
    case True
    then have "btm_get m ?i = None" "\<not> (m \<noteq> [] \<and> fst (last m) > ?i)"
      using last_in_set [of m] by (auto simp: btm_get_def map_of_eq_None_iff dest: less_not_sym)
    moreover have "btm_insert ?i x m = m @ [(?i, x)]" using True by (rule btm_insert_last)
    moreover have "btm_sorted (m @ [(?i, x)])"
      using Cons.prems True by (auto simp: btm_sorted_def sorted_wrt_append)
    ultimately show ?thesis using Cons.IH [of "m @ [(?i, x)]"] by auto
  next
    case False
    then obtain e where e: "e \<in> set m" "?i \<le> fst e" by (auto simp: not_less)
    then have "fst (last m) \<ge> ?i" "m \<noteq> []" using btm_sorted_last [OF Cons.prems] by fastforce+
    moreover have "btm_get m (fst (last m)) \<noteq> None"
      using last_in_set [OF \<open>m \<noteq> []\<close>] by (auto simp: btm_get_def map_of_eq_None_iff)
    ultimately have "\<not> (\<exists>m'. try_from_data_loop (x # xs) m = Ok m')"
      by (cases "fst (last m) = ?i") auto
    moreover have "\<not> sorted_wrt (<) (map fst m @ map component_id (x # xs))"
      using e by (force simp: sorted_wrt_append)
    ultimately show ?thesis by auto
  qed
qed

text \<open>
  A dictionary is read from exactly the entry lists that are strictly ordered by component
  id, and then lists the same entries again.
\<close>

theorem dictionary_roundtrip:
  "(AppDataDictionary_try_from_data xs = Ok d \<longleftrightarrow>
      sorted_wrt (<) (map component_id xs) \<and> d = map (\<lambda>x. (component_id x, x)) xs) \<and>
   (AppDataDictionary_try_from_data xs = Ok d \<longrightarrow> AppDataDictionary_entries d = xs \<and> btm_sorted d)"
proof -
  have iff: "AppDataDictionary_try_from_data xs = Ok d \<longleftrightarrow>
      sorted_wrt (<) (map component_id xs) \<and> d = map (\<lambda>x. (component_id x, x)) xs"
    using try_from_data_loop_Ok [of "[]" xs d] by (simp add: AppDataDictionary_try_from_data_def btm_sorted_def)
  then show ?thesis by (auto simp: AppDataDictionary_entries_def btm_sorted_def comp_def)
qed

theorem dictionary_roundtrip_witness:
  "AppDataDictionary_entries [(3, \<lparr>component_id = 3, component_bytes = [1]\<rparr>)] =
     [\<lparr>component_id = 3, component_bytes = [1]\<rparr>]"
  using dictionary_roundtrip [of "[\<lparr>component_id = 3, component_bytes = [1]\<rparr>]"
      "[(3, \<lparr>component_id = 3, component_bytes = [1]\<rparr>)]"] by simp

section \<open>Well-formed extension lists\<close>

definition Extensions_wf :: "validator \<Rightarrow> Extensions \<Rightarrow> bool" where
  "Extensions_wf validate exts \<longleftrightarrow>
     distinct (map extension_type exts) \<and> (\<forall>e \<in> set exts. validate e = Ok ())"

datatype extension_op = AddExtension Extension | ReplaceExtension Extension | RemoveExtension ExtensionType

fun extension_step :: "validator \<Rightarrow> extension_op \<Rightarrow> Extensions \<Rightarrow> Extensions" where
  "extension_step validate (AddExtension e) exts = fst (Extensions_add validate e exts)"
| "extension_step validate (ReplaceExtension e) exts = fst (Extensions_add_or_replace validate e exts)"
| "extension_step validate (RemoveExtension t) exts = fst (Extensions_remove t exts)"

lemma remove_filter:
  "distinct (map extension_type exts) \<Longrightarrow>
   Extensions_remove t exts = (filter (\<lambda>e. extension_type e \<noteq> t) exts, find_by_type exts t)"
proof (induction exts)
  case (Cons x xs)
  then have "extension_type x = t \<Longrightarrow> filter (\<lambda>e. extension_type e \<noteq> t) xs = xs"
    by (auto simp: filter_id_conv image_iff)
  with Cons show ?case by (auto simp: find_by_type_def)
qed (simp add: find_by_type_def)

lemma find_by_type_Some:
  assumes "distinct (map extension_type exts)"
  shows "find_by_type exts t = Some e \<longleftrightarrow> e \<in> set exts \<and> extension_type e = t"
  using assms unfolding find_by_type_def by (induction exts) (auto simp: image_iff)

lemma find_by_type_None: "find_by_type exts t = None \<longleftrightarrow> (\<forall>e \<in> set exts. extension_type e \<noteq> t)"
  by (auto simp: find_by_type_def find_None_iff)

text \<open>
  The contract of \<open>ExtensionValidator\<close>: a check that only looks at the type of an extension
  and never panics. Every list that is built and changed through the operations has at most one
  extension of a type, all of them acceptable.
\<close>

locale extension_validator =
  fixes validate :: validator
  assumes type_only: "extension_type e = extension_type e' \<Longrightarrow> validate e = validate e'"
    and no_panic: "validate e \<noteq> Panic"
begin

lemma cases_validate: obtains "validate e = Ok ()" | x where "validate e = Err x"
  using no_panic [of e] by (cases "validate e") auto

lemma wf_empty: "Extensions_wf validate Extensions_empty"
  by (simp add: Extensions_wf_def Extensions_empty_def)

lemma wf_step: "Extensions_wf validate exts \<Longrightarrow> Extensions_wf validate (extension_step validate op exts)"
proof (cases op)
  case (AddExtension e)
  assume "Extensions_wf validate exts"
  with AddExtension show ?thesis
    by (cases rule: cases_validate [of e])
      (auto simp: Extensions_wf_def Extensions_add_def Extensions_contains_def list_ex_iff)
next
  case (ReplaceExtension e)
  assume "Extensions_wf validate exts"
  with ReplaceExtension show ?thesis
    by (cases rule: cases_validate [of e])
      (auto simp: Extensions_wf_def Extensions_add_or_replace_def remove_filter distinct_map_filter)
next
  case (RemoveExtension t)
  assume "Extensions_wf validate exts"
  with RemoveExtension show ?thesis
    by (auto simp: Extensions_wf_def remove_filter distinct_map_filter)
qed

lemma wf_run: "Extensions_wf validate exts \<Longrightarrow> Extensions_wf validate (fold (extension_step validate) ops exts)"
  by (induction ops arbitrary: exts) (simp_all add: wf_step)

lemma try_from_loop_Ok:
  "Extensions_wf validate unique \<Longrightarrow>
   try_from_loop validate xs unique = Ok exts \<longleftrightarrow> exts = unique @ xs \<and> Extensions_wf validate (unique @ xs)"
proof (induction xs arbitrary: unique)
  case (Cons x xs)
  show ?case
  proof (cases rule: cases_validate [of x])
    case 1
    show ?thesis
    proof (cases "list_ex (\<lambda>ext. extension_type ext = extension_type x) unique")
      case True
      then obtain y where "y \<in> set unique" "extension_type y = extension_type x" by (auto simp: list_ex_iff)
      then have "\<not> Extensions_wf validate (unique @ x # xs)"
        unfolding Extensions_wf_def by (metis disjoint_iff distinct_append image_eqI list.set_intros(1) list.set_map map_append)
      with True 1 show ?thesis by simp
    next
      case False
      with 1 Cons.prems have "Extensions_wf validate (unique @ [x])"
        by (auto simp: Extensions_wf_def list_ex_iff)
      with False 1 Cons.IH [of "unique @ [x]"] show ?thesis by simp
    qed
  next
    case (2 err)
    then have "\<not> Extensions_wf validate (unique @ x # xs)" by (simp add: Extensions_wf_def)
    with 2 show ?thesis by simp
  qed
qed auto

lemma try_from_Ok:
  "Extensions_try_from validate xs = Ok exts \<longleftrightarrow> exts = xs \<and> Extensions_wf validate xs"
  using try_from_loop_Ok [of "[]" xs exts] by (simp add: Extensions_try_from_def Extensions_wf_def)

lemma replace_lookup:
  assumes "Extensions_wf validate exts" "validate e = Ok ()"
  shows "Extensions_add_or_replace validate e exts =
      (filter (\<lambda>x. extension_type x \<noteq> extension_type e) exts @ [e], Ok (find_by_type exts (extension_type e)))"
    and "find_by_type (filter (\<lambda>x. extension_type x \<noteq> extension_type e) exts @ [e]) t =
      (if t = extension_type e then Some e else find_by_type exts t)"
proof -
  let ?new = "filter (\<lambda>x. extension_type x \<noteq> extension_type e) exts @ [e]"
  show s: "Extensions_add_or_replace validate e exts = (?new, Ok (find_by_type exts (extension_type e)))"
    using assms by (simp add: Extensions_add_or_replace_def remove_filter Extensions_wf_def)
  have "Extensions_wf validate ?new" using wf_step [OF assms(1), of "ReplaceExtension e"] s by simp
  then have d: "distinct (map extension_type ?new)" "distinct (map extension_type exts)"
    using assms(1) by (simp_all only: Extensions_wf_def)
  show "find_by_type ?new t = (if t = extension_type e then Some e else find_by_type exts t)"
  proof (cases "t = extension_type e")
    case True
    then show ?thesis using find_by_type_Some [OF d(1)] by simp
  next
    case False
    then have "find_by_type ?new t = Some y \<longleftrightarrow> find_by_type exts t = Some y" for y
      using find_by_type_Some [OF d(1)] find_by_type_Some [OF d(2)] by auto
    then have "find_by_type ?new t = find_by_type exts t" by (metis not_None_eq)
    with False show ?thesis by simp
  qed
qed

end

interpretation vgi: extension_validator GroupInfo_validate
  by unfold_locales (simp_all add: GroupInfo_validate_def)

interpretation vgc: extension_validator GroupContext_validate
  by unfold_locales (simp_all add: GroupContext_validate_def)

interpretation vkp: extension_validator KeyPackage_validate
  by unfold_locales (simp_all add: KeyPackage_validate_def)

interpretation vln: extension_validator LeafNode_validate
  by unfold_locales (simp_all add: LeafNode_validate_def)

text \<open>
  (C30) A list of extensions of a group context, a group info, a key package or a leaf node that
  was read from a message and then changed in any way has at most one extension of each type, only
  types that are valid there, and is accepted again when it is read.
\<close>

theorem extension_lists_wellformed:
  assumes "validate = GroupContext_validate \<or> validate = GroupInfo_validate \<or>
      validate = KeyPackage_validate \<or> validate = LeafNode_validate"
    and "Extensions_try_from validate candidate = Ok exts"
  shows "Extensions_wf validate (fold (extension_step validate) ops exts) \<and>
    Extensions_try_from validate (fold (extension_step validate) ops exts) =
      Ok (fold (extension_step validate) ops exts)"
  using assms(1)
proof (elim disjE)
  assume "validate = GroupContext_validate"
  with assms(2) show ?thesis using vgc.wf_run [of exts ops] by (simp add: vgc.try_from_Ok)
next
  assume "validate = GroupInfo_validate"
  with assms(2) show ?thesis using vgi.wf_run [of exts ops] by (simp add: vgi.try_from_Ok)
next
  assume "validate = KeyPackage_validate"
  with assms(2) show ?thesis using vkp.wf_run [of exts ops] by (simp add: vkp.try_from_Ok)
next
  assume "validate = LeafNode_validate"
  with assms(2) show ?thesis using vln.wf_run [of exts ops] by (simp add: vln.try_from_Ok)
qed

theorem extension_lists_wellformed_witness:
  "Extensions_wf LeafNode_validate
     (fold (extension_step LeafNode_validate) [ReplaceExtension (ApplicationId [1]), AddExtension LastResort]
       [ApplicationId [0]])"
proof -
  have "Extensions_try_from LeafNode_validate [ApplicationId [0]] = Ok [ApplicationId [0]]"
    by (simp add: Extensions_try_from_def LeafNode_validate_def)
  from extension_lists_wellformed [OF _ this] show ?thesis by blast
qed

text \<open>
  Replacing an extension of a group context returns the old extension of its type, makes the
  new one the one that is found, and leaves every other type as it was.
\<close>

theorem replace_extension_lookup:
  assumes "Extensions_wf GroupContext_validate exts" "GroupContext_validate e = Ok ()"
  shows "\<exists>exts'. Extensions_add_or_replace GroupContext_validate e exts =
      (exts', Ok (find_by_type exts (extension_type e))) \<and>
    (\<forall>t. find_by_type exts' t = (if t = extension_type e then Some e else find_by_type exts t))"
  using vgc.replace_lookup [OF assms] by blast

theorem replace_extension_lookup_witness:
  "\<exists>exts'. Extensions_add_or_replace GroupContext_validate (Unknown 7 [1]) [Unknown 7 [0]] =
      (exts', Ok (Some (Unknown 7 [0]))) \<and> find_by_type exts' (TUnknown 7) = Some (Unknown 7 [1])"
  using replace_extension_lookup [of "[Unknown 7 [0]]" "Unknown 7 [1]"]
  by (simp add: Extensions_wf_def GroupContext_validate_def find_by_type_def) metis

text \<open>
  (C31) A GREASE extension is decoded as an unknown one, and its type is then
  \<open>ExtensionType::Unknown\<close> and never \<open>ExtensionType::Grease\<close>. So the tables that forbid
  GREASE in leaf nodes, key packages, group infos and group contexts do not apply to it, and no
  capabilities read from a message cover it, even if they list its code point.
\<close>

theorem grease_extension_seen_as_unknown:
  assumes "is_grease_value g" "vl_decode codec rest = Ok (data, rest')"
    and "ExtensionType_tls_deserialize bs = Ok (ExtensionType_from g, rest)"
  shows "Extension_tls_deserialize codec bs = Ok (Unknown g data, rest') \<and>
    \<not> is_valid_in_leaf_node (ExtensionType_from g) \<and> LeafNode_validate (Unknown g data) = Ok () \<and>
    \<not> is_valid_in_key_package (ExtensionType_from g) \<and> KeyPackage_validate (Unknown g data) = Ok () \<and>
    \<not> is_valid_in_group_context (ExtensionType_from g) \<and> GroupContext_validate (Unknown g data) = Ok () \<and>
    is_valid_in_group_info (ExtensionType_from g) = Some False \<and> GroupInfo_validate (Unknown g data) = Ok () \<and>
    (cap_extensions cap = map ExtensionType_from code_points \<longrightarrow> \<not> contains_extensions cap [Unknown g data])"
proof -
  have g: "ExtensionType_from g = TGrease g"
    using assms(1) grease_value_large [OF assms(1)] by (simp add: ExtensionType_from_def)
  have "TUnknown g \<noteq> ExtensionType_from v" for v
    using assms(1) by (auto simp: ExtensionType_from_def)
  then have "cap_extensions cap = map ExtensionType_from code_points \<longrightarrow> \<not> contains_extensions cap [Unknown g data]"
    by (auto simp: contains_extensions_def)
  then show ?thesis
    using assms g by (simp add: Extension_tls_deserialize_def LeafNode_validate_def KeyPackage_validate_def
        GroupContext_validate_def GroupInfo_validate_def)
qed

section \<open>Variable-length vectors\<close>

text \<open>
  What the codec library documents of a variable-length vector of less than \<open>2 ^ 30\<close> bytes
  (RFC 9420, section 2.1.2): its length takes one, two or four bytes, for lengths below
  \<open>2 ^ 6\<close>, \<open>2 ^ 14\<close> and \<open>2 ^ 30\<close>, and decoding inverts encoding.
\<close>

definition vl_header_len :: "nat \<Rightarrow> nat" where
  "vl_header_len n = (if n < 2 ^ 6 then 1 else if n < 2 ^ 14 then 2 else 4)"

definition vl_documented :: "tls_codec \<Rightarrow> bool" where
  "vl_documented codec \<longleftrightarrow>
     (\<forall>d rest. length d < 2 ^ 30 \<longrightarrow>
        length (vl_encode codec d) = vl_header_len (length d) + length d \<and>
        vl_decode codec (vl_encode codec d @ rest) = Ok (d, rest))"

definition quic_encode :: "bytes \<Rightarrow> bytes" where
  "quic_encode d =
     (let n = length d in
      (if n < 2 ^ 6 then [of_nat n]
       else if n < 2 ^ 14 then [of_nat (64 + n div 256), of_nat n]
       else [of_nat (128 + n div 2 ^ 24), of_nat (n div 2 ^ 16), of_nat (n div 2 ^ 8), of_nat n]) @ d)"

definition quic_decode :: "bytes \<Rightarrow> (bytes \<times> bytes, TlsCodecError) outcome" where
  "quic_decode bs =
     (case bs of
        [] \<Rightarrow> Err EndOfStream
      | a # bs' \<Rightarrow>
          let k = (if unat a < 64 then 0 else if unat a < 128 then 1 else 3);
              n = from_be_bytes (of_nat (unat a mod 64) # take k bs') in
          if length bs' < k + n then Err EndOfStream
          else Ok (take n (drop k bs'), drop (k + n) bs'))"

definition quic_codec :: tls_codec where
  "quic_codec = \<lparr>vl_encode = quic_encode, vl_decode = quic_decode,
     body_encode = (\<lambda>e. []), body_decode = (\<lambda>t d. Err DecodingError)\<rparr>"

lemma mod_128: "(x::nat) < 64 \<Longrightarrow> (128 + x) mod 64 = x"
  using mod_mult_self1 [of x 2 64] by (simp add: add.commute)

lemma quic_decode_encode:
  assumes "length d < 2 ^ 30"
  shows "quic_decode (quic_encode d @ rest) = Ok (d, rest)"
proof -
  let ?n = "length d"
  consider "?n < 64" | "64 \<le> ?n" "?n < 16384" | "16384 \<le> ?n" by linarith
  then show ?thesis
  proof cases
    case 1
    then have "unat (word_of_nat ?n :: 8 word) = ?n" by (simp add: unat_byte)
    with 1 show ?thesis
      by (simp add: quic_encode_def quic_decode_def from_be_bytes_def Let_def)
  next
    case 2
    then have "?n div 256 < 64" "?n div 256 * 256 + ?n mod 256 = ?n" by auto
    then have "unat (word_of_nat (64 + ?n div 256) :: 8 word) = 64 + ?n div 256"
      "from_be_bytes [word_of_nat (?n div 256), word_of_nat ?n] = ?n"
      using unat_byte [of "64 + ?n div 256"] by (simp_all add: from_be_bytes_def unat_byte del: of_nat_add)
    with 2 \<open>?n div 256 < 64\<close> show ?thesis
      by (simp add: quic_encode_def quic_decode_def Let_def del: of_nat_add)
  next
    case 3
    have "?n div 2 ^ 24 < 64" using assms by (simp add: less_mult_imp_div_less)
    then have "unat (word_of_nat (128 + ?n div 2 ^ 24) :: 8 word) = 128 + ?n div 2 ^ 24"
      using unat_byte [of "128 + ?n div 2 ^ 24"] by simp
    moreover have "(128 + ?n div 2 ^ 24) mod 64 = ?n div 2 ^ 24"
      using mod_128 [OF \<open>?n div 2 ^ 24 < 64\<close>] .
    moreover have "from_be_bytes [word_of_nat (?n div 2 ^ 24), word_of_nat (?n div 2 ^ 16),
        word_of_nat (?n div 2 ^ 8), word_of_nat ?n] = ?n"
      using from_to_be_bytes [of ?n] assms by (simp add: to_be_bytes_def)
    ultimately show ?thesis using 3
      by (simp add: quic_encode_def quic_decode_def Let_def numeral_3_eq_3 del: of_nat_add)
  qed
qed

lemma quic_documented: "vl_documented quic_codec"
proof -
  have "length (quic_encode d) = vl_header_len (length d) + length d" for d
    by (simp add: quic_encode_def vl_header_len_def Let_def)
  then show ?thesis using quic_decode_encode by (simp add: vl_documented_def quic_codec_def)
qed

lemma decode_type:
  assumes "k < 2 ^ 16"
  shows "ExtensionType_tls_deserialize (u16_to_be_bytes k @ rest) = Ok (ExtensionType_from k, rest)"
proof -
  have "k div 256 < 256" "k div 256 * 256 + k mod 256 = k" using assms by auto
  then show ?thesis by (simp add: u16_to_be_bytes_def unat_byte)
qed

text \<open>
  (C32) The wire format of an unknown extension. Encoding does not panic, and decoding from a reader
  gives the extension and the remaining bytes back. The size that the code computes is right but for two
  lengths of the data: at \<open>0x3fff\<close> bytes it is two bytes too large and at \<open>0x3fffffff\<close> bytes four.
  The decoder that slices the remainder off then drops as many bytes that belong to what follows, and
  panics if there are fewer.
\<close>

theorem unknown_extension_codec:
  assumes "vl_documented codec" "k < 2 ^ 16" "ExtensionType_from k = TUnknown k" "length d < 2 ^ 30"
  shows "\<exists>bs. let excess = (if length d = 0x3fff then 2 else if length d = 0x3fffffff then 4 else 0) in
    Extension_tls_serialize codec (Unknown k d) = Some bs \<and>
    Extension_tls_deserialize codec (bs @ rest) = Ok (Unknown k d, rest) \<and>
    Extension_tls_serialized_len codec (Unknown k d) = length bs + excess \<and>
    Extension_tls_deserialize_bytes codec (bs @ rest) =
      (if length rest < excess then Panic else Ok (Unknown k d, drop excess rest))"
proof -
  let ?bs = "ExtensionType_tls_serialize (TUnknown k) @ vl_encode codec d"
  let ?x = "if length d = 0x3fff then 2 else if length d = 0x3fffffff then 4 else 0 :: nat"
  have len: "length (vl_encode codec d) = vl_header_len (length d) + length d"
    and dec: "vl_decode codec (vl_encode codec d @ rest) = Ok (d, rest)"
    using assms(1,4) by (simp_all add: vl_documented_def)
  have ser: "Extension_tls_serialize codec (Unknown k d) = Some ?bs"
    by (simp add: Extension_tls_serialize_def Extension_tls_serialized_len_def extension_data_def Let_def)
  have des: "Extension_tls_deserialize codec (?bs @ rest) = Ok (Unknown k d, rest)"
    using decode_type [OF assms(2)] dec assms(3)
    by (simp add: Extension_tls_deserialize_def ExtensionType_tls_serialize_def)
  have size: "Extension_tls_serialized_len codec (Unknown k d) = length ?bs + ?x"
    using assms(4) len
    by (simp add: Extension_tls_serialized_len_def extension_data_def Let_def vlbytes_len_len_def
        vl_header_len_def ExtensionType_tls_serialize_def u16_to_be_bytes_def)
  have "Extension_tls_deserialize_bytes codec (?bs @ rest) =
      (if length rest < ?x then Panic else Ok (Unknown k d, drop ?x rest))"
    unfolding Extension_tls_deserialize_bytes_def des outcome_bind.simps split_conv size by simp
  with ser des size show ?thesis unfolding Let_def by blast
qed

theorem unknown_extension_codec_witness:
  "\<exists>bs. Extension_tls_serialize quic_codec (Unknown 0xF000 (replicate 0x3fff 0)) = Some bs \<and>
     Extension_tls_deserialize_bytes quic_codec bs = Panic"
  using unknown_extension_codec [OF quic_documented, of "0xF000" "replicate 0x3fff 0" "[]"]
  by (simp add: ExtensionType_from_def is_grease_value_def Let_def) blast

text \<open>A GREASE extension on the wire, for the property above.\<close>

theorem grease_extension_seen_as_unknown_witness:
  "Extension_tls_deserialize quic_codec [0x0A, 0x0A, 1, 5] = Ok (Unknown 0x0A0A [5], [])"
proof -
  have "quic_decode [1, 5] = Ok ([5], [])" by (simp add: quic_decode_def from_be_bytes_def)
  then show ?thesis
    using grease_extension_seen_as_unknown [of "0x0A0A" quic_codec "[1, 5]" "[5]" "[]" "[0x0A, 0x0A, 1, 5]"]
    by (simp add: quic_codec_def is_grease_value_def)
qed

end
