(* ===== verification/PastSecrets.thy ===== *)
theory PastSecrets
  imports SecretTree Registry
begin

text \<open>
  The message secrets of the current and of past epochs: \<open>group/mls_group/past_secrets.rs\<close>,
  \<open>schedule/message_secrets.rs\<close>, the deletion policies of \<open>group/mls_group/config.rs\<close> and
  the parts of \<open>MlsGroup\<close> that move secrets into the store and look them up.

  A \<open>VecDeque\<close> is a list, its back the end of the list. Every reading of the clock is an
  argument, because the clock is not monotonic. The width of \<open>usize\<close> is the argument \<open>w\<close>, 64 or 32 bits.
\<close>

section \<open>Policies\<close>

type_synonym GroupEpoch = u64

definition GroupEpoch_increment :: "GroupEpoch \<Rightarrow> GroupEpoch option" where
  "GroupEpoch_increment e = (if e + 1 < 2 ^ 64 then Some (e + 1) else None)"

datatype PastEpochDeletionPolicy = MaxEpochs nat | KeepAll

definition usize_MAX :: "nat \<Rightarrow> nat" where
  "usize_MAX w = 2 ^ w - 1"

fun PastEpochDeletionPolicy_serialize :: "nat \<Rightarrow> PastEpochDeletionPolicy \<Rightarrow> u64" where
  "PastEpochDeletionPolicy_serialize w (MaxEpochs epochs) = epochs"
| "PastEpochDeletionPolicy_serialize w KeepAll = usize_MAX w"

text \<open>The stored forms: a plain integer, and the tagged form of earlier versions.\<close>

datatype policy_format = IntFormat u64 | Tagged PastEpochDeletionPolicy

fun PastEpochDeletionPolicy_deserialize :: "nat \<Rightarrow> policy_format \<Rightarrow> (PastEpochDeletionPolicy, unit) outcome" where
  "PastEpochDeletionPolicy_deserialize w (IntFormat n) =
     (if n = 2 ^ 64 - 1 then Ok KeepAll
      else if n \<le> usize_MAX w then Ok (MaxEpochs n)
      else Err ())"
| "PastEpochDeletionPolicy_deserialize w (Tagged policy) = Ok policy"

fun PastEpochDeletionPolicy_max_epochs :: "PastEpochDeletionPolicy \<Rightarrow> nat option" where
  "PastEpochDeletionPolicy_max_epochs (MaxEpochs epochs) = Some epochs"
| "PastEpochDeletionPolicy_max_epochs KeepAll = None"

datatype PastEpochDeletionTimeConfig =
    OlderThanDuration Duration
  | BeforeTimestamp SystemTime
  | DeleteAllWithoutTimestamp

record PastEpochDeletion =
  deletion_config :: "PastEpochDeletionTimeConfig option"
  max_past_epochs :: "nat option"

section \<open>Message secrets and the store\<close>

record MessageSecrets =
  sender_data_secret :: Secret
  membership_key :: Secret
  confirmation_key :: Secret
  serialized_context :: bytes
  secret_tree :: SecretTree
  added_at :: "SystemTime option"

definition MessageSecrets_new ::
    "Secret \<Rightarrow> Secret \<Rightarrow> Secret \<Rightarrow> bytes \<Rightarrow> SecretTree \<Rightarrow> MessageSecrets" where
  "MessageSecrets_new sds mk ck ctx st =
     \<lparr>sender_data_secret = sds, membership_key = mk, confirmation_key = ck,
      serialized_context = ctx, secret_tree = st, added_at = None\<rparr>"

definition with_timestamp :: "SystemTime \<Rightarrow> MessageSecrets \<Rightarrow> MessageSecrets" where
  "with_timestamp timestamp ms = ms\<lparr>added_at := Some timestamp\<rparr>"

record Member =
  member_index :: LeafNodeIndex
  member_credential :: Credential
  member_encryption_key :: bytes
  member_signature_key :: bytes

record EpochTree =
  et_epoch :: u64
  et_message_secrets :: MessageSecrets
  et_leaves :: "Member list"

record MessageSecretsStore =
  mss_max_epochs :: nat
  past_epoch_trees :: "EpochTree list"
  message_secrets :: MessageSecrets

definition VECDEQUE_MAX_CAPACITY :: "nat \<Rightarrow> nat" where
  "VECDEQUE_MAX_CAPACITY w = 2 ^ (w - 1) - 1"

definition max_epochs :: "nat \<Rightarrow> PastEpochDeletionPolicy \<Rightarrow> nat" where
  "max_epochs w policy =
     min (case PastEpochDeletionPolicy_max_epochs policy of Some n \<Rightarrow> n | None \<Rightarrow> VECDEQUE_MAX_CAPACITY w)
       (VECDEQUE_MAX_CAPACITY w)"

definition new_with_secret ::
    "nat \<Rightarrow> SystemTime \<Rightarrow> PastEpochDeletionPolicy \<Rightarrow> MessageSecrets \<Rightarrow> MessageSecretsStore" where
  "new_with_secret w now policy ms =
     \<lparr>mss_max_epochs = max_epochs w policy, past_epoch_trees = [], message_secrets = with_timestamp now ms\<rparr>"

text \<open>\<open>rotate_left\<close> panics if it is to move more elements than there are.\<close>

definition rotate_left :: "nat \<Rightarrow> 'a list \<Rightarrow> 'a list option" where
  "rotate_left n xs = (if n \<le> length xs then Some (drop n xs @ take n xs) else None)"

definition MessageSecretsStore_resize ::
    "nat \<Rightarrow> PastEpochDeletionPolicy \<Rightarrow> MessageSecretsStore \<Rightarrow> MessageSecretsStore option" where
  "MessageSecretsStore_resize w policy s =
     (let max_past = max_epochs w policy; old_size = mss_max_epochs s; s = s\<lparr>mss_max_epochs := max_past\<rparr> in
      if old_size > max_past
      then (let num_epochs_out = old_size - max_past in
        case rotate_left (min num_epochs_out (length (past_epoch_trees s))) (past_epoch_trees s) of
          None \<Rightarrow> None
        | Some trees \<Rightarrow> Some (s\<lparr>past_epoch_trees := take max_past trees\<rparr>))
      else Some s)"

definition replace_current_message_secrets ::
    "SystemTime \<Rightarrow> MessageSecrets \<Rightarrow> MessageSecretsStore \<Rightarrow> MessageSecretsStore \<times> MessageSecrets" where
  "replace_current_message_secrets now ms s =
     (s\<lparr>message_secrets := with_timestamp now ms\<rparr>, message_secrets s)"

definition add_past_epoch_tree ::
    "GroupEpoch \<Rightarrow> MessageSecrets \<Rightarrow> Member list \<Rightarrow> MessageSecretsStore \<Rightarrow> MessageSecretsStore option" where
  "add_past_epoch_tree group_epoch ms leaves s =
     (if mss_max_epochs s = 0 then Some s
      else
        case (if length (past_epoch_trees s) \<ge> mss_max_epochs s
              then map_option (take (mss_max_epochs s - 1)) (rotate_left 1 (past_epoch_trees s))
              else Some (past_epoch_trees s)) of
          None \<Rightarrow> None
        | Some trees \<Rightarrow>
            let trees = trees @ [\<lparr>et_epoch = group_epoch, et_message_secrets = ms, et_leaves = leaves\<rparr>] in
            if mss_max_epochs s \<ge> length trees then Some (s\<lparr>past_epoch_trees := trees\<rparr>) else None)"

text \<open>
  The lookups walk over the trees from the front. The mutable one hands a reference to its caller:
  here the caller is a function that gives the new secrets and a result.
\<close>

definition find_epoch :: "GroupEpoch \<Rightarrow> MessageSecretsStore \<Rightarrow> EpochTree option" where
  "find_epoch e s = find (\<lambda>t. et_epoch t = e) (past_epoch_trees s)"

fun update_first :: "GroupEpoch \<Rightarrow> (MessageSecrets \<Rightarrow> MessageSecrets \<times> 'r) \<Rightarrow> EpochTree list \<Rightarrow>
    (EpochTree list \<times> 'r) option" where
  "update_first e f [] = None"
| "update_first e f (t # ts) =
     (if et_epoch t = e
      then (let (ms, r) = f (et_message_secrets t) in Some (t\<lparr>et_message_secrets := ms\<rparr> # ts, r))
      else map_option (\<lambda>(ts', r). (t # ts', r)) (update_first e f ts))"

definition secrets_for_epoch_mut ::
    "GroupEpoch \<Rightarrow> (MessageSecrets \<Rightarrow> MessageSecrets \<times> 'r) \<Rightarrow> MessageSecretsStore \<Rightarrow>
     (MessageSecretsStore \<times> 'r) option" where
  "secrets_for_epoch_mut e f s =
     map_option (\<lambda>(ts, r). (s\<lparr>past_epoch_trees := ts\<rparr>, r)) (update_first e f (past_epoch_trees s))"

definition secrets_for_epoch :: "GroupEpoch \<Rightarrow> MessageSecretsStore \<Rightarrow> MessageSecrets option" where
  "secrets_for_epoch e s = map_option et_message_secrets (find_epoch e s)"

definition secrets_and_leaves_for_epoch ::
    "GroupEpoch \<Rightarrow> MessageSecretsStore \<Rightarrow> (MessageSecrets \<times> Member list) option" where
  "secrets_and_leaves_for_epoch e s = map_option (\<lambda>t. (et_message_secrets t, et_leaves t)) (find_epoch e s)"

definition leaves_for_epoch :: "GroupEpoch \<Rightarrow> MessageSecretsStore \<Rightarrow> LeafNodeIndex \<rightharpoonup> Member" where
  "leaves_for_epoch e s =
     (case find_epoch e s of
        None \<Rightarrow> Map.empty
      | Some t \<Rightarrow> map_of (rev (map (\<lambda>m. (member_index m, m)) (et_leaves t))))"

definition epoch_has_leaf :: "GroupEpoch \<Rightarrow> LeafNodeIndex \<Rightarrow> MessageSecretsStore \<Rightarrow> bool" where
  "epoch_has_leaf e i s \<longleftrightarrow>
     list_ex (\<lambda>t. et_epoch t = e \<and> list_ex (\<lambda>m. member_index m = i) (et_leaves t)) (past_epoch_trees s)"

section \<open>Deletion by age\<close>

definition older_than :: "SystemTime \<Rightarrow> Duration \<Rightarrow> MessageSecrets \<Rightarrow> bool" where
  "older_than now duration ms =
     (case added_at ms of
        None \<Rightarrow> False
      | Some added \<Rightarrow>
         (case SystemTime_duration_since now added of None \<Rightarrow> False | Some elapsed \<Rightarrow> elapsed > duration))"

definition added_before :: "SystemTime \<Rightarrow> MessageSecrets \<Rightarrow> bool" where
  "added_before cutoff ms = (case added_at ms of None \<Rightarrow> False | Some added \<Rightarrow> added < cutoff)"

text \<open>\<open>iter().enumerate().rev().find(..)\<close>: the position of the last element that satisfies \<open>P\<close>.\<close>

definition find_last :: "(nat \<Rightarrow> 'a \<Rightarrow> bool) \<Rightarrow> 'a list \<Rightarrow> nat option" where
  "find_last P xs = map_option fst (find (\<lambda>(i, x). P i x) (rev (List.enumerate 0 xs)))"

definition drain_through :: "nat option \<Rightarrow> MessageSecretsStore \<Rightarrow> MessageSecretsStore" where
  "drain_through found s =
     (case found of
        Some found_idx \<Rightarrow> s\<lparr>past_epoch_trees := drop (found_idx + 1) (past_epoch_trees s)\<rparr>
      | None \<Rightarrow> s)"

text \<open>The clock is read once for the current secrets and once for each tree, by its position.\<close>

definition delete_past_epoch_secrets_older_than_duration ::
    "SystemTime \<Rightarrow> (nat \<Rightarrow> SystemTime) \<Rightarrow> Duration \<Rightarrow> MessageSecretsStore \<Rightarrow> MessageSecretsStore" where
  "delete_past_epoch_secrets_older_than_duration now clock duration s =
     (if older_than now duration (message_secrets s) then s\<lparr>past_epoch_trees := []\<rparr>
      else drain_through
        (find_last (\<lambda>i t. older_than (clock i) duration (et_message_secrets t)) (past_epoch_trees s)) s)"

definition delete_past_epoch_secrets_before_timestamp ::
    "SystemTime \<Rightarrow> MessageSecretsStore \<Rightarrow> MessageSecretsStore" where
  "delete_past_epoch_secrets_before_timestamp cutoff s =
     (if added_before cutoff (message_secrets s) then s\<lparr>past_epoch_trees := []\<rparr>
      else drain_through
        (find_last (\<lambda>i t. added_before cutoff (et_message_secrets t)) (past_epoch_trees s)) s)"

definition delete_past_epoch_secrets ::
    "SystemTime \<Rightarrow> (nat \<Rightarrow> SystemTime) \<Rightarrow> PastEpochDeletion \<Rightarrow> MessageSecretsStore \<Rightarrow> MessageSecretsStore" where
  "delete_past_epoch_secrets now clock policy s =
     (case deletion_config policy of
        None \<Rightarrow> s\<lparr>past_epoch_trees := []\<rparr>
      | Some config \<Rightarrow>
          let s = (case config of
              DeleteAllWithoutTimestamp \<Rightarrow>
                s\<lparr>past_epoch_trees :=
                    filter (\<lambda>t. added_at (et_message_secrets t) \<noteq> None) (past_epoch_trees s)\<rparr>
            | BeforeTimestamp timestamp \<Rightarrow> delete_past_epoch_secrets_before_timestamp timestamp s
            | OlderThanDuration duration \<Rightarrow>
                delete_past_epoch_secrets_older_than_duration now clock duration s) in
          (case max_past_epochs policy of
             None \<Rightarrow> s
           | Some m \<Rightarrow>
               if m \<le> length (past_epoch_trees s)
               then s\<lparr>past_epoch_trees := drop (length (past_epoch_trees s) - m) (past_epoch_trees s)\<rparr>
               else s))"

section \<open>The group's use of the store\<close>

text \<open>
  The epoch of the group context and the store are the parts of \<open>MlsGroup\<close> involved. Merging a
  commit moves the current secrets into the store, under the old epoch and with the members of the
  old tree, before the staged group context with the next epoch replaces the old one.
\<close>

record EpochState =
  group_epoch :: GroupEpoch
  message_secrets_store :: MessageSecretsStore

definition merge_message_secrets ::
    "SystemTime \<Rightarrow> MessageSecrets \<Rightarrow> Member list \<Rightarrow> EpochState \<Rightarrow> EpochState option" where
  "merge_message_secrets now ms leaves g =
     (let (store, old_message_secrets) = replace_current_message_secrets now ms (message_secrets_store g) in
      case add_past_epoch_tree (group_epoch g) old_message_secrets leaves store of
        None \<Rightarrow> None
      | Some store' \<Rightarrow>
          map_option (\<lambda>e. \<lparr>group_epoch = e, message_secrets_store = store'\<rparr>) (GroupEpoch_increment (group_epoch g)))"

definition resize_message_secrets_store ::
    "nat \<Rightarrow> PastEpochDeletionPolicy \<Rightarrow> EpochState \<Rightarrow> EpochState option" where
  "resize_message_secrets_store w policy g =
     map_option (\<lambda>s. g\<lparr>message_secrets_store := s\<rparr>)
       (MessageSecretsStore_resize w policy (message_secrets_store g))"

definition message_secrets_for_epoch_mut ::
    "GroupEpoch \<Rightarrow> (MessageSecrets \<Rightarrow> MessageSecrets \<times> 'r) \<Rightarrow> EpochState \<Rightarrow>
     EpochState \<times> ('r, SecretTreeError) outcome" where
  "message_secrets_for_epoch_mut epoch f g =
     (if epoch < group_epoch g
      then (case secrets_for_epoch_mut epoch f (message_secrets_store g) of
          None \<Rightarrow> (g, Err TooDistantInThePast)
        | Some (s, r) \<Rightarrow> (g\<lparr>message_secrets_store := s\<rparr>, Ok r))
      else (let (ms, r) = f (message_secrets (message_secrets_store g)) in
        (g\<lparr>message_secrets_store := (message_secrets_store g)\<lparr>message_secrets := ms\<rparr>\<rparr>, Ok r)))"

definition message_secrets_for_epoch ::
    "GroupEpoch \<Rightarrow> EpochState \<Rightarrow> (MessageSecrets, SecretTreeError) outcome" where
  "message_secrets_for_epoch epoch g =
     (if epoch < group_epoch g
      then ok_or (secrets_for_epoch epoch (message_secrets_store g)) TooDistantInThePast
      else Ok (message_secrets (message_secrets_store g)))"

definition message_secrets_and_leaves ::
    "GroupEpoch \<Rightarrow> EpochState \<Rightarrow> (MessageSecrets \<times> Member list, SecretTreeError) outcome" where
  "message_secrets_and_leaves epoch g =
     (if epoch < group_epoch g
      then ok_or (secrets_and_leaves_for_epoch epoch (message_secrets_store g)) TooDistantInThePast
      else Ok (message_secrets (message_secrets_store g), []))"

section \<open>The store as a bounded log\<close>

definition last_n :: "nat \<Rightarrow> 'a list \<Rightarrow> 'a list" where
  "last_n n xs = drop (length xs - n) xs"

lemma last_n_append: "last_n n (last_n n xs @ ys) = last_n n (xs @ ys)"
proof (cases "n \<le> length xs")
  case True
  then have "length xs + length ys - (length xs - n + n) + (length xs - n) = length xs + length ys - n" by simp
  then show ?thesis using True by (auto simp: last_n_def)
qed (simp add: last_n_def)

lemma length_last_n [simp]: "length (last_n n xs) = min n (length xs)"
  by (simp add: last_n_def)

lemma set_last_n: "set (last_n n xs) \<subseteq> set xs"
  by (simp add: last_n_def set_drop_subset)

lemma last_n_all [simp]: "length xs \<le> n \<Longrightarrow> last_n n xs = xs"
  by (simp add: last_n_def)

text \<open>
  What a store promises that keeps the newest \<open>cap\<close> entries: a push succeeds, and the entries
  are then the last \<open>cap\<close> of the old ones and the new one.
\<close>

locale bounded_log =
  fixes push :: "'e \<Rightarrow> 's \<Rightarrow> 's option"
    and entries :: "'s \<Rightarrow> 'e list"
    and cap :: "'s \<Rightarrow> nat"
  assumes push_Some:
    "length (entries s) \<le> cap s \<Longrightarrow>
     \<exists>s'. push e s = Some s' \<and> cap s' = cap s \<and> entries s' = last_n (cap s) (entries s @ [e])"
begin

lemma pushes_Some:
  "length (entries s) \<le> cap s \<Longrightarrow>
   \<exists>s'. for_each push es s = Some s' \<and> cap s' = cap s \<and> entries s' = last_n (cap s) (entries s @ es)"
proof (induction es arbitrary: s)
  case Nil
  then show ?case by simp
next
  case (Cons e es)
  obtain s1 where s1: "push e s = Some s1" "cap s1 = cap s" "entries s1 = last_n (cap s) (entries s @ [e])"
    using push_Some [OF Cons.prems] by blast
  then obtain s' where "for_each push es s1 = Some s'" "cap s' = cap s"
    "entries s' = last_n (cap s) (last_n (cap s) (entries s @ [e]) @ es)"
    using Cons.IH [of s1] by auto
  then show ?case using s1 by (simp add: last_n_append)
qed

end

lemma add_past_epoch_tree_effect:
  assumes "length (past_epoch_trees s) \<le> mss_max_epochs s"
  shows "add_past_epoch_tree e ms leaves s = Some (s\<lparr>past_epoch_trees :=
    last_n (mss_max_epochs s) (past_epoch_trees s @ [\<lparr>et_epoch = e, et_message_secrets = ms, et_leaves = leaves\<rparr>])\<rparr>)"
proof -
  consider "mss_max_epochs s = 0" | "length (past_epoch_trees s) < mss_max_epochs s"
    | "0 < mss_max_epochs s" "length (past_epoch_trees s) = mss_max_epochs s"
    using assms by linarith
  then show ?thesis
  proof cases
    case 1
    then show ?thesis using assms by (simp add: add_past_epoch_tree_def last_n_def)
  next
    case 2
    then show ?thesis by (simp add: add_past_epoch_tree_def last_n_def)
  next
    case 3
    then have "take (mss_max_epochs s - 1) (drop 1 (past_epoch_trees s) @ take 1 (past_epoch_trees s)) =
        drop 1 (past_epoch_trees s)" by simp
    then show ?thesis using 3 by (simp add: add_past_epoch_tree_def last_n_def rotate_left_def)
  qed
qed

lemma EpochTree_eta [simp]:
  "\<lparr>et_epoch = et_epoch t, et_message_secrets = et_message_secrets t, et_leaves = et_leaves t\<rparr> = t"
  by (cases t) simp

interpretation past: bounded_log
  "\<lambda>t. add_past_epoch_tree (et_epoch t) (et_message_secrets t) (et_leaves t)" past_epoch_trees mss_max_epochs
  by unfold_locales (simp add: add_past_epoch_tree_effect)

section \<open>Merging commits\<close>

type_synonym commit = "SystemTime \<times> MessageSecrets \<times> Member list"

definition merge_step :: "commit \<Rightarrow> EpochState \<Rightarrow> EpochState option" where
  "merge_step = (\<lambda>(now, ms, leaves). merge_message_secrets now ms leaves)"

text \<open>The secrets of the epochs of a group: those it starts with and those of every commit.\<close>

definition epoch_secrets :: "MessageSecrets \<Rightarrow> commit list \<Rightarrow> MessageSecrets list" where
  "epoch_secrets ms cs = ms # map (\<lambda>(now, ms', _). with_timestamp now ms') cs"

definition epoch_history :: "GroupEpoch \<Rightarrow> MessageSecrets \<Rightarrow> commit list \<Rightarrow> EpochTree list" where
  "epoch_history e ms cs =
     map (\<lambda>i. \<lparr>et_epoch = e + i, et_message_secrets = epoch_secrets ms cs ! i, et_leaves = snd (snd (cs ! i))\<rparr>)
       [0..<length cs]"

lemma epoch_history_Nil [simp]: "epoch_history e ms [] = []"
  by (simp add: epoch_history_def)

lemma epoch_history_Cons [simp]:
  "epoch_history e ms ((now, ms', leaves) # cs) =
     \<lparr>et_epoch = e, et_message_secrets = ms, et_leaves = leaves\<rparr> # epoch_history (e + 1) (with_timestamp now ms') cs"
  by (rule nth_equalityI) (auto simp: epoch_history_def epoch_secrets_def nth_Cons' simp del: upt_Suc)

lemma epochs_of_history: "map et_epoch (epoch_history e ms cs) = [e..<e + length cs]"
  by (rule nth_equalityI) (auto simp: epoch_history_def)

abbreviation push_tree :: "EpochTree \<Rightarrow> MessageSecretsStore \<Rightarrow> MessageSecretsStore option" where
  "push_tree t \<equiv> add_past_epoch_tree (et_epoch t) (et_message_secrets t) (et_leaves t)"

lemma add_past_keeps_current:
  "add_past_epoch_tree e ms leaves (s\<lparr>message_secrets := x\<rparr>) =
     map_option (\<lambda>s'. s'\<lparr>message_secrets := x\<rparr>) (add_past_epoch_tree e ms leaves s)"
  by (auto simp: add_past_epoch_tree_def Let_def split: option.splits)

lemma pushes_keep_current:
  "for_each push_tree ts (s\<lparr>message_secrets := x\<rparr>) =
     map_option (\<lambda>s'. s'\<lparr>message_secrets := x\<rparr>) (for_each push_tree ts s)"
  by (induction ts arbitrary: s) (simp_all add: add_past_keeps_current split: option.splits)

lemma merges_push_history:
  assumes "group_epoch g + length cs < 2 ^ 64"
    and "for_each push_tree (epoch_history (group_epoch g) (message_secrets (message_secrets_store g)) cs)
      (message_secrets_store g) = Some s'"
  shows "for_each merge_step cs g = Some \<lparr>group_epoch = group_epoch g + length cs,
    message_secrets_store = s'\<lparr>message_secrets := last (epoch_secrets (message_secrets (message_secrets_store g)) cs)\<rparr>\<rparr>"
  using assms
proof (induction cs arbitrary: g s')
  case Nil
  then show ?case by (cases g) (simp add: epoch_secrets_def)
next
  case (Cons c cs)
  obtain now ms leaves where c: "c = (now, ms, leaves)" by (cases c) auto
  let ?s = "message_secrets_store g"
  obtain s1 where s1: "add_past_epoch_tree (group_epoch g) (message_secrets ?s) leaves ?s = Some s1"
    and rest: "for_each push_tree (epoch_history (group_epoch g + 1) (with_timestamp now ms) cs) s1 = Some s'"
    using Cons.prems(2) c by (auto split: option.splits)
  let ?g1 = "\<lparr>group_epoch = group_epoch g + 1, message_secrets_store = s1\<lparr>message_secrets := with_timestamp now ms\<rparr>\<rparr>"
  have "merge_step c g = Some ?g1"
    using Cons.prems(1) s1
    by (simp add: c merge_step_def merge_message_secrets_def replace_current_message_secrets_def
        add_past_keeps_current GroupEpoch_increment_def)
  moreover have "for_each push_tree
      (epoch_history (group_epoch ?g1) (message_secrets (message_secrets_store ?g1)) cs)
      (message_secrets_store ?g1) = Some (s'\<lparr>message_secrets := with_timestamp now ms\<rparr>)"
    using rest by (simp add: pushes_keep_current)
  from Cons.IH [OF _ this] Cons.prems(1)
  have "for_each merge_step cs ?g1 = Some \<lparr>group_epoch = group_epoch g + length (c # cs),
    message_secrets_store = s'\<lparr>message_secrets := last (epoch_secrets (with_timestamp now ms) cs)\<rparr>\<rparr>"
    by simp
  ultimately show ?case by (simp add: c epoch_secrets_def)
qed

lemma find_consecutive:
  assumes "map k xs = [a..<b]"
  shows "find (\<lambda>x. k x = e) xs = (if a \<le> e \<and> e < b then Some (xs ! (e - a)) else None)"
proof -
  have len: "length xs = b - a" using arg_cong [OF assms, of length] by simp
  have nth: "k (xs ! i) = a + i" if "i < b - a" for i
    using arg_cong [OF assms, of "\<lambda>l. l ! i"] that len by simp
  show ?thesis
  proof (cases "a \<le> e \<and> e < b")
    case True
    then have "e - a < length xs" "k (xs ! (e - a)) = e" using nth len by auto
    moreover have "k (xs ! j) \<noteq> e" if "j < e - a" for j
    proof -
      have "j < b - a" "a + j < e" using that True by linarith+
      then show ?thesis using nth [of j] by simp
    qed
    ultimately have "e - a < length xs" "k (xs ! (e - a)) = e" "\<forall>j<e - a. k (xs ! j) \<noteq> e" by auto
    then show ?thesis using True by (auto simp: find_Some_iff)
  next
    case False
    then have "\<forall>x\<in>set xs. k x \<noteq> e" using nth len by (auto simp: in_set_conv_nth)
    then show ?thesis using False by (auto simp: find_None_iff)
  qed
qed

lemma find_in_history:
  "find (\<lambda>t. et_epoch t = e') (last_n m (epoch_history e ms cs)) =
     (if e \<le> e' \<and> e' < e + length cs \<and> e + length cs \<le> e' + m
      then Some (epoch_history e ms cs ! (e' - e)) else None)"
proof -
  let ?h = "epoch_history e ms cs"
  have len: "length ?h = length cs" by (simp add: epoch_history_def)
  have "map et_epoch (last_n m ?h) = [e + (length cs - m)..<e + length cs]"
    unfolding last_n_def drop_map [symmetric] epochs_of_history len by (simp add: drop_upt)
  from find_consecutive [OF this, of e'] show ?thesis
    by (auto simp: last_n_def len nth_drop)
qed

section \<open>Deletion and resizing\<close>

lemma find_last_Some:
  "find_last P xs = Some i \<Longrightarrow> i < length xs \<and> P i (xs ! i) \<and> (\<forall>j. i < j \<longrightarrow> j < length xs \<longrightarrow> \<not> P j (xs ! j))"
proof (induction xs rule: rev_induct)
  case (snoc x xs)
  then show ?case
    by (cases "P (length xs) x") (auto simp: find_last_def enumerate_append_eq nth_append less_Suc_eq)
qed (simp add: find_last_def)

lemma find_last_None: "find_last P xs = None \<Longrightarrow> j < length xs \<Longrightarrow> \<not> P j (xs ! j)"
proof (induction xs rule: rev_induct)
  case (snoc x xs)
  then show ?case
    by (cases "P (length xs) x") (auto simp: find_last_def enumerate_append_eq nth_append less_Suc_eq)
qed simp

text \<open>An entry that a time-based deletion is about, by its position and the clock's reading for it.\<close>

fun expired :: "PastEpochDeletionTimeConfig \<Rightarrow> SystemTime \<Rightarrow> MessageSecrets \<Rightarrow> bool" where
  "expired (OlderThanDuration duration) now ms = older_than now duration ms"
| "expired (BeforeTimestamp cutoff) now ms = added_before cutoff ms"
| "expired DeleteAllWithoutTimestamp now ms = (added_at ms = None)"

lemma time_deletion_effect:
  assumes "config \<noteq> DeleteAllWithoutTimestamp"
    and "s' = delete_past_epoch_secrets now clock \<lparr>deletion_config = Some config, max_past_epochs = None\<rparr> s"
  shows "\<exists>k \<le> length (past_epoch_trees s). s' = s\<lparr>past_epoch_trees := drop k (past_epoch_trees s)\<rparr> \<and>
    (\<forall>i. k \<le> i \<longrightarrow> i < length (past_epoch_trees s) \<longrightarrow>
       \<not> expired config (clock i) (et_message_secrets (past_epoch_trees s ! i))) \<and>
    (k = 0 \<or> expired config now (message_secrets s) \<or>
     expired config (clock (k - 1)) (et_message_secrets (past_epoch_trees s ! (k - 1))))"
proof -
  let ?P = "\<lambda>i t. expired config (clock i) (et_message_secrets t)"
  have s': "s' = (if expired config now (message_secrets s) then s\<lparr>past_epoch_trees := []\<rparr>
      else drain_through (find_last ?P (past_epoch_trees s)) s)"
    using assms by (cases config) (simp_all add: delete_past_epoch_secrets_def
        delete_past_epoch_secrets_older_than_duration_def delete_past_epoch_secrets_before_timestamp_def)
  show ?thesis
  proof (cases "expired config now (message_secrets s)")
    case True
    then show ?thesis using s' by (intro exI [of _ "length (past_epoch_trees s)"]) auto
  next
    case False
    show ?thesis
    proof (cases "find_last ?P (past_epoch_trees s)")
      case None
      then show ?thesis using s' False find_last_None [OF None]
        by (intro exI [of _ 0]) (auto simp: drain_through_def)
    next
      case (Some i)
      then show ?thesis using s' False find_last_Some [OF Some]
        by (intro exI [of _ "i + 1"]) (auto simp: drain_through_def)
    qed
  qed
qed

lemma resize_shrinks:
  assumes "max_epochs w policy < mss_max_epochs s"
  shows "MessageSecretsStore_resize w policy s = Some (s\<lparr>mss_max_epochs := max_epochs w policy,
    past_epoch_trees :=
      (let n = min (mss_max_epochs s - max_epochs w policy) (length (past_epoch_trees s)) in
       take (max_epochs w policy) (drop n (past_epoch_trees s) @ take n (past_epoch_trees s)))\<rparr>)"
  using assms by (simp add: MessageSecretsStore_resize_def rotate_left_def Let_def)

section \<open>Properties\<close>

text \<open>
  (C33) After any number of commits the group finds the message secrets of exactly the newest past
  epochs that its policy keeps. Looking up an epoch gives the secrets that were current in that epoch
  and the members the group had then, and an older one is refused. Nothing on the way panics before
  the epoch counter overflows.
\<close>

theorem past_epochs_window:
  assumes "e0 + length cs < 2 ^ 64"
    and "g0 = \<lparr>group_epoch = e0, message_secrets_store = new_with_secret w now policy ms\<rparr>"
  shows "\<exists>g. for_each merge_step cs g0 = Some g \<and> group_epoch g = e0 + length cs \<and>
    (\<forall>e. message_secrets_and_leaves e g =
      (let secrets = epoch_secrets (with_timestamp now ms) cs in
       if e0 + length cs \<le> e then Ok (last secrets, [])
       else if e0 \<le> e \<and> e0 + length cs \<le> e + max_epochs w policy
         then Ok (secrets ! (e - e0), snd (snd (cs ! (e - e0))))
       else Err TooDistantInThePast))"
proof -
  let ?s0 = "new_with_secret w now policy ms"
  let ?h = "epoch_history e0 (with_timestamp now ms) cs"
  obtain s where s: "for_each push_tree ?h ?s0 = Some s" "mss_max_epochs s = max_epochs w policy"
    "past_epoch_trees s = last_n (max_epochs w policy) ?h"
    using past.pushes_Some [of ?s0 ?h] by (auto simp: new_with_secret_def)
  have "for_each merge_step cs g0 = Some \<lparr>group_epoch = e0 + length cs,
      message_secrets_store = s\<lparr>message_secrets := last (epoch_secrets (with_timestamp now ms) cs)\<rparr>\<rparr>"
    using merges_push_history [of g0 cs s] assms s(1) by (simp add: new_with_secret_def)
  then show ?thesis
    using find_in_history [of _ "max_epochs w policy" e0 "with_timestamp now ms" cs]
    by (auto simp: message_secrets_and_leaves_def secrets_and_leaves_for_epoch_def find_epoch_def s(3) Let_def
        epoch_history_def)
qed

text \<open>
  Deleting past epochs by age keeps a newest part of the store in its order: no entry that is
  left has expired, and the newest one deleted has, unless the current secrets themselves have. A
  limit on the number of epochs then drops the oldest of what is left.
\<close>

theorem time_deletion_keeps_newest:
  assumes "config \<noteq> DeleteAllWithoutTimestamp"
    and "s' = delete_past_epoch_secrets now clock \<lparr>deletion_config = Some config, max_past_epochs = m\<rparr> s"
  shows "\<exists>k \<le> length (past_epoch_trees s).
    s' = s\<lparr>past_epoch_trees := (case m of None \<Rightarrow> drop k (past_epoch_trees s)
      | Some n \<Rightarrow> last_n n (drop k (past_epoch_trees s)))\<rparr> \<and>
    (\<forall>i. k \<le> i \<longrightarrow> i < length (past_epoch_trees s) \<longrightarrow>
       \<not> expired config (clock i) (et_message_secrets (past_epoch_trees s ! i))) \<and>
    (k = 0 \<or> expired config now (message_secrets s) \<or>
     expired config (clock (k - 1)) (et_message_secrets (past_epoch_trees s ! (k - 1))))"
proof -
  let ?s1 = "delete_past_epoch_secrets now clock \<lparr>deletion_config = Some config, max_past_epochs = None\<rparr> s"
  have "s' = (case m of None \<Rightarrow> ?s1 | Some n \<Rightarrow> ?s1\<lparr>past_epoch_trees := last_n n (past_epoch_trees ?s1)\<rparr>)"
    by (auto simp: assms(2) delete_past_epoch_secrets_def Let_def last_n_def split: option.splits)
  with time_deletion_effect [OF assms(1) refl, where now = now and clock = clock and s = s] show ?thesis
    by (auto split: option.splits)
qed

text \<open>
  (C34) Resizing the store to fewer epochs keeps the newest ones in their order if the store is full.
  If it holds no more epochs than the limit is lowered by, it keeps the oldest ones instead and forgets
  the newest. Going from \<open>KeepAll\<close> to a number of epochs is such a case for every store that fits into
  memory. In between it drops none of the newest but moves the oldest ones behind them, as many as the
  limit is lowered by if no epoch has to go, else one for each place that was free.
\<close>

theorem resize_keeps_newest_only_if_full:
  assumes "max_epochs w policy < mss_max_epochs s"
  shows "\<exists>s'. MessageSecretsStore_resize w policy s = Some s' \<and> mss_max_epochs s' = max_epochs w policy \<and>
    (length (past_epoch_trees s) = mss_max_epochs s \<longrightarrow>
       past_epoch_trees s' = last_n (max_epochs w policy) (past_epoch_trees s)) \<and>
    (length (past_epoch_trees s) \<le> mss_max_epochs s - max_epochs w policy \<longrightarrow>
       past_epoch_trees s' = take (max_epochs w policy) (past_epoch_trees s)) \<and>
    (mss_max_epochs s - max_epochs w policy < length (past_epoch_trees s) \<and> length (past_epoch_trees s) < mss_max_epochs s \<longrightarrow>
       past_epoch_trees s' = drop (mss_max_epochs s - max_epochs w policy) (past_epoch_trees s) @
         take (mss_max_epochs s - max (max_epochs w policy) (length (past_epoch_trees s))) (past_epoch_trees s))"
proof -
  let ?l = "length (past_epoch_trees s)" and ?m = "max_epochs w policy"
  let ?d = "mss_max_epochs s - ?m"
  have "min ?d ?l = ?l" if "?l \<le> ?d" using that by simp
  moreover have "min ?d ?l = ?d" if "?d < ?l" using that by simp
  moreover have "?d \<le> ?l" "?m \<le> ?l" if "?l = mss_max_epochs s" using that assms by simp_all
  moreover have "?m - (?l - ?d) = mss_max_epochs s - ?l" "?l - ?d \<le> ?m" if "?d < ?l" "?l < mss_max_epochs s"
    using that assms by simp_all
  ultimately show ?thesis using assms by (auto simp: resize_shrinks Let_def last_n_def min_def max_def)
qed

section \<open>Witnesses\<close>

definition sample_secrets :: "8 word \<Rightarrow> MessageSecrets" where
  "sample_secrets b = MessageSecrets_new (Secret [b]) (Secret []) (Secret []) []
     \<lparr>own_index = 0, st_leaf_nodes = [], st_parent_nodes = [], handshake_sender_ratchets = [],
      application_sender_ratchets = [], st_size = 1\<rparr>"

definition sample_store :: "nat \<Rightarrow> MessageSecretsStore" where
  "sample_store n =
     \<lparr>mss_max_epochs = n,
      past_epoch_trees = [\<lparr>et_epoch = 1, et_message_secrets = with_timestamp 10 (sample_secrets 1), et_leaves = []\<rparr>,
        \<lparr>et_epoch = 2, et_message_secrets = with_timestamp 20 (sample_secrets 2), et_leaves = []\<rparr>],
      message_secrets = with_timestamp 30 (sample_secrets 3)\<rparr>"

theorem past_epochs_window_witness:
  "\<exists>g. for_each merge_step [(20, sample_secrets 2, []), (30, sample_secrets 3, [])]
      \<lparr>group_epoch = 1, message_secrets_store = new_with_secret 64 10 (MaxEpochs 1) (sample_secrets 1)\<rparr> = Some g \<and>
    message_secrets_and_leaves 2 g = Ok (with_timestamp 20 (sample_secrets 2), []) \<and>
    message_secrets_and_leaves 1 g = Err TooDistantInThePast"
proof -
  define cs where "cs = [(20::SystemTime, sample_secrets 2, []::Member list), (30, sample_secrets 3, [])]"
  have m: "max_epochs 64 (MaxEpochs 1) = 1"
    by (simp add: max_epochs_def VECDEQUE_MAX_CAPACITY_def)
  have b: "(1::nat) + length cs < 2 ^ 64" by (simp add: cs_def)
  from past_epochs_window [OF b refl, where w = 64 and now = 10 and policy = "MaxEpochs 1" and ms = "sample_secrets 1"]
  obtain g where g: "for_each merge_step cs
      \<lparr>group_epoch = 1, message_secrets_store = new_with_secret 64 10 (MaxEpochs 1) (sample_secrets 1)\<rparr> = Some g"
    and l: "\<forall>e. message_secrets_and_leaves e g =
      (let secrets = epoch_secrets (with_timestamp 10 (sample_secrets 1)) cs in
       if 1 + length cs \<le> e then Ok (last secrets, [])
       else if 1 \<le> e \<and> 1 + length cs \<le> e + max_epochs 64 (MaxEpochs 1)
         then Ok (secrets ! (e - 1), snd (snd (cs ! (e - 1)))) else Err TooDistantInThePast)"
    by blast
  have "message_secrets_and_leaves 2 g = Ok (with_timestamp 20 (sample_secrets 2), [])"
    "message_secrets_and_leaves 1 g = Err TooDistantInThePast"
    using l [rule_format, of 2] l [rule_format, of 1] m by (simp_all add: cs_def epoch_secrets_def)
  with g show ?thesis unfolding cs_def by blast
qed

theorem time_deletion_keeps_newest_witness:
  "past_epoch_trees (delete_past_epoch_secrets 40 (\<lambda>i. 40)
     \<lparr>deletion_config = Some (OlderThanDuration 25), max_past_epochs = None\<rparr> (sample_store 3)) =
     drop 1 (past_epoch_trees (sample_store 3))"
proof -
  let ?c = "OlderThanDuration 25" and ?s = "sample_store 3"
  let ?d = "delete_past_epoch_secrets 40 (\<lambda>i. 40) \<lparr>deletion_config = Some ?c, max_past_epochs = None\<rparr> ?s"
  have c: "?c \<noteq> DeleteAllWithoutTimestamp" by simp
  obtain k where k: "k \<le> length (past_epoch_trees ?s)"
    "?d = ?s\<lparr>past_epoch_trees := (case None of None \<Rightarrow> drop k (past_epoch_trees ?s)
      | Some n \<Rightarrow> last_n n (drop k (past_epoch_trees ?s)))\<rparr>"
    "\<forall>i. k \<le> i \<longrightarrow> i < length (past_epoch_trees ?s) \<longrightarrow> \<not> expired ?c 40 (et_message_secrets (past_epoch_trees ?s ! i))"
    "k = 0 \<or> expired ?c 40 (message_secrets ?s) \<or>
     expired ?c 40 (et_message_secrets (past_epoch_trees ?s ! (k - 1)))"
    using time_deletion_keeps_newest [OF c refl, where now = 40 and clock = "\<lambda>i. 40" and m = None and s = ?s]
    by blast
  consider "k = 0" | "k = 1" | "k = 2" using k(1) by (fastforce simp: sample_store_def)
  then have "k = 1"
    using k(3) [rule_format, of 0] k(4)
    by cases (simp_all add: sample_store_def older_than_def with_timestamp_def SystemTime_duration_since_def)
  then show ?thesis by (simp add: k(2))
qed

theorem resize_keeps_newest_only_if_full_witness:
  "(\<exists>s'. MessageSecretsStore_resize 64 (MaxEpochs 1) (sample_store (max_epochs 64 KeepAll)) = Some s' \<and>
     map et_epoch (past_epoch_trees s') = [1]) \<and>
   (\<exists>s'. MessageSecretsStore_resize 64 (MaxEpochs 2) (sample_store 3) = Some s' \<and>
     map et_epoch (past_epoch_trees s') = [2, 1])"
proof -
  have m: "max_epochs 64 (MaxEpochs (Suc 0)) = 1" "max_epochs 64 (MaxEpochs 2) = 2" "max_epochs 64 KeepAll = 2 ^ 63 - 1"
    by (simp_all add: max_epochs_def VECDEQUE_MAX_CAPACITY_def)
  show ?thesis
    using resize_keeps_newest_only_if_full [of 64 "MaxEpochs 1" "sample_store (max_epochs 64 KeepAll)"]
      resize_keeps_newest_only_if_full [of 64 "MaxEpochs 2" "sample_store 3"]
    by (auto simp: m sample_store_def)
qed

end
