(* ===== verification/LeafNode.thy ===== *)
theory LeafNode
  imports Extensions
begin

text \<open>
  Leaf nodes of the ratchet tree and what they are made of: \<open>treesync/node/leaf_node.rs\<close>,
  \<open>treesync/node/encryption_keys.rs\<close>, \<open>key_packages/lifetime.rs\<close>, the labelled signatures
  of \<open>ciphersuite/signable.rs\<close> and the labelled encryption of \<open>ciphersuite/hpke.rs\<close>.

  Signing keys, the primitives of the crypto provider and the serialisations that the codec library
  derives are parameters. Random draws are arguments, one for each draw.
\<close>

section \<open>Library errors\<close>

datatype LibraryError =
    LibraryMissingBoundsCheck TlsCodecError | LibraryCryptoError CryptoError | LibraryCustom string

section \<open>Lifetimes\<close>

record Lifetime =
  not_before :: u64
  not_after :: u64

definition DEFAULT_KEY_PACKAGE_LIFETIME_SECONDS :: u64 where
  "DEFAULT_KEY_PACKAGE_LIFETIME_SECONDS = 60 * 60 * 24 * 28 * 3"

definition DEFAULT_KEY_PACKAGE_LIFETIME_MARGIN_SECONDS :: u64 where
  "DEFAULT_KEY_PACKAGE_LIFETIME_MARGIN_SECONDS = 60 * 60"

definition MAX_LEAF_NODE_LIFETIME_RANGE_SECONDS :: u64 where
  "MAX_LEAF_NODE_LIFETIME_RANGE_SECONDS =
     DEFAULT_KEY_PACKAGE_LIFETIME_MARGIN_SECONDS + DEFAULT_KEY_PACKAGE_LIFETIME_SECONDS"

definition u64_add :: "u64 \<Rightarrow> u64 \<Rightarrow> u64 option" where
  "u64_add a b = (if a + b < 2 ^ 64 then Some (a + b) else None)"

definition u64_sub :: "u64 \<Rightarrow> u64 \<Rightarrow> u64 option" where
  "u64_sub a b = (if b \<le> a then Some (a - b) else None)"

definition Lifetime_new :: "SystemTime \<Rightarrow> u64 \<Rightarrow> Lifetime option" where
  "Lifetime_new system_now t =
     (case SystemTime_duration_since system_now 0 of
        None \<Rightarrow> None
      | Some d \<Rightarrow>
         (let now = Duration_as_secs d in
          case u64_sub now DEFAULT_KEY_PACKAGE_LIFETIME_MARGIN_SECONDS of
            None \<Rightarrow> None
          | Some nb \<Rightarrow> map_option (\<lambda>na. \<lparr>not_before = nb, not_after = na\<rparr>) (u64_add now t)))"

definition validate_with_time :: "Lifetime \<Rightarrow> SystemTime \<Rightarrow> (unit, LifetimeError) outcome" where
  "validate_with_time l now =
     (case SystemTime_duration_since now 0 of
        None \<Rightarrow> Err SystemTimeBeforeUnixEpoch
      | Some d \<Rightarrow>
         (let duration_since_unix_epoch = Duration_as_secs d in
          if not_after l \<le> duration_since_unix_epoch
          then Err (Expired (not_after l) duration_since_unix_epoch)
          else if not_before l > duration_since_unix_epoch
          then Err (NotValidYet (not_before l) duration_since_unix_epoch)
          else Ok ()))"

definition has_acceptable_range :: "Lifetime \<Rightarrow> bool" where
  "has_acceptable_range l \<longleftrightarrow> not_after l - not_before l \<le> MAX_LEAF_NODE_LIFETIME_RANGE_SECONDS"

section \<open>Leaf nodes\<close>

type_synonym EncryptionKey = bytes
type_synonym EncryptionPrivateKey = bytes
type_synonym GroupId = bytes

record EncryptionKeyPair =
  kp_public_key :: EncryptionKey
  kp_private_key :: EncryptionPrivateKey

datatype LeafNodeSource = KeyPackageSource Lifetime | UpdateSource | CommitSource bytes

record LeafNodePayload =
  pl_encryption_key :: EncryptionKey
  pl_signature_key :: bytes
  pl_credential :: Credential
  pl_capabilities :: Capabilities
  pl_leaf_node_source :: LeafNodeSource
  pl_extensions :: Extensions

record LeafNode =
  payload :: LeafNodePayload
  ln_signature :: bytes

record TreePosition =
  tp_group_id :: GroupId
  tp_leaf_index :: LeafNodeIndex

datatype TreeInfoTbs = KeyPackageTbs | UpdateTbs TreePosition | CommitTbs TreePosition

record LeafNodeTbs =
  tbs_payload :: LeafNodePayload
  tree_info_tbs :: TreeInfoTbs

record NewLeafNodeParams =
  nlp_credential_with_key :: CredentialWithKey
  nlp_leaf_node_source :: LeafNodeSource
  nlp_capabilities :: Capabilities
  nlp_extensions :: Extensions
  nlp_tree_info_tbs :: TreeInfoTbs

record UpdateLeafNodeParams =
  ulp_credential_with_key :: CredentialWithKey
  ulp_capabilities :: Capabilities
  ulp_extensions :: Extensions

record LeafNodeParameters =
  lnp_credential_with_key :: "CredentialWithKey option"
  lnp_capabilities :: "Capabilities option"
  lnp_extensions :: "Extensions option"

text \<open>What labelled signatures and labelled encryption are computed on.\<close>

record SignContent =
  sc_label :: bytes
  sc_content :: bytes

record EncryptContext =
  ec_label :: bytes
  ec_context :: bytes

record HpkeCiphertext =
  kem_output :: bytes
  ciphertext :: bytes

text \<open>
  The rest of the provider: HPKE, signature verification and the derived serialisations of what is
  signed, encrypted to or hashed here.
\<close>

record leaf_provider = provider +
  crypto_hpke_seal :: "HpkeConfig \<Rightarrow> bytes \<Rightarrow> bytes \<Rightarrow> bytes \<Rightarrow> bytes \<Rightarrow> (HpkeCiphertext, CryptoError) outcome"
  crypto_hpke_open :: "HpkeConfig \<Rightarrow> HpkeCiphertext \<Rightarrow> bytes \<Rightarrow> bytes \<Rightarrow> bytes \<Rightarrow> (bytes, CryptoError) outcome"
  crypto_verify_signature :: "SignatureScheme \<Rightarrow> bytes \<Rightarrow> bytes \<Rightarrow> bytes \<Rightarrow> (unit, CryptoError) outcome"
  tls_SignContent :: "SignContent \<Rightarrow> (bytes, TlsCodecError) outcome"
  tls_EncryptContext :: "EncryptContext \<Rightarrow> (bytes, TlsCodecError) outcome"
  tls_LeafNodePayload :: "LeafNodePayload \<Rightarrow> (bytes, TlsCodecError) outcome"
  tls_TreePosition :: "TreePosition \<Rightarrow> (bytes, TlsCodecError) outcome"

section \<open>Labelled signatures\<close>

datatype SignatureError = VerificationError | SigningError

type_synonym signer = "bytes \<Rightarrow> (bytes, unit) outcome"

definition SignContent_new :: "string \<Rightarrow> bytes \<Rightarrow> SignContent" where
  "SignContent_new label content =
     \<lparr>sc_label = str_bytes (''MLS 1.0 '' @ label), sc_content = content\<rparr>"

definition Signable_sign ::
    "'a leaf_provider_scheme \<Rightarrow> string \<Rightarrow> (bytes, TlsCodecError) outcome \<Rightarrow> signer \<Rightarrow>
     (bytes, SignatureError) outcome" where
  "Signable_sign p label unsigned_payload signer =
     outcome_bind (map_err (\<lambda>_. SigningError) unsigned_payload) (\<lambda>payload.
     outcome_bind (map_err (\<lambda>_. SigningError) (tls_SignContent p (SignContent_new label payload))) (\<lambda>content.
       map_err (\<lambda>_. SigningError) (signer content)))"

definition verify_no_out ::
    "'a leaf_provider_scheme \<Rightarrow> string \<Rightarrow> (bytes, TlsCodecError) outcome \<Rightarrow> SignatureScheme \<Rightarrow> bytes \<Rightarrow> bytes \<Rightarrow>
     (unit, SignatureError) outcome" where
  "verify_no_out p label unsigned_payload scheme pk signature =
     outcome_bind (map_err (\<lambda>_. VerificationError) unsigned_payload) (\<lambda>payload.
     outcome_bind (map_err (\<lambda>_. VerificationError) (tls_SignContent p (SignContent_new label payload))) (\<lambda>content.
       map_err (\<lambda>_. VerificationError) (crypto_verify_signature p scheme content pk signature)))"

definition LEAF_NODE_SIGNATURE_LABEL :: string where
  "LEAF_NODE_SIGNATURE_LABEL = ''LeafNodeTBS''"

fun TreeInfoTbs_tls_serialize :: "'a leaf_provider_scheme \<Rightarrow> TreeInfoTbs \<Rightarrow> (bytes, TlsCodecError) outcome" where
  "TreeInfoTbs_tls_serialize p KeyPackageTbs = Ok []"
| "TreeInfoTbs_tls_serialize p (UpdateTbs pos) = tls_TreePosition p pos"
| "TreeInfoTbs_tls_serialize p (CommitTbs pos) = tls_TreePosition p pos"

text \<open>The derived serialisation of a struct is that of its fields, one after the other.\<close>

definition LeafNodeTbs_unsigned_payload ::
    "'a leaf_provider_scheme \<Rightarrow> LeafNodeTbs \<Rightarrow> (bytes, TlsCodecError) outcome" where
  "LeafNodeTbs_unsigned_payload p tbs =
     outcome_bind (tls_LeafNodePayload p (tbs_payload tbs)) (\<lambda>pl.
     outcome_bind (TreeInfoTbs_tls_serialize p (tree_info_tbs tbs)) (\<lambda>info. Ok (pl @ info)))"

definition LeafNodeTbs_new ::
    "EncryptionKey \<Rightarrow> CredentialWithKey \<Rightarrow> Capabilities \<Rightarrow> LeafNodeSource \<Rightarrow> Extensions \<Rightarrow> TreeInfoTbs \<Rightarrow> LeafNodeTbs" where
  "LeafNodeTbs_new encryption_key cwk capabilities source extensions info =
     \<lparr>tbs_payload = \<lparr>pl_encryption_key = encryption_key, pl_signature_key = cwk_signature_key cwk,
        pl_credential = cwk_credential cwk, pl_capabilities = capabilities,
        pl_leaf_node_source = source, pl_extensions = extensions\<rparr>,
      tree_info_tbs = info\<rparr>"

definition LeafNodeTbs_sign ::
    "'a leaf_provider_scheme \<Rightarrow> signer \<Rightarrow> LeafNodeTbs \<Rightarrow> (LeafNode, SignatureError) outcome" where
  "LeafNodeTbs_sign p signer tbs =
     outcome_bind (Signable_sign p LEAF_NODE_SIGNATURE_LABEL (LeafNodeTbs_unsigned_payload p tbs) signer)
       (\<lambda>signature. Ok \<lparr>payload = tbs_payload tbs, ln_signature = signature\<rparr>)"

section \<open>Creating and updating leaf nodes\<close>

definition EncryptionKeyPair_random ::
    "(nat \<Rightarrow> (bytes, unit) outcome) \<Rightarrow> 'a leaf_provider_scheme \<Rightarrow> Ciphersuite \<Rightarrow> (EncryptionKeyPair, LibraryError) outcome" where
  "EncryptionKeyPair_random rand p c =
     outcome_bind (map_err LibraryCryptoError (Secret_random c rand)) (\<lambda>ikm.
     outcome_bind (map_err LibraryCryptoError (crypto_derive_hpke_keypair p (hpke_config c) (Secret_as_slice ikm)))
       (\<lambda>(private, public). Ok \<lparr>kp_public_key = public, kp_private_key = private\<rparr>))"

definition new_with_key ::
    "'a leaf_provider_scheme \<Rightarrow> signer \<Rightarrow> EncryptionKey \<Rightarrow> CredentialWithKey \<Rightarrow> LeafNodeSource \<Rightarrow> Capabilities \<Rightarrow>
     Extensions \<Rightarrow> TreeInfoTbs \<Rightarrow> (LeafNode, LibraryError) outcome" where
  "new_with_key p signer encryption_key cwk source capabilities extensions info =
     map_err (\<lambda>_. LibraryCustom ''Signing failed'')
       (LeafNodeTbs_sign p signer (LeafNodeTbs_new encryption_key cwk capabilities source extensions info))"

definition new_with_encryption_key_pair ::
    "'a leaf_provider_scheme \<Rightarrow> signer \<Rightarrow> NewLeafNodeParams \<Rightarrow> EncryptionKeyPair \<Rightarrow>
     (LeafNode \<times> EncryptionKeyPair, LibraryError) outcome" where
  "new_with_encryption_key_pair p signer params keypair =
     outcome_bind
       (new_with_key p signer (kp_public_key keypair) (nlp_credential_with_key params) (nlp_leaf_node_source params)
         (nlp_capabilities params) (nlp_extensions params) (nlp_tree_info_tbs params))
       (\<lambda>leaf_node. Ok (leaf_node, keypair))"

definition LeafNode_new ::
    "(nat \<Rightarrow> (bytes, unit) outcome) \<Rightarrow> 'a leaf_provider_scheme \<Rightarrow> signer \<Rightarrow> Ciphersuite \<Rightarrow> NewLeafNodeParams \<Rightarrow>
     (LeafNode \<times> EncryptionKeyPair, LibraryError) outcome" where
  "LeafNode_new rand p signer c params =
     outcome_bind (EncryptionKeyPair_random rand p c) (new_with_encryption_key_pair p signer params)"

definition new_placeholder :: LeafNode where
  "new_placeholder =
     \<lparr>payload = \<lparr>pl_encryption_key = [], pl_signature_key = [], pl_credential = Credential_new Basic [],
        pl_capabilities = Capabilities_default, pl_leaf_node_source = UpdateSource,
        pl_extensions = Extensions_empty\<rparr>,
      ln_signature = []\<rparr>"

definition new_with_parent_hash ::
    "(nat \<Rightarrow> (bytes, unit) outcome) \<Rightarrow> 'a leaf_provider_scheme \<Rightarrow> Ciphersuite \<Rightarrow> bytes \<Rightarrow> UpdateLeafNodeParams \<Rightarrow>
     GroupId \<Rightarrow> LeafNodeIndex \<Rightarrow> signer \<Rightarrow> EncryptionKeyPair option \<Rightarrow>
     (LeafNode \<times> EncryptionKeyPair, LibraryError) outcome" where
  "new_with_parent_hash rand p c parent_hash params group_id leaf_index signer override =
     outcome_bind (case override of Some kp \<Rightarrow> Ok kp | None \<Rightarrow> EncryptionKeyPair_random rand p c) (\<lambda>keypair.
     outcome_bind
       (map_err (\<lambda>_. LibraryCustom ''Signing failed'')
         (LeafNodeTbs_sign p signer
           (LeafNodeTbs_new (kp_public_key keypair) (ulp_credential_with_key params) (ulp_capabilities params)
             (CommitSource parent_hash) (ulp_extensions params)
             (CommitTbs \<lparr>tp_group_id = group_id, tp_leaf_index = leaf_index\<rparr>))))
       (\<lambda>leaf_node. Ok (leaf_node, keypair)))"

datatype 'se LeafNodeUpdateError =
    UpdateLibraryError LibraryError | UpdateStorage 'se | UpdateSignature SignatureError

text \<open>
  \<open>update\<close> works on a copy and assigns the new payload and signature at the end; the key pair is
  written to the key store before the leaf node is signed. The store is a state the write changes.
\<close>

definition updated_payload :: "LeafNodeParameters \<Rightarrow> EncryptionKey \<Rightarrow> LeafNodePayload \<Rightarrow> LeafNodePayload" where
  "updated_payload params encryption_key pl0 =
     (let pl1 = (case lnp_credential_with_key params of
            Some cwk \<Rightarrow> pl0\<lparr>pl_credential := cwk_credential cwk, pl_signature_key := cwk_signature_key cwk\<rparr>
          | None \<Rightarrow> pl0);
          pl2 = (case lnp_extensions params of Some e \<Rightarrow> pl1\<lparr>pl_extensions := e\<rparr> | None \<Rightarrow> pl1);
          pl3 = (case lnp_capabilities params of Some c \<Rightarrow> pl2\<lparr>pl_capabilities := c\<rparr> | None \<Rightarrow> pl2)
      in pl3\<lparr>pl_encryption_key := encryption_key, pl_leaf_node_source := UpdateSource\<rparr>)"

definition LeafNode_update ::
    "(nat \<Rightarrow> (bytes, unit) outcome) \<Rightarrow> 'a leaf_provider_scheme \<Rightarrow> Ciphersuite \<Rightarrow>
     (EncryptionKeyPair \<Rightarrow> 'st \<Rightarrow> 'st \<times> (unit, 'se) outcome) \<Rightarrow> signer \<Rightarrow> GroupId \<Rightarrow> LeafNodeIndex \<Rightarrow>
     LeafNodeParameters \<Rightarrow> LeafNode \<times> 'st \<Rightarrow> (LeafNode \<times> 'st) \<times> (EncryptionKeyPair, 'se LeafNodeUpdateError) outcome" where
  "LeafNode_update rand p c write_key_pair signer group_id leaf_index params s =
     try_then (s, map_err UpdateLibraryError (EncryptionKeyPair_random rand p c)) (\<lambda>(ln, st) keypair.
     let (st', written) = write_key_pair keypair st in
     try_then ((ln, st'), map_err UpdateStorage written) (\<lambda>(ln, st') _.
     let tbs = \<lparr>tbs_payload = updated_payload params (kp_public_key keypair) (payload ln),
          tree_info_tbs = UpdateTbs \<lparr>tp_group_id = group_id, tp_leaf_index = leaf_index\<rparr>\<rparr> in
     try_then ((ln, st'), map_err UpdateSignature (LeafNodeTbs_sign p signer tbs)) (\<lambda>(ln, st') signed.
       ((signed, st'), Ok keypair))))"

section \<open>Reading and checking leaf nodes\<close>

definition ln_parent_hash :: "LeafNode \<Rightarrow> bytes option" where
  "ln_parent_hash ln = (case pl_leaf_node_source (payload ln) of CommitSource ph \<Rightarrow> Some ph | _ \<Rightarrow> None)"

definition life_time :: "LeafNode \<Rightarrow> Lifetime option" where
  "life_time ln = (case pl_leaf_node_source (payload ln) of KeyPackageSource l \<Rightarrow> Some l | _ \<Rightarrow> None)"

definition supports_extension :: "LeafNode \<Rightarrow> ExtensionType \<Rightarrow> bool" where
  "supports_extension ln t \<longleftrightarrow>
     ExtensionType_is_default t \<or> t \<in> set (cap_extensions (pl_capabilities (payload ln)))"

fun check_extension_support :: "LeafNode \<Rightarrow> ExtensionType list \<Rightarrow> (unit, LeafNodeValidationError) outcome" where
  "check_extension_support ln [] = Ok ()"
| "check_extension_support ln (required # extensions) =
     (if \<not> supports_extension ln required then Err UnsupportedExtensions
      else check_extension_support ln extensions)"

definition validate_locally :: "LeafNode \<Rightarrow> (unit, LeafNodeValidationError) outcome" where
  "validate_locally ln =
     (let exts = pl_extensions (payload ln); caps = pl_capabilities (payload ln);
          invalid_extension_types = filter (\<lambda>e. \<not> is_valid_in_leaf_node (extension_type e)) exts in
      if invalid_extension_types \<noteq> [] then Err UnsupportedExtensions
      else if \<not> contains_extensions caps exts then Err UnsupportedExtensions
      else if \<not> contains_credential caps (credential_type (pl_credential (payload ln)))
        then Err UnsupportedCredentials
      else Ok ())"

text \<open>
  A leaf node from the wire is turned into one of three forms by its source. The forms of updates and
  commits need their position in the tree before they can be verified.
\<close>

datatype VerifiableLeafNode =
    VerifiableKeyPackage LeafNodePayload bytes
  | VerifiableUpdate LeafNodePayload bytes "TreePosition option"
  | VerifiableCommit LeafNodePayload bytes "TreePosition option"

definition into_verifiable_leaf_node :: "LeafNode \<Rightarrow> VerifiableLeafNode" where
  "into_verifiable_leaf_node ln =
     (case pl_leaf_node_source (payload ln) of
        KeyPackageSource _ \<Rightarrow> VerifiableKeyPackage (payload ln) (ln_signature ln)
      | UpdateSource \<Rightarrow> VerifiableUpdate (payload ln) (ln_signature ln) None
      | CommitSource _ \<Rightarrow> VerifiableCommit (payload ln) (ln_signature ln) None)"

fun VerifiableLeafNode_signature_key :: "VerifiableLeafNode \<Rightarrow> bytes" where
  "VerifiableLeafNode_signature_key (VerifiableKeyPackage pl s) = pl_signature_key pl"
| "VerifiableLeafNode_signature_key (VerifiableUpdate pl s pos) = pl_signature_key pl"
| "VerifiableLeafNode_signature_key (VerifiableCommit pl s pos) = pl_signature_key pl"

fun add_tree_position :: "TreePosition \<Rightarrow> VerifiableLeafNode \<Rightarrow> VerifiableLeafNode" where
  "add_tree_position pos (VerifiableKeyPackage pl s) = VerifiableKeyPackage pl s"
| "add_tree_position pos (VerifiableUpdate pl s _) = VerifiableUpdate pl s (Some pos)"
| "add_tree_position pos (VerifiableCommit pl s _) = VerifiableCommit pl s (Some pos)"

fun VerifiableLeafNode_unsigned_payload ::
    "'a leaf_provider_scheme \<Rightarrow> VerifiableLeafNode \<Rightarrow> (bytes, TlsCodecError) outcome" where
  "VerifiableLeafNode_unsigned_payload p (VerifiableKeyPackage pl s) = tls_LeafNodePayload p pl"
| "VerifiableLeafNode_unsigned_payload p (VerifiableUpdate pl s pos) =
     (case pos of
        None \<Rightarrow> Err InvalidInput
      | Some position \<Rightarrow> LeafNodeTbs_unsigned_payload p \<lparr>tbs_payload = pl, tree_info_tbs = CommitTbs position\<rparr>)"
| "VerifiableLeafNode_unsigned_payload p (VerifiableCommit pl s pos) =
     (case pos of
        None \<Rightarrow> Err InvalidInput
      | Some position \<Rightarrow> LeafNodeTbs_unsigned_payload p \<lparr>tbs_payload = pl, tree_info_tbs = CommitTbs position\<rparr>)"

fun verifiable_parts :: "VerifiableLeafNode \<Rightarrow> LeafNode" where
  "verifiable_parts (VerifiableKeyPackage pl s) = \<lparr>payload = pl, ln_signature = s\<rparr>"
| "verifiable_parts (VerifiableUpdate pl s pos) = \<lparr>payload = pl, ln_signature = s\<rparr>"
| "verifiable_parts (VerifiableCommit pl s pos) = \<lparr>payload = pl, ln_signature = s\<rparr>"

definition VerifiableLeafNode_verify ::
    "'a leaf_provider_scheme \<Rightarrow> SignatureScheme \<Rightarrow> bytes \<Rightarrow> VerifiableLeafNode \<Rightarrow> (LeafNode, SignatureError) outcome" where
  "VerifiableLeafNode_verify p scheme pk v =
     outcome_bind
       (verify_no_out p LEAF_NODE_SIGNATURE_LABEL (VerifiableLeafNode_unsigned_payload p v) scheme pk
         (ln_signature (verifiable_parts v)))
       (\<lambda>_. Ok (verifiable_parts v))"

section \<open>Labelled encryption\<close>

datatype HpkeError = HpkeMissingBoundCheck | HpkeDecryptionFailed

definition EncryptContext_new :: "string \<Rightarrow> bytes \<Rightarrow> EncryptContext" where
  "EncryptContext_new label context =
     \<lparr>ec_label = str_bytes (''MLS 1.0 '' @ label), ec_context = context\<rparr>"

definition encrypt_with_label ::
    "bytes \<Rightarrow> string \<Rightarrow> bytes \<Rightarrow> bytes \<Rightarrow> Ciphersuite \<Rightarrow> 'a leaf_provider_scheme \<Rightarrow> (HpkeCiphertext, HpkeError) outcome" where
  "encrypt_with_label public_key label context plaintext c p =
     outcome_bind (map_err (\<lambda>_. HpkeMissingBoundCheck) (tls_EncryptContext p (EncryptContext_new label context)))
       (\<lambda>info. map_err (\<lambda>_. HpkeDecryptionFailed)
          (crypto_hpke_seal p (hpke_config c) public_key info [] plaintext))"

definition decrypt_with_label ::
    "bytes \<Rightarrow> string \<Rightarrow> bytes \<Rightarrow> HpkeCiphertext \<Rightarrow> Ciphersuite \<Rightarrow> 'a leaf_provider_scheme \<Rightarrow> (bytes, HpkeError) outcome" where
  "decrypt_with_label private_key label context ct c p =
     outcome_bind (map_err (\<lambda>_. HpkeMissingBoundCheck) (tls_EncryptContext p (EncryptContext_new label context)))
       (\<lambda>info. map_err (\<lambda>_. HpkeDecryptionFailed)
          (crypto_hpke_open p (hpke_config c) ct private_key info []))"

section \<open>Properties\<close>

text \<open>The documented behaviour of a signature scheme: what the signer signs verifies under its public key.\<close>

definition signs_for :: "'a leaf_provider_scheme \<Rightarrow> SignatureScheme \<Rightarrow> signer \<Rightarrow> bytes \<Rightarrow> bool" where
  "signs_for p scheme signer pk \<longleftrightarrow>
     (\<forall>m s. signer m = Ok s \<longrightarrow> crypto_verify_signature p scheme m pk s = Ok ())"

lemma signed_leaf_verifies:
  assumes "LeafNodeTbs_sign p signer tbs = Ok ln" "signs_for p scheme signer pk"
    and "VerifiableLeafNode_unsigned_payload p v = LeafNodeTbs_unsigned_payload p tbs"
    and "verifiable_parts v = ln"
  shows "VerifiableLeafNode_verify p scheme pk v = Ok ln"
proof -
  obtain b m sig where "LeafNodeTbs_unsigned_payload p tbs = Ok b"
    "tls_SignContent p (SignContent_new LEAF_NODE_SIGNATURE_LABEL b) = Ok m" "signer m = Ok sig" "ln_signature ln = sig"
    using assms(1) by (auto simp: LeafNodeTbs_sign_def Signable_sign_def outcome_bind_Ok_iff map_err_Ok_iff)
  then show ?thesis using assms(2-4)
    by (simp add: VerifiableLeafNode_verify_def verify_no_out_def signs_for_def)
qed

lemma LeafNodeTbs_sign_payload: "LeafNodeTbs_sign p signer tbs = Ok ln \<Longrightarrow> payload ln = tbs_payload tbs"
  by (auto simp: LeafNodeTbs_sign_def outcome_bind_Ok_iff)

lemma unsigned_payload_at:
  "pl_leaf_node_source (payload ln) = UpdateSource \<or> (\<exists>ph. pl_leaf_node_source (payload ln) = CommitSource ph) \<Longrightarrow>
   info = UpdateTbs pos \<or> info = CommitTbs pos \<Longrightarrow>
   VerifiableLeafNode_unsigned_payload p (add_tree_position pos (into_verifiable_leaf_node ln)) =
     LeafNodeTbs_unsigned_payload p \<lparr>tbs_payload = payload ln, tree_info_tbs = info\<rparr>"
  by (auto simp: into_verifiable_leaf_node_def LeafNodeTbs_unsigned_payload_def)

lemma verifiable_parts_of [simp]: "verifiable_parts (into_verifiable_leaf_node ln) = ln"
  "verifiable_parts (add_tree_position pos v) = verifiable_parts v"
proof -
  show "verifiable_parts (into_verifiable_leaf_node ln) = ln"
    by (cases ln) (simp add: into_verifiable_leaf_node_def split: LeafNodeSource.splits)
  show "verifiable_parts (add_tree_position pos v) = verifiable_parts v" by (cases v) auto
qed

lemma updated_payload_source [simp]:
  "pl_leaf_node_source (updated_payload params k pl) = UpdateSource"
  "pl_encryption_key (updated_payload params k pl) = k"
  by (simp_all add: updated_payload_def Let_def)

text \<open>
  (C35) A leaf node that its owner updates or rekeys in a commit, at a position of a group, is accepted
  by everyone who verifies it at that position, if signatures of the owner's key verify. The node
  carries the new encryption key, and in the case of a commit the parent hash it was made for.
\<close>

theorem own_leaf_verifies_at_position:
  assumes "signs_for p scheme signer pk" and "pos = \<lparr>tp_group_id = gid, tp_leaf_index = i\<rparr>"
    and "LeafNode_update rand p c write_kp signer gid i params (ln0, st) = ((ln, st'), Ok kp) \<and> ph = None \<or>
       new_with_parent_hash rand p c h uparams gid i signer override = Ok (ln, kp) \<and> ph = Some h"
  shows "VerifiableLeafNode_verify p scheme pk (add_tree_position pos (into_verifiable_leaf_node ln)) = Ok ln \<and>
    pl_encryption_key (payload ln) = kp_public_key kp \<and> ln_parent_hash ln = ph"
  using assms(3)
proof (elim disjE conjE)
  assume ok: "LeafNode_update rand p c write_kp signer gid i params (ln0, st) = ((ln, st'), Ok kp)" and ph: "ph = None"
  let ?pl = "updated_payload params (kp_public_key kp) (payload ln0)"
  have signed: "LeafNodeTbs_sign p signer \<lparr>tbs_payload = ?pl, tree_info_tbs = UpdateTbs pos\<rparr> = Ok ln"
    using ok assms(2)
    by (auto simp: LeafNode_update_def Let_def try_then_Ok_iff map_err_Ok_iff case_prod_beta)
  then have pl: "payload ln = ?pl" using LeafNodeTbs_sign_payload by fastforce
  with unsigned_payload_at [of ln "UpdateTbs pos" pos p] signed show ?thesis
    using signed_leaf_verifies [OF signed assms(1)] ph by (simp add: ln_parent_hash_def)
next
  assume ok: "new_with_parent_hash rand p c h uparams gid i signer override = Ok (ln, kp)" and ph: "ph = Some h"
  define tbs where "tbs = LeafNodeTbs_new (kp_public_key kp) (ulp_credential_with_key uparams) (ulp_capabilities uparams)
      (CommitSource h) (ulp_extensions uparams) (CommitTbs pos)"
  have signed: "LeafNodeTbs_sign p signer tbs = Ok ln"
    using ok assms(2) by (auto simp: tbs_def new_with_parent_hash_def outcome_bind_Ok_iff map_err_Ok_iff)
  then have pl: "payload ln = tbs_payload tbs" by (rule LeafNodeTbs_sign_payload)
  have "tbs = \<lparr>tbs_payload = payload ln, tree_info_tbs = CommitTbs pos\<rparr>"
    using pl by (simp add: tbs_def LeafNodeTbs_new_def)
  with unsigned_payload_at [of ln "CommitTbs pos" pos p] show ?thesis
    using signed_leaf_verifies [OF signed assms(1)] pl ph by (simp add: tbs_def LeafNodeTbs_new_def ln_parent_hash_def)
qed

text \<open>
  (C36) A lifetime made for \<open>t\<close> seconds is accepted at exactly the times from an hour before it
  was made until the last whole second before it ends, and its length is acceptable exactly if \<open>t\<close>
  is at most the default of twelve weeks.
\<close>

theorem new_lifetime_bounds:
  assumes "Lifetime_new now t = Some l"
  shows "(validate_with_time l time = Ok () \<longleftrightarrow>
      0 \<le> time \<and> now div 10 ^ 9 - 60 * 60 \<le> time div 10 ^ 9 \<and> time div 10 ^ 9 < now div 10 ^ 9 + int t) \<and>
    (has_acceptable_range l \<longleftrightarrow> t \<le> DEFAULT_KEY_PACKAGE_LIFETIME_SECONDS) \<and>
    not_before l < 2 ^ 64 \<and> not_after l < 2 ^ 64"
proof -
  define n where "n = nat now div 10 ^ 9"
  have l: "0 \<le> now" "60 * 60 \<le> n" "l = \<lparr>not_before = n - 60 * 60, not_after = n + t\<rparr>" "n + t < 2 ^ 64"
    using assms by (auto simp: Lifetime_new_def SystemTime_duration_since_def Duration_as_secs_def Let_def u64_sub_def
        u64_add_def n_def DEFAULT_KEY_PACKAGE_LIFETIME_MARGIN_SECONDS_def split: option.splits if_splits)
  have secs: "int (nat x div 10 ^ 9) = x div 10 ^ 9" if "0 \<le> x" for x :: int
    using that by (simp add: zdiv_int)
  have n: "int n = now div 10 ^ 9" unfolding n_def by (rule secs [OF l(1)])
  have "validate_with_time l time = Ok () \<longleftrightarrow>
      0 \<le> time \<and> int n - 60 * 60 \<le> time div 10 ^ 9 \<and> time div 10 ^ 9 < int n + int t"
    using secs [of time] l(2)
    by (auto simp: l(3) validate_with_time_def SystemTime_duration_since_def Duration_as_secs_def Let_def
        simp flip: n_def)
  moreover have "has_acceptable_range l \<longleftrightarrow> t \<le> DEFAULT_KEY_PACKAGE_LIFETIME_SECONDS"
    using l(2) by (auto simp: l(3) has_acceptable_range_def MAX_LEAF_NODE_LIFETIME_RANGE_SECONDS_def
        DEFAULT_KEY_PACKAGE_LIFETIME_MARGIN_SECONDS_def)
  ultimately show ?thesis using l n by simp
qed

section \<open>Witnesses\<close>

text \<open>A provider with a signature that is the message itself and an HPKE that does not encrypt.\<close>

definition sample_leaf_provider :: leaf_provider where
  "sample_leaf_provider =
     provider.extend zero_provider
       \<lparr>crypto_hpke_seal = (\<lambda>cfg pk info aad pt. Ok \<lparr>kem_output = pk, ciphertext = pt\<rparr>),
        crypto_hpke_open = (\<lambda>cfg ct sk info aad. if kem_output ct = sk then Ok (ciphertext ct) else Err HpkeDecryptionError),
        crypto_verify_signature = (\<lambda>scheme m pk s. if s = pk @ m then Ok () else Err InvalidSignature),
        tls_SignContent = (\<lambda>x. Ok (sc_label x @ sc_content x)),
        tls_EncryptContext = (\<lambda>x. Ok (ec_label x @ ec_context x)),
        tls_LeafNodePayload = (\<lambda>x. Ok (pl_encryption_key x)),
        tls_TreePosition = (\<lambda>x. Ok (tp_group_id x))\<rparr>"

lemmas leaf_provider_defs = leaf_provider.defs provider.defs

definition sample_update_params :: UpdateLeafNodeParams where
  "sample_update_params =
     \<lparr>ulp_credential_with_key = \<lparr>cwk_credential = Credential_new Basic [], cwk_signature_key = [7]\<rparr>,
      ulp_capabilities = Capabilities_default, ulp_extensions = []\<rparr>"

theorem own_leaf_verifies_at_position_witness:
  "\<exists>ln. new_with_parent_hash (\<lambda>n. Ok (replicate n 1)) sample_leaf_provider suite1 [5] sample_update_params [9] 3
      (\<lambda>m. Ok (7 # m)) None = Ok (ln, \<lparr>kp_public_key = replicate 32 1, kp_private_key = replicate 32 1\<rparr>) \<and>
    VerifiableLeafNode_verify sample_leaf_provider ED25519 [7]
      (add_tree_position \<lparr>tp_group_id = [9], tp_leaf_index = 3\<rparr> (into_verifiable_leaf_node ln)) = Ok ln"
proof -
  have s: "signs_for sample_leaf_provider ED25519 (\<lambda>m. Ok (7 # m)) [7]"
    by (simp add: signs_for_def sample_leaf_provider_def leaf_provider_defs)
  obtain ln where ln: "new_with_parent_hash (\<lambda>n. Ok (replicate n 1)) sample_leaf_provider suite1 [5]
      sample_update_params [9] 3 (\<lambda>m. Ok (7 # m)) None =
      Ok (ln, \<lparr>kp_public_key = replicate 32 1, kp_private_key = replicate 32 1\<rparr>)"
    by (simp add: new_with_parent_hash_def EncryptionKeyPair_random_def Secret_random_def LeafNodeTbs_sign_def
        Signable_sign_def LeafNodeTbs_unsigned_payload_def LeafNodeTbs_new_def sample_leaf_provider_def
        zero_provider_def leaf_provider_defs hash_length_def)
  from own_leaf_verifies_at_position [OF s refl, of _ _ _ _ _ _ _ _ _ ln] ln show ?thesis by blast
qed

theorem new_lifetime_bounds_witness:
  "\<exists>l. Lifetime_new (10 ^ 9 * 10000) 100 = Some l \<and> validate_with_time l (10 ^ 9 * 10099) = Ok () \<and>
     validate_with_time l (10 ^ 9 * 10100) \<noteq> Ok ()"
proof -
  obtain l where l: "Lifetime_new (10 ^ 9 * 10000) 100 = Some l"
    by (simp add: Lifetime_new_def SystemTime_duration_since_def Duration_as_secs_def u64_sub_def u64_add_def
        DEFAULT_KEY_PACKAGE_LIFETIME_MARGIN_SECONDS_def)
  from new_lifetime_bounds [OF this] show ?thesis using l by simp
qed

end
