(* ===== verification/ParentNode.thy ===== *)
theory ParentNode
  imports LeafNode BinaryTree
begin

text \<open>
  Parent nodes of the ratchet tree, their lists of unmerged leaves, the hashes of nodes and the
  derivation of the secrets and keys of a path: \<open>treesync/node/parent_node.rs\<close>,
  \<open>treesync/node.rs\<close>, \<open>treesync/hashes.rs\<close>, \<open>treesync/treesync_node.rs\<close> and
  \<open>PathSecret\<close> of \<open>messages/mod.rs\<close>. \<open>TreeSyncLeafNode\<close> and
  \<open>TreeSyncParentNode\<close>, wrappers of an optional node, are options.
\<close>

section \<open>Unmerged leaves\<close>

type_synonym UnmergedLeaves = "LeafNodeIndex list"

datatype UnmergedLeavesError = NotSorted

definition UnmergedLeaves_new :: UnmergedLeaves where
  "UnmergedLeaves_new = []"

text \<open>
  \<open>binary_search\<close> on a sorted slice: where the element is, or else belongs. If it is there more than
  once the code may find any of its places, here it is the first; inserting it at either gives the same
  list.
\<close>

definition binary_search :: "'a::linorder list \<Rightarrow> 'a \<Rightarrow> nat" where
  "binary_search xs x = length (takeWhile (\<lambda>y. y < x) xs)"

definition vec_insert :: "nat \<Rightarrow> 'a \<Rightarrow> 'a list \<Rightarrow> 'a list" where
  "vec_insert i x xs = take i xs @ x # drop i xs"

definition UnmergedLeaves_add :: "LeafNodeIndex \<Rightarrow> UnmergedLeaves \<Rightarrow> UnmergedLeaves" where
  "UnmergedLeaves_add leaf_index xs = vec_insert (binary_search xs leaf_index) leaf_index xs"

fun windows_increasing :: "'a::linorder list \<Rightarrow> bool" where
  "windows_increasing (x # y # xs) \<longleftrightarrow> x < y \<and> windows_increasing (y # xs)"
| "windows_increasing _ \<longleftrightarrow> True"

definition UnmergedLeaves_try_from :: "LeafNodeIndex list \<Rightarrow> (UnmergedLeaves, UnmergedLeavesError) outcome" where
  "UnmergedLeaves_try_from xs = (if \<not> windows_increasing xs then Err NotSorted else Ok xs)"

section \<open>Nodes\<close>

record ParentNode =
  pn_encryption_key :: EncryptionKey
  pn_parent_hash :: bytes
  pn_unmerged_leaves :: UnmergedLeaves

datatype NodeReference = LeafRef LeafNode | ParentRef ParentNode

definition ParentNode_from :: "EncryptionKey \<Rightarrow> ParentNode" where
  "ParentNode_from public_key =
     \<lparr>pn_encryption_key = public_key, pn_parent_hash = [], pn_unmerged_leaves = UnmergedLeaves_new\<rparr>"

definition set_unmerged_leaves :: "LeafNodeIndex list \<Rightarrow> ParentNode \<Rightarrow> ParentNode" where
  "set_unmerged_leaves leaves pn = pn\<lparr>pn_unmerged_leaves := leaves\<rparr>"

definition add_unmerged_leaf :: "LeafNodeIndex \<Rightarrow> ParentNode \<Rightarrow> ParentNode" where
  "add_unmerged_leaf leaf_index pn =
     pn\<lparr>pn_unmerged_leaves := UnmergedLeaves_add leaf_index (pn_unmerged_leaves pn)\<rparr>"

definition set_parent_hash :: "bytes \<Rightarrow> ParentNode \<Rightarrow> ParentNode" where
  "set_parent_hash parent_hash pn = pn\<lparr>pn_parent_hash := parent_hash\<rparr>"

fun node_encryption_key :: "NodeReference \<Rightarrow> EncryptionKey" where
  "node_encryption_key (LeafRef leaf) = pl_encryption_key (payload leaf)"
| "node_encryption_key (ParentRef parent_node) = pn_encryption_key parent_node"

section \<open>Hashes\<close>

record ParentHashInput =
  phi_public_key :: EncryptionKey
  phi_parent_hash :: bytes
  original_sibling_tree_hash :: bytes

datatype TreeHashInput =
    LeafNodeHashInput LeafNodeIndex "LeafNode option"
  | ParentNodeHashInput "ParentNode option" bytes bytes

record tree_provider = leaf_provider +
  tls_ParentHashInput :: "ParentHashInput \<Rightarrow> (bytes, TlsCodecError) outcome"
  tls_TreeHashInput :: "TreeHashInput \<Rightarrow> (bytes, TlsCodecError) outcome"

definition ParentHashInput_hash ::
    "'a tree_provider_scheme \<Rightarrow> Ciphersuite \<Rightarrow> ParentHashInput \<Rightarrow> (bytes, LibraryError) outcome" where
  "ParentHashInput_hash p c input =
     outcome_bind (map_err LibraryMissingBoundsCheck (tls_ParentHashInput p input)) (\<lambda>b.
       map_err LibraryCryptoError (crypto_hash p (hash_algorithm c) b))"

definition TreeHashInput_hash ::
    "'a tree_provider_scheme \<Rightarrow> Ciphersuite \<Rightarrow> TreeHashInput \<Rightarrow> (bytes, LibraryError) outcome" where
  "TreeHashInput_hash p c input =
     outcome_bind (map_err LibraryMissingBoundsCheck (tls_TreeHashInput p input)) (\<lambda>b.
       map_err LibraryCryptoError (crypto_hash p (hash_algorithm c) b))"

definition compute_parent_hash ::
    "'a tree_provider_scheme \<Rightarrow> Ciphersuite \<Rightarrow> ParentNode \<Rightarrow> bytes \<Rightarrow> (bytes, LibraryError) outcome" where
  "compute_parent_hash p c pn original_child_resolution =
     ParentHashInput_hash p c
       \<lparr>phi_public_key = pn_encryption_key pn, phi_parent_hash = pn_parent_hash pn,
        original_sibling_tree_hash = original_child_resolution\<rparr>"

definition TreeSyncLeafNode_compute_tree_hash ::
    "'a tree_provider_scheme \<Rightarrow> Ciphersuite \<Rightarrow> LeafNode option \<Rightarrow> LeafNodeIndex \<Rightarrow> (bytes, LibraryError) outcome" where
  "TreeSyncLeafNode_compute_tree_hash p c node leaf_index =
     TreeHashInput_hash p c (LeafNodeHashInput leaf_index node)"

definition TreeSyncParentNode_compute_tree_hash ::
    "'a tree_provider_scheme \<Rightarrow> Ciphersuite \<Rightarrow> ParentNode option \<Rightarrow> bytes \<Rightarrow> bytes \<Rightarrow> LeafNodeIndex set \<Rightarrow>
     (bytes, LibraryError) outcome" where
  "TreeSyncParentNode_compute_tree_hash p c node left_hash right_hash exclusion_list =
     (if Set.is_empty exclusion_list then TreeHashInput_hash p c (ParentNodeHashInput node left_hash right_hash)
      else case node of
        Some parent_node \<Rightarrow>
          (let unmerged_leaves = filter (\<lambda>leaf. leaf \<notin> exclusion_list) (pn_unmerged_leaves parent_node);
               new_node = set_unmerged_leaves unmerged_leaves parent_node in
           TreeHashInput_hash p c (ParentNodeHashInput (Some new_node) left_hash right_hash))
      | None \<Rightarrow> TreeHashInput_hash p c (ParentNodeHashInput None left_hash right_hash))"

section \<open>Path secrets\<close>

type_synonym PathSecret = Secret
type_synonym CommitSecret = Secret

definition derive_key_pair ::
    "'a leaf_provider_scheme \<Rightarrow> Ciphersuite \<Rightarrow> PathSecret \<Rightarrow> (EncryptionKeyPair, LibraryError) outcome" where
  "derive_key_pair p c path_secret =
     outcome_bind
       (map_err LibraryCryptoError (Secret_kdf_expand_label path_secret p c ''node'' [] (hash_length c))) (\<lambda>node_secret.
     outcome_bind
       (map_err LibraryCryptoError (crypto_derive_hpke_keypair p (hpke_config c) (Secret_as_slice node_secret)))
       (\<lambda>(private, public). Ok \<lparr>kp_public_key = public, kp_private_key = private\<rparr>))"

definition derive_path_secret ::
    "'a leaf_provider_scheme \<Rightarrow> Ciphersuite \<Rightarrow> PathSecret \<Rightarrow> (PathSecret, LibraryError) outcome" where
  "derive_path_secret p c path_secret =
     map_err LibraryCryptoError (Secret_kdf_expand_label path_secret p c ''path'' [] (hash_length c))"

definition PathSecret_encrypt ::
    "'a leaf_provider_scheme \<Rightarrow> Ciphersuite \<Rightarrow> EncryptionKey \<Rightarrow> bytes \<Rightarrow> PathSecret \<Rightarrow> (HpkeCiphertext, LibraryError) outcome" where
  "PathSecret_encrypt p c public_key group_context path_secret =
     map_err (\<lambda>_. LibraryCustom ''Encryption failed. A serialization issue really'')
       (encrypt_with_label public_key ''UpdatePathNode'' group_context (Secret_as_slice path_secret) c p)"

definition PathSecret_decrypt ::
    "'a leaf_provider_scheme \<Rightarrow> Ciphersuite \<Rightarrow> HpkeCiphertext \<Rightarrow> EncryptionPrivateKey \<Rightarrow> bytes \<Rightarrow> (PathSecret, HpkeError) outcome" where
  "PathSecret_decrypt p c ct private_key group_context =
     outcome_bind (decrypt_with_label private_key ''UpdatePathNode'' group_context ct c p)
       (\<lambda>secret_bytes. Ok (Secret_from_slice secret_bytes))"

record PlainUpdatePathNode =
  pupn_public_key :: EncryptionKey
  pupn_path_secret :: PathSecret

record UpdatePathNode =
  upn_public_key :: EncryptionKey
  encrypted_path_secrets :: "HpkeCiphertext list"

definition PlainUpdatePathNode_encrypt ::
    "'a leaf_provider_scheme \<Rightarrow> Ciphersuite \<Rightarrow> EncryptionKey list \<Rightarrow> bytes \<Rightarrow> PlainUpdatePathNode \<Rightarrow>
     (UpdatePathNode, LibraryError) outcome" where
  "PlainUpdatePathNode_encrypt p c public_keys group_context node =
     outcome_bind
       (outcome_map (\<lambda>pk. PathSecret_encrypt p c pk group_context (pupn_path_secret node)) public_keys)
       (\<lambda>secrets. Ok \<lparr>upn_public_key = pupn_public_key node, encrypted_path_secrets = secrets\<rparr>)"

text \<open>
  The secrets of a path, each derived from the one before, and what follows the last of them; then
  the key pair of each.
\<close>

fun derive_path_secrets ::
    "'a leaf_provider_scheme \<Rightarrow> Ciphersuite \<Rightarrow> nat \<Rightarrow> PathSecret \<Rightarrow> (PathSecret list \<times> PathSecret, LibraryError) outcome" where
  "derive_path_secrets p c 0 next_path_secret = Ok ([], next_path_secret)"
| "derive_path_secrets p c (Suc n) path_secret =
     outcome_bind (derive_path_secret p c path_secret) (\<lambda>next_path_secret.
     outcome_bind (derive_path_secrets p c n next_path_secret) (\<lambda>(path_secrets, last).
       Ok (path_secret # path_secrets, last)))"

type_synonym PathDerivationResult =
  "(ParentNodeIndex \<times> ParentNode) list \<times> PlainUpdatePathNode list \<times> EncryptionKeyPair list \<times> CommitSecret"

definition ParentNode_derive_path ::
    "'a leaf_provider_scheme \<Rightarrow> Ciphersuite \<Rightarrow> PathSecret \<Rightarrow> ParentNodeIndex list \<Rightarrow>
     (PathDerivationResult, LibraryError) outcome" where
  "ParentNode_derive_path p c path_secret path_indices =
     outcome_bind (derive_path_secrets p c (length path_indices) path_secret) (\<lambda>(path_secrets, commit_secret).
     outcome_bind
       (outcome_map (\<lambda>(path_secret, index). outcome_bind (derive_key_pair p c path_secret) (\<lambda>keypair.
            Ok (index, path_secret, keypair)))
          (zip path_secrets path_indices))
       (\<lambda>results. Ok
          (map (\<lambda>(index, _, keypair). (index, ParentNode_from (kp_public_key keypair))) results,
           map (\<lambda>(_, path_secret, keypair).
              \<lparr>pupn_public_key = kp_public_key keypair, pupn_path_secret = path_secret\<rparr>) results,
           map (\<lambda>(_, _, keypair). keypair) results, commit_secret)))"

section \<open>Lemmas\<close>

lemma windows_increasing_iff: "windows_increasing xs \<longleftrightarrow> sorted_wrt (<) xs"
  by (induction xs rule: windows_increasing.induct) (auto dest: less_trans)

lemma set_UnmergedLeaves_add: "set (UnmergedLeaves_add i xs) = insert i (set xs)"
proof -
  have "set xs = set (take k xs) \<union> set (drop k xs)" for k
    by (metis append_take_drop_id set_append)
  then show ?thesis by (auto simp: UnmergedLeaves_add_def vec_insert_def)
qed

lemma sorted_UnmergedLeaves_add:
  assumes "sorted_wrt (<) xs" "i \<notin> set xs"
  shows "sorted_wrt (<) (UnmergedLeaves_add i xs)"
proof -
  let ?n = "binary_search xs i"
  have split: "take ?n xs = takeWhile (\<lambda>y. y < i) xs" "drop ?n xs = dropWhile (\<lambda>y. y < i) xs"
    unfolding binary_search_def by (rule takeWhile_eq_take [symmetric]) (rule dropWhile_eq_drop [symmetric])
  have "sorted_wrt (<) (takeWhile (\<lambda>y. y < i) xs @ dropWhile (\<lambda>y. y < i) xs)" using assms(1) by simp
  then have s: "sorted_wrt (<) (takeWhile (\<lambda>y. y < i) xs)" "sorted_wrt (<) (dropWhile (\<lambda>y. y < i) xs)"
    "\<forall>a \<in> set (takeWhile (\<lambda>y. y < i) xs). \<forall>b \<in> set (dropWhile (\<lambda>y. y < i) xs). a < b"
    unfolding sorted_wrt_append by blast+
  have big: "i < b" if "b \<in> set (dropWhile (\<lambda>y. y < i) xs)" for b
  proof (cases "dropWhile (\<lambda>y. y < i) xs")
    case (Cons z zs)
    then have "\<not> z < i" using hd_dropWhile [of "\<lambda>y. y < i" xs] by simp
    moreover have "z \<in> set xs" using Cons by (metis list.set_intros(1) set_dropWhileD)
    ultimately have "i < z" using assms(2) by (metis linorder_neqE_nat)
    moreover have "z \<le> b" using s(2) that Cons by auto
    ultimately show ?thesis by simp
  next
    case Nil
    with that show ?thesis by (simp only: list.set empty_iff)
  qed
  show ?thesis
    using s big by (auto simp: UnmergedLeaves_add_def vec_insert_def split sorted_wrt_append dest: set_takeWhileD)
qed

lemma derive_path_secrets_length:
  "derive_path_secrets p c n s = Ok (ss, e) \<Longrightarrow> length ss = n"
  by (induction n arbitrary: s ss) (auto simp: outcome_bind_Ok_iff)

text \<open>Starting the derivation at a later secret of a path gives the rest of the path.\<close>

lemma derive_path_secrets_drop:
  "derive_path_secrets p c n s = Ok (ss, e) \<Longrightarrow> k < n \<Longrightarrow>
   derive_path_secrets p c (n - k) (ss ! k) = Ok (drop k ss, e)"
proof (induction k arbitrary: n s ss)
  case 0
  then show ?case by (cases n) (auto simp: outcome_bind_Ok_iff)
next
  case (Suc k)
  then obtain m where n: "n = Suc m" by (cases n) auto
  with Suc.prems obtain s' ss' where "derive_path_secrets p c m s' = Ok (ss', e)" "ss = s # ss'"
    by (auto simp: outcome_bind_Ok_iff)
  with Suc.IH [of m s' ss'] Suc.prems(2) n show ?case by simp
qed

end
