(* ===== verification/PreSharedKeys.thy ===== *)
theory PreSharedKeys
  imports PastSecrets ParentNode
begin

text \<open>
  Pre-shared keys (\<open>schedule/psk.rs\<close>): their identifiers and validation, the secret they
  contribute to the key schedule, and the store of resumption secrets of past epochs.

  The store of the application and the codec of the label are parameters. The bundle \<open>PskBundle\<close>
  and \<open>ResumptionPskSecret\<close>, which wrap a secret, are the secret.
\<close>

section \<open>Identifiers\<close>

datatype ResumptionPskUsage = UsageApplication | UsageReinit | UsageBranch

datatype Psk =
    ExternalPsk bytes
  | ResumptionPsk ResumptionPskUsage GroupId GroupEpoch
  | ApplicationPsk ComponentId bytes

datatype PskType = ExternalType | ResumptionType | ApplicationType

record PreSharedKeyId =
  psk :: Psk
  psk_nonce :: bytes

datatype PskError =
    PskLibraryError LibraryError
  | TooManyKeys
  | KeyNotFound
  | PskStorage
  | TypeMismatch "PskType list" PskType
  | UsageMismatch "ResumptionPskUsage list" ResumptionPskUsage
  | UsageConflict ResumptionPskUsage ResumptionPskUsage
  | UsageDuplicate ResumptionPskUsage
  | NonceLengthMismatch nat nat

definition PreSharedKeyId_new ::
    "Ciphersuite \<Rightarrow> (nat \<Rightarrow> (bytes, unit) outcome) \<Rightarrow> Psk \<Rightarrow> (PreSharedKeyId, CryptoError) outcome" where
  "PreSharedKeyId_new c random_vec k =
     outcome_bind (map_err (\<lambda>_. InsufficientRandomness) (random_vec (hash_length c)))
       (\<lambda>nonce. Ok \<lparr>psk = k, psk_nonce = nonce\<rparr>)"

section \<open>Validation\<close>

text \<open>The last check of both validations.\<close>

definition validate_nonce_length :: "Ciphersuite \<Rightarrow> PreSharedKeyId \<Rightarrow> (unit, PskError) outcome" where
  "validate_nonce_length c i =
     (if hash_length c \<noteq> length (psk_nonce i)
      then Err (NonceLengthMismatch (hash_length c) (length (psk_nonce i))) else Ok ())"

definition validate_in_proposal :: "Ciphersuite \<Rightarrow> PreSharedKeyId \<Rightarrow> (unit, PskError) outcome" where
  "validate_in_proposal c i =
     outcome_bind
       (case psk i of
          ResumptionPsk usage _ _ \<Rightarrow>
            if usage \<noteq> UsageApplication then Err (UsageMismatch [UsageApplication] usage) else Ok ()
        | ExternalPsk _ \<Rightarrow> Ok ()
        | ApplicationPsk _ _ \<Rightarrow> Ok ())
       (\<lambda>_. validate_nonce_length c i)"

text \<open>The loop of \<open>validate_in_welcome\<close> with its two flags.\<close>

fun welcome_psk_loop ::
    "Ciphersuite \<Rightarrow> bool \<Rightarrow> bool \<Rightarrow> PreSharedKeyId list \<Rightarrow> (unit, PskError) outcome" where
  "welcome_psk_loop c contains_branch_psk contains_reinit_psk [] = Ok ()"
| "welcome_psk_loop c contains_branch_psk contains_reinit_psk (i # ids) =
     (let continue = (\<lambda>branch reinit.
            outcome_bind (validate_nonce_length c i) (\<lambda>_. welcome_psk_loop c branch reinit ids)) in
      case psk i of
        ResumptionPsk usage _ _ \<Rightarrow>
          (case usage of
             UsageApplication \<Rightarrow> Err (UsageMismatch [UsageReinit, UsageBranch] usage)
           | UsageReinit \<Rightarrow>
               if contains_reinit_psk then Err (UsageDuplicate UsageReinit)
               else if contains_branch_psk then Err (UsageConflict UsageReinit UsageBranch)
               else continue contains_branch_psk True
           | UsageBranch \<Rightarrow>
               if contains_branch_psk then Err (UsageDuplicate UsageBranch)
               else if contains_reinit_psk then Err (UsageConflict UsageBranch UsageReinit)
               else continue True contains_reinit_psk)
      | ExternalPsk _ \<Rightarrow> continue contains_branch_psk contains_reinit_psk
      | ApplicationPsk _ _ \<Rightarrow> continue contains_branch_psk contains_reinit_psk)"

definition validate_in_welcome :: "PreSharedKeyId list \<Rightarrow> Ciphersuite \<Rightarrow> (unit, PskError) outcome" where
  "validate_in_welcome psk_ids c = welcome_psk_loop c False False psk_ids"

section \<open>The secret of a list of keys\<close>

record PskLabel =
  pl_id :: PreSharedKeyId
  pl_index :: u16
  pl_count :: u16

record schedule_provider = tree_provider +
  crypto_hpke_setup_sender_and_export ::
    "HpkeConfig \<Rightarrow> bytes \<Rightarrow> bytes \<Rightarrow> bytes \<Rightarrow> nat \<Rightarrow> (bytes \<times> bytes, CryptoError) outcome"
  crypto_hpke_setup_receiver_and_export ::
    "HpkeConfig \<Rightarrow> bytes \<Rightarrow> bytes \<Rightarrow> bytes \<Rightarrow> bytes \<Rightarrow> nat \<Rightarrow> (bytes, CryptoError) outcome"
  tls_PskLabel :: "PskLabel \<Rightarrow> (bytes, TlsCodecError) outcome"

fun PskSecret_loop ::
    "'a schedule_provider_scheme \<Rightarrow> Ciphersuite \<Rightarrow> u16 \<Rightarrow> nat \<Rightarrow> (PreSharedKeyId \<times> Secret) list \<Rightarrow> Secret \<Rightarrow>
     (Secret, PskError) outcome" where
  "PskSecret_loop p c num_psks index [] psk_secret = Ok psk_secret"
| "PskSecret_loop p c num_psks index ((psk_id, k) # psks) psk_secret =
     outcome_bind
       (map_err (\<lambda>e. PskLibraryError (LibraryCryptoError e)) (Secret_hkdf_extract (Secret_zero c) p c (Some k)))
       (\<lambda>psk_extracted. outcome_bind
         (map_err (\<lambda>e. PskLibraryError (LibraryMissingBoundsCheck e))
           (tls_PskLabel p \<lparr>pl_id = psk_id, pl_index = index mod 2 ^ 16, pl_count = num_psks\<rparr>))
         (\<lambda>psk_label. outcome_bind
           (map_err (\<lambda>e. PskLibraryError (LibraryCryptoError e))
             (Secret_kdf_expand_label psk_extracted p c ''derived psk'' psk_label (hash_length c)))
           (\<lambda>psk_input. outcome_bind
             (map_err (\<lambda>e. PskLibraryError (LibraryCryptoError e)) (Secret_hkdf_extract psk_input p c (Some psk_secret)))
             (\<lambda>psk_secret'. PskSecret_loop p c num_psks (index + 1) psks psk_secret'))))"

definition PskSecret_new ::
    "'a schedule_provider_scheme \<Rightarrow> Ciphersuite \<Rightarrow> (PreSharedKeyId \<times> Secret) list \<Rightarrow> (Secret, PskError) outcome" where
  "PskSecret_new p c psks =
     (if length psks < 2 ^ 16 then PskSecret_loop p c (length psks) 0 psks (Secret_zero c)
      else Err TooManyKeys)"

section \<open>The store of resumption secrets\<close>

record ResumptionPskStore =
  max_number_of_secrets :: nat
  resumption_psk :: "(GroupEpoch \<times> Secret) list"
  cursor :: nat

definition ResumptionPskStore_new :: "nat \<Rightarrow> ResumptionPskStore" where
  "ResumptionPskStore_new m = \<lparr>max_number_of_secrets = m, resumption_psk = [], cursor = 0\<rparr>"

definition ResumptionPskStore_add :: "GroupEpoch \<Rightarrow> Secret \<Rightarrow> ResumptionPskStore \<Rightarrow> ResumptionPskStore" where
  "ResumptionPskStore_add epoch secret s =
     (if max_number_of_secrets s = 0 then s
      else if length (resumption_psk s) < max_number_of_secrets s
      then s\<lparr>resumption_psk := resumption_psk s @ [(epoch, secret)], cursor := cursor s + 1\<rparr>
      else (let c = (cursor s + 1) mod length (resumption_psk s) in
            s\<lparr>resumption_psk := (resumption_psk s)[c := (epoch, secret)], cursor := c\<rparr>))"

definition ResumptionPskStore_get :: "GroupEpoch \<Rightarrow> ResumptionPskStore \<Rightarrow> Secret option" where
  "ResumptionPskStore_get epoch s = map_option snd (find (\<lambda>(e, _). e = epoch) (resumption_psk s))"

text \<open>\<open>storage\<close> is the lookup of a key in the storage provider.\<close>

definition load_psks ::
    "(Psk \<Rightarrow> (Secret option, unit) outcome) \<Rightarrow> ResumptionPskStore \<Rightarrow> PreSharedKeyId list \<Rightarrow>
     ((PreSharedKeyId \<times> Secret) list, PskError) outcome" where
  "load_psks storage store psk_ids =
     outcome_map (\<lambda>psk_id.
       case psk psk_id of
         ResumptionPsk _ _ epoch \<Rightarrow>
           (case ResumptionPskStore_get epoch store of
              Some secret \<Rightarrow> Ok (psk_id, secret)
            | None \<Rightarrow> Err KeyNotFound)
       | _ \<Rightarrow>
           outcome_bind (map_err (\<lambda>_. KeyNotFound) (storage (psk psk_id)))
             (\<lambda>bundle. case bundle of Some secret \<Rightarrow> Ok (psk_id, secret) | None \<Rightarrow> Err KeyNotFound))
       psk_ids"

section \<open>What the store keeps\<close>

text \<open>The store after the first \<open>k\<close> of a sequence of entries for consecutive epochs.\<close>

fun psk_history :: "nat \<Rightarrow> GroupEpoch \<Rightarrow> (nat \<Rightarrow> Secret) \<Rightarrow> nat \<Rightarrow> ResumptionPskStore" where
  "psk_history m e f 0 = ResumptionPskStore_new m"
| "psk_history m e f (Suc k) = ResumptionPskStore_add (e + k) (f k) (psk_history m e f k)"

abbreviation psk_entries :: "GroupEpoch \<Rightarrow> (nat \<Rightarrow> Secret) \<Rightarrow> nat list \<Rightarrow> (GroupEpoch \<times> Secret) list" where
  "psk_entries e f ks \<equiv> map (\<lambda>k. (e + k, f k)) ks"

lemma psk_history_filling:
  "k \<le> m \<Longrightarrow> psk_history m e f k = \<lparr>max_number_of_secrets = m, resumption_psk = psk_entries e f [0..<k], cursor = k\<rparr>"
  by (induction k) (simp_all add: ResumptionPskStore_new_def ResumptionPskStore_add_def)

lemma add_to_full:
  assumes "length l = m" "0 < m" "(c + 1) mod m = c'"
  shows "ResumptionPskStore_add x s \<lparr>max_number_of_secrets = m, resumption_psk = l, cursor = c\<rparr> =
    \<lparr>max_number_of_secrets = m, resumption_psk = l[c' := (x, s)], cursor = c'\<rparr>"
  using assms by (simp add: ResumptionPskStore_add_def)

lemma psk_history_overwriting:
  assumes "k < m" "0 < m"
  shows "psk_history m e f (m + k) = \<lparr>max_number_of_secrets = m,
    resumption_psk = psk_entries e f (0 # [m..<m + k] @ [Suc k..<m]), cursor = if k = 0 then m else k\<rparr>"
  using assms
proof (induction k)
  case 0
  then show ?case using upt_conv_Cons [of 0 m] by (simp add: psk_history_filling)
next
  case (Suc k)
  have c: "((if k = 0 then m else k) + 1) mod m = Suc k" using Suc.prems by (simp add: mod_Suc)
  have tl: "[Suc k..<m] = Suc k # [Suc (Suc k)..<m]" using Suc.prems upt_conv_Cons by simp
  have "psk_history m e f (m + Suc k) = ResumptionPskStore_add (e + (m + k)) (f (m + k)) (psk_history m e f (m + k))" by simp
  also have "\<dots> = \<lparr>max_number_of_secrets = m,
      resumption_psk = (psk_entries e f (0 # [m..<m + k] @ [Suc k..<m]))[Suc k := (e + (m + k), f (m + k))], cursor = Suc k\<rparr>"
    using Suc.prems by (subst Suc.IH) (simp_all only: Suc_lessD, rule add_to_full [OF _ _ c], simp_all)
  finally show ?case by (simp add: tl list_update_append)
qed

lemma psk_history_rotating:
  assumes "0 < m"
  shows "psk_history m e f (2 * m + k) = \<lparr>max_number_of_secrets = m,
    resumption_psk = psk_entries e f ([2 * m + k - Suc (k mod m)..<2 * m + k] @ [m + k..<2 * m + k - Suc (k mod m)]),
    cursor = k mod m\<rparr>"
proof (induction k)
  case 0
  have z: "((if m - 1 = 0 then m else m - 1) + 1) mod m = 0" using assms by (auto simp: le_Suc_eq)
  have "psk_history m e f (2 * m) =
      ResumptionPskStore_add (e + (2 * m - 1)) (f (2 * m - 1)) (psk_history m e f (m + (m - 1)))"
    using assms by (cases m) (simp_all add: mult_2)
  also have "\<dots> = \<lparr>max_number_of_secrets = m,
      resumption_psk = (psk_entries e f (0 # [m..<m + (m - 1)] @ [Suc (m - 1)..<m]))[0 := (e + (2 * m - 1), f (2 * m - 1))], cursor = 0\<rparr>"
    using assms by (subst psk_history_overwriting) (simp, simp, rule add_to_full [OF _ _ z], simp_all)
  finally show ?case using assms by (simp add: upt_conv_Cons mult_2)
next
  case (Suc k)
  define r where "r = k mod m"
  have r: "r < m" using assms by (simp add: r_def)
  have step: "psk_history m e f (2 * m + Suc k) = \<lparr>max_number_of_secrets = m,
      resumption_psk = (psk_entries e f ([2 * m + k - Suc r..<2 * m + k] @ [m + k..<2 * m + k - Suc r]))
        [Suc k mod m := (e + (2 * m + k), f (2 * m + k))], cursor = Suc k mod m\<rparr>"
    using r assms add_to_full [of "psk_entries e f ([2 * m + k - Suc r..<2 * m + k] @ [m + k..<2 * m + k - Suc r])" m r "Suc k mod m"]
    by (simp add: Suc r_def [symmetric] mod_Suc)
  show ?case
  proof (cases "Suc r = m")
    case True
    then have "Suc k mod m = 0" by (simp add: r_def mod_Suc)
    moreover have "[m + k..<2 * m + k] = (m + k) # [Suc (m + k)..<2 * m + k]" using assms by (simp add: upt_conv_Cons)
    ultimately show ?thesis using True step by (simp add: mult_2 upt_conv_Cons del: upt_Suc psk_history.simps)
  next
    case False
    then have "Suc k mod m = Suc r" by (simp add: r_def mod_Suc)
    moreover have "[m + k..<2 * m + k - Suc r] = (m + k) # [Suc (m + k)..<2 * m + k - Suc r]"
      using r False by (simp add: upt_conv_Cons)
    moreover have "[2 * m + k - Suc r..<Suc (2 * m + k)] = [2 * m + k - Suc r..<2 * m + k] @ [2 * m + k]" by simp
    ultimately show ?thesis using step r False
      by (simp add: list_update_append Suc_diff_Suc del: upt_Suc psk_history.simps)
  qed
qed

lemma find_psk_entry:
  "map_option snd (find (\<lambda>(e', _). e' = x) (psk_entries e f ks)) =
   (if e \<le> x \<and> x - e \<in> set ks then Some (f (x - e)) else None)"
  by (induction ks) auto

lemma psk_history_entries:
  assumes "0 < m"
  shows "\<exists>ks. resumption_psk (psk_history m e f k) = psk_entries e f ks \<and>
    set ks = {j. j < k \<and> (k \<le> m \<or> k < 2 * m \<and> (j = 0 \<or> k - m < j) \<or> 2 * m \<le> k \<and> k - m \<le> j)}"
proof -
  consider "k \<le> m" | "m < k" "k < 2 * m" | "2 * m \<le> k" by linarith
  then show ?thesis
  proof cases
    case 1
    then show ?thesis by (intro exI [of _ "[0..<k]"]) (auto simp: psk_history_filling)
  next
    case 2
    then have "resumption_psk (psk_history m e f k) = psk_entries e f (0 # [m..<k] @ [Suc (k - m)..<m])"
      using psk_history_overwriting [of "k - m" m e f] assms by simp
    with 2 show ?thesis by (intro exI [of _ "0 # [m..<k] @ [Suc (k - m)..<m]"]) auto
  next
    case 3
    let ?r = "Suc ((k - 2 * m) mod m)"
    have "?r \<le> m" using assms by (simp add: Suc_leI)
    moreover have "resumption_psk (psk_history m e f k) = psk_entries e f ([k - ?r..<k] @ [k - m..<k - ?r])"
      using psk_history_rotating [OF assms, of e f "k - 2 * m"] 3 by simp
    ultimately show ?thesis using 3 by (intro exI [of _ "[k - ?r..<k] @ [k - m..<k - ?r]"]) auto
  qed
qed

section \<open>Properties\<close>

text \<open>
  (C37) A store for \<open>m\<close> secrets, given the secrets of \<open>k\<close> consecutive epochs, answers with the secret
  of an epoch exactly if it has it. Up to \<open>m\<close> secrets it has all of them, and from \<open>2 m\<close> on it has
  the \<open>m\<close> newest. In between it is not a rollover list: it still has the oldest secret of all and
  has lost a newer one in its place.
\<close>

theorem resumption_store_window:
  assumes "0 < m"
  shows "ResumptionPskStore_get x (psk_history m e f k) =
    (if e \<le> x \<and> x < e + k \<and>
        (k \<le> m \<or> k < 2 * m \<and> (x = e \<or> e + (k - m) < x) \<or> 2 * m \<le> k \<and> e + (k - m) \<le> x)
     then Some (f (x - e)) else None)"
proof -
  obtain ks where ks: "resumption_psk (psk_history m e f k) = psk_entries e f ks"
    "set ks = {j. j < k \<and> (k \<le> m \<or> k < 2 * m \<and> (j = 0 \<or> k - m < j) \<or> 2 * m \<le> k \<and> k - m \<le> j)}"
    using psk_history_entries [OF assms, of e f k] by (elim exE conjE) (rule that)
  show ?thesis
  proof (cases "e \<le> x")
    case True
    then obtain j where "x = e + j" using le_Suc_ex by blast
    then show ?thesis unfolding ResumptionPskStore_get_def ks(1) find_psk_entry ks(2) by simp
  qed (simp add: ResumptionPskStore_get_def ks(1) find_psk_entry)
qed

theorem resumption_store_window_witness:
  "ResumptionPskStore_get 10 (psk_history 2 10 (\<lambda>k. Secret [of_nat k]) 3) = Some (Secret [0]) \<and>
   ResumptionPskStore_get 11 (psk_history 2 10 (\<lambda>k. Secret [of_nat k]) 3) = None \<and>
   ResumptionPskStore_get 12 (psk_history 2 10 (\<lambda>k. Secret [of_nat k]) 4) = Some (Secret [2])"
  using resumption_store_window [of 2 _ 10 "\<lambda>k. Secret [of_nat k]"] by simp

fun is_resumption :: "PreSharedKeyId \<Rightarrow> bool" where
  "is_resumption i = (case psk i of ResumptionPsk _ _ _ \<Rightarrow> True | _ \<Rightarrow> False)"

fun welcome_psk_ok :: "Ciphersuite \<Rightarrow> PreSharedKeyId \<Rightarrow> bool" where
  "welcome_psk_ok c i =
     (length (psk_nonce i) = hash_length c \<and> (case psk i of ResumptionPsk u _ _ \<Rightarrow> u \<noteq> UsageApplication | _ \<Rightarrow> True))"

lemma welcome_psk_loop_Ok:
  "welcome_psk_loop c b r ids = Ok () \<longleftrightarrow>
   list_all (welcome_psk_ok c) ids \<and> length (filter is_resumption ids) \<le> (if b \<or> r then 0 else 1)"
proof (induction ids arbitrary: b r)
  case (Cons i ids)
  then show ?case
    by (cases "psk i") (auto simp: validate_nonce_length_def outcome_bind_Ok_iff split: ResumptionPskUsage.split)
qed simp

lemma welcome_psk_loop_skip:
  assumes "list_all (welcome_psk_ok c) ids" "filter is_resumption ids = []"
  shows "welcome_psk_loop c b r (ids @ rest) = welcome_psk_loop c b r rest"
  using assms
proof (induction ids)
  case (Cons i ids)
  then show ?case by (cases "psk i") (simp_all add: validate_nonce_length_def)
qed simp

text \<open>
  (C39) The keys named in a welcome are accepted exactly if every nonce has the length of a hash, no
  resumption key is for use by the application, and there is at most one resumption key. A second
  resumption key is reported as a duplicate or as a conflict; the conflict names the usage found
  now as the first and the one found before as the second.
\<close>

theorem welcome_psks_accepted:
  assumes "list_all (welcome_psk_ok c) before" "filter is_resumption before = []" "welcome_psk_ok c j" "welcome_psk_ok c k"
    "psk j = ResumptionPsk u g e" "psk k = ResumptionPsk u' g' e'"
  shows "(validate_in_welcome ids c = Ok () \<longleftrightarrow>
      list_all (welcome_psk_ok c) ids \<and> length (filter is_resumption ids) \<le> 1) \<and>
    validate_in_welcome (before @ j # k # rest) c = Err (if u = u' then UsageDuplicate u else UsageConflict u' u)"
  using assms
  by (auto simp: validate_in_welcome_def welcome_psk_loop_Ok welcome_psk_loop_skip validate_nonce_length_def
      split: ResumptionPskUsage.split)

theorem welcome_psks_accepted_witness:
  "validate_in_welcome [\<lparr>psk = ResumptionPsk UsageBranch [1] 0, psk_nonce = replicate 32 0\<rparr>,
      \<lparr>psk = ResumptionPsk UsageReinit [1] 0, psk_nonce = replicate 32 0\<rparr>] suite1 =
    Err (UsageConflict UsageReinit UsageBranch)"
  using welcome_psks_accepted [of suite1 "[]"
      "\<lparr>psk = ResumptionPsk UsageBranch [1] 0, psk_nonce = replicate 32 0\<rparr>"
      "\<lparr>psk = ResumptionPsk UsageReinit [1] 0, psk_nonce = replicate 32 0\<rparr>" UsageBranch "[1]" 0 UsageReinit "[1]" 0 "[]" "[]"]
  by (simp add: hash_length_def)

end
