(* ===== verification/KeySchedule.thy ===== *)
theory KeySchedule
  imports PreSharedKeys Extensions
begin

text \<open>
  The key schedule (\<open>schedule/mod.rs\<close>) and the group context (\<open>group/group_context.rs\<close>): from the
  init secret of an epoch, the commit secret and the pre-shared keys to the secrets of the next
  epoch, with the state machine that fixes the order of the steps.

  The types that wrap one secret (\<open>InitSecret\<close>, \<open>JoinerSecret\<close>, \<open>EpochSecret\<close> and so on) are the
  secret. The serialised message that a membership tag covers is an argument.
\<close>

section \<open>The group context\<close>

record GroupContext =
  gc_protocol_version :: ProtocolVersion
  gc_ciphersuite :: Ciphersuite
  gc_group_id :: GroupId
  gc_epoch :: GroupEpoch
  gc_tree_hash :: bytes
  gc_confirmed_transcript_hash :: bytes
  gc_extensions :: Extensions

definition GroupContext_new ::
    "Ciphersuite \<Rightarrow> GroupId \<Rightarrow> GroupEpoch \<Rightarrow> bytes \<Rightarrow> bytes \<Rightarrow> Extensions \<Rightarrow> GroupContext" where
  "GroupContext_new c group_id epoch tree_hash confirmed_transcript_hash extensions =
     \<lparr>gc_protocol_version = Mls10, gc_ciphersuite = c, gc_group_id = group_id, gc_epoch = epoch,
      gc_tree_hash = tree_hash, gc_confirmed_transcript_hash = confirmed_transcript_hash, gc_extensions = extensions\<rparr>"

definition increment_epoch :: "GroupContext \<Rightarrow> GroupContext option" where
  "increment_epoch g = map_option (\<lambda>e. g\<lparr>gc_epoch := e\<rparr>) (GroupEpoch_increment (gc_epoch g))"

definition update_tree_hash :: "bytes \<Rightarrow> GroupContext \<Rightarrow> GroupContext" where
  "update_tree_hash h g = g\<lparr>gc_tree_hash := h\<rparr>"

section \<open>Init and joiner secrets\<close>

datatype ErrorState = InitState | ContextState

datatype KeyScheduleError =
    KsLibraryError LibraryError
  | InvalidState ErrorState
  | KsCryptoError CryptoError

fun hpke_info_from_version :: "ProtocolVersion \<Rightarrow> string" where
  "hpke_info_from_version Mls10 = ''MLS 1.0 external init secret''"
| "hpke_info_from_version _ = ''<OpenMLS reserved; Don'' @ [CHR 0x27] @ ''t use this.>''"

definition InitSecret_new ::
    "'a provider_scheme \<Rightarrow> Ciphersuite \<Rightarrow> Secret \<Rightarrow> (Secret, CryptoError) outcome" where
  "InitSecret_new p c epoch_secret = Secret_derive_secret epoch_secret p c ''init''"

definition InitSecret_from_group_context ::
    "'a schedule_provider_scheme \<Rightarrow> GroupContext \<Rightarrow> bytes \<Rightarrow> (Secret \<times> bytes, KeyScheduleError) outcome" where
  "InitSecret_from_group_context p group_context external_pub =
     (let c = gc_ciphersuite group_context; version = gc_protocol_version group_context in
      outcome_bind
        (map_err KsCryptoError
          (crypto_hpke_setup_sender_and_export p (hpke_config c) external_pub []
            (str_bytes (hpke_info_from_version version)) (hash_length c)))
        (\<lambda>(kem, raw_init_secret). Ok (Secret_from_slice raw_init_secret, kem)))"

definition InitSecret_from_kem_output ::
    "'a schedule_provider_scheme \<Rightarrow> Ciphersuite \<Rightarrow> ProtocolVersion \<Rightarrow> bytes \<Rightarrow> bytes \<Rightarrow> (Secret, LibraryError) outcome" where
  "InitSecret_from_kem_output p c version external_priv kem =
     outcome_bind
       (map_err LibraryCryptoError
         (crypto_hpke_setup_receiver_and_export p (hpke_config c) kem external_priv []
           (str_bytes (hpke_info_from_version version)) (hash_length c)))
       (\<lambda>raw_init_secret. Ok (Secret_from_slice raw_init_secret))"

definition JoinerSecret_new ::
    "'a provider_scheme \<Rightarrow> Ciphersuite \<Rightarrow> CommitSecret option \<Rightarrow> Secret \<Rightarrow> bytes \<Rightarrow> (Secret, CryptoError) outcome" where
  "JoinerSecret_new p c commit_secret_option init_secret serialized_group_context =
     outcome_bind (Secret_hkdf_extract init_secret p c commit_secret_option)
       (\<lambda>intermediate_secret.
          Secret_kdf_expand_label intermediate_secret p c ''joiner'' serialized_group_context (hash_length c))"

section \<open>The secrets of an epoch\<close>

definition IntermediateSecret_new ::
    "'a provider_scheme \<Rightarrow> Ciphersuite \<Rightarrow> Secret \<Rightarrow> Secret \<Rightarrow> (Secret, CryptoError) outcome" where
  "IntermediateSecret_new p c joiner_secret psk_secret = Secret_hkdf_extract joiner_secret p c (Some psk_secret)"

definition WelcomeSecret_new ::
    "'a provider_scheme \<Rightarrow> Ciphersuite \<Rightarrow> Secret \<Rightarrow> (Secret, CryptoError) outcome" where
  "WelcomeSecret_new p c intermediate_secret = Secret_derive_secret intermediate_secret p c ''welcome''"

definition WelcomeSecret_derive_aead_key ::
    "'a provider_scheme \<Rightarrow> Ciphersuite \<Rightarrow> Secret \<Rightarrow> (AeadKey, CryptoError) outcome" where
  "WelcomeSecret_derive_aead_key p c s =
     outcome_bind (Secret_kdf_expand_label s p c ''key'' [] (aead_key_length c)) (\<lambda>k. Ok (AeadKey_from_secret k c))"

definition WelcomeSecret_derive_aead_nonce ::
    "'a provider_scheme \<Rightarrow> Ciphersuite \<Rightarrow> Secret \<Rightarrow> (AeadNonce, CryptoError) outcome" where
  "WelcomeSecret_derive_aead_nonce p c s =
     outcome_bind (Secret_kdf_expand_label s p c ''nonce'' [] (aead_nonce_length c)) (\<lambda>n. or_panic (AeadNonce_from_secret n))"

definition derive_welcome_key_nonce ::
    "'a provider_scheme \<Rightarrow> Ciphersuite \<Rightarrow> Secret \<Rightarrow> (AeadKey \<times> AeadNonce, CryptoError) outcome" where
  "derive_welcome_key_nonce p c s =
     outcome_bind (WelcomeSecret_derive_aead_nonce p c s)
       (\<lambda>welcome_nonce. outcome_bind (WelcomeSecret_derive_aead_key p c s)
         (\<lambda>welcome_key. Ok (welcome_key, welcome_nonce)))"

definition EpochSecret_new ::
    "Ciphersuite \<Rightarrow> 'a provider_scheme \<Rightarrow> Secret \<Rightarrow> bytes \<Rightarrow> (Secret, CryptoError) outcome" where
  "EpochSecret_new c p intermediate_secret serialized_group_context =
     Secret_kdf_expand_label intermediate_secret p c ''epoch'' serialized_group_context (hash_length c)"

record EpochSecrets =
  es_init_secret :: Secret
  es_sender_data_secret :: Secret
  es_encryption_secret :: Secret
  es_exporter_secret :: Secret
  es_epoch_authenticator :: Secret
  es_external_secret :: Secret
  es_confirmation_key :: Secret
  es_membership_key :: Secret
  es_resumption_psk :: Secret

definition EpochSecrets_new ::
    "'a provider_scheme \<Rightarrow> Ciphersuite \<Rightarrow> Secret \<Rightarrow> (EpochSecrets, CryptoError) outcome" where
  "EpochSecrets_new p c s =
     outcome_bind (Secret_derive_secret s p c ''sender data'') (\<lambda>sender_data_secret.
     outcome_bind (Secret_derive_secret s p c ''encryption'') (\<lambda>encryption_secret.
     outcome_bind (Secret_derive_secret s p c ''exporter'') (\<lambda>exporter_secret.
     outcome_bind (Secret_derive_secret s p c ''authentication'') (\<lambda>epoch_authenticator.
     outcome_bind (Secret_derive_secret s p c ''external'') (\<lambda>external_secret.
     outcome_bind (Secret_derive_secret s p c ''confirm'') (\<lambda>confirmation_key.
     outcome_bind (Secret_derive_secret s p c ''membership'') (\<lambda>membership_key.
     outcome_bind (Secret_derive_secret s p c ''resumption'') (\<lambda>resumption_psk.
     outcome_bind (InitSecret_new p c s) (\<lambda>init_secret.
     Ok \<lparr>es_init_secret = init_secret, es_sender_data_secret = sender_data_secret,
         es_encryption_secret = encryption_secret, es_exporter_secret = exporter_secret,
         es_epoch_authenticator = epoch_authenticator, es_external_secret = external_secret,
         es_confirmation_key = confirmation_key, es_membership_key = membership_key,
         es_resumption_psk = resumption_psk\<rparr>)))))))))"

definition EpochSecrets_with_init_secret ::
    "'a provider_scheme \<Rightarrow> Ciphersuite \<Rightarrow> Secret \<Rightarrow> (EpochSecrets, CryptoError) outcome" where
  "EpochSecrets_with_init_secret p c init_secret =
     outcome_bind (EpochSecrets_new p c (Secret_zero c)) (\<lambda>s. Ok (s\<lparr>es_init_secret := init_secret\<rparr>))"

record GroupEpochSecrets =
  ges_init_secret :: Secret
  ges_exporter_secret :: Secret
  ges_epoch_authenticator :: Secret
  ges_external_secret :: Secret
  ges_resumption_psk :: Secret

definition split_secrets ::
    "bytes \<Rightarrow> TreeSize \<Rightarrow> LeafNodeIndex \<Rightarrow> EpochSecrets \<Rightarrow> (GroupEpochSecrets \<times> MessageSecrets) option" where
  "split_secrets ctx treesize own s =
     map_option (\<lambda>tree.
       (\<lparr>ges_init_secret = es_init_secret s, ges_exporter_secret = es_exporter_secret s,
         ges_epoch_authenticator = es_epoch_authenticator s, ges_external_secret = es_external_secret s,
         ges_resumption_psk = es_resumption_psk s\<rparr>,
        MessageSecrets_new (es_sender_data_secret s) (es_membership_key s) (es_confirmation_key s)
          ctx tree))
       (SecretTree_new (es_encryption_secret s) treesize own)"

section \<open>Using the secrets\<close>

definition derive_exported_secret ::
    "Ciphersuite \<Rightarrow> 'a provider_scheme \<Rightarrow> string \<Rightarrow> bytes \<Rightarrow> nat \<Rightarrow> Secret \<Rightarrow> (bytes, CryptoError) outcome" where
  "derive_exported_secret c p label context key_length exporter_secret =
     outcome_bind (crypto_hash p (hash_algorithm c) context)
       (\<lambda>context_hash. outcome_bind (Secret_derive_secret exporter_secret p c label)
         (\<lambda>derived. outcome_bind (Secret_kdf_expand_label derived p c ''exported'' context_hash key_length)
           (\<lambda>exported. Ok (Secret_as_slice exported))))"

definition ConfirmationKey_tag ::
    "'a provider_scheme \<Rightarrow> Ciphersuite \<Rightarrow> bytes \<Rightarrow> Secret \<Rightarrow> (bytes, CryptoError) outcome" where
  "ConfirmationKey_tag p c confirmed_transcript_hash key = Mac_new p c key confirmed_transcript_hash"

definition MembershipKey_tag_message ::
    "'a provider_scheme \<Rightarrow> Ciphersuite \<Rightarrow> (bytes, TlsCodecError) outcome \<Rightarrow> Secret \<Rightarrow> (bytes, LibraryError) outcome" where
  "MembershipKey_tag_message p c tbm_payload key =
     outcome_bind (map_err LibraryMissingBoundsCheck tbm_payload)
       (\<lambda>message. map_err LibraryCryptoError (Mac_new p c key message))"

definition ciphertext_sample :: "Ciphersuite \<Rightarrow> bytes \<Rightarrow> bytes" where
  "ciphertext_sample c ct =
     (let sample_length = hash_length c in
      if length ct \<le> sample_length then ct else take sample_length ct)"

definition SenderDataSecret_derive_aead_key ::
    "'a provider_scheme \<Rightarrow> Ciphersuite \<Rightarrow> bytes \<Rightarrow> Secret \<Rightarrow> (AeadKey, CryptoError) outcome" where
  "SenderDataSecret_derive_aead_key p c ct s =
     outcome_bind (Secret_kdf_expand_label s p c ''key'' (ciphertext_sample c ct) (aead_key_length c))
       (\<lambda>k. Ok (AeadKey_from_secret k c))"

definition SenderDataSecret_derive_aead_nonce ::
    "'a provider_scheme \<Rightarrow> Ciphersuite \<Rightarrow> bytes \<Rightarrow> Secret \<Rightarrow> (AeadNonce, CryptoError) outcome" where
  "SenderDataSecret_derive_aead_nonce p c ct s =
     outcome_bind (Secret_kdf_expand_label s p c ''nonce'' (ciphertext_sample c ct) (aead_nonce_length c))
       (\<lambda>n. or_panic (AeadNonce_from_secret n))"

section \<open>The state machine\<close>

datatype KsState = Initial | Context | Done

record KeySchedule =
  ks_ciphersuite :: Ciphersuite
  intermediate_secret :: "Secret option"
  epoch_secret :: "Secret option"
  ks_state :: KsState

record EpochSecretsResult =
  esr_epoch_secrets :: EpochSecrets
  application_exporter :: Secret

definition KeySchedule_init ::
    "Ciphersuite \<Rightarrow> 'a provider_scheme \<Rightarrow> Secret \<Rightarrow> Secret \<Rightarrow> (KeySchedule, LibraryError) outcome" where
  "KeySchedule_init c p joiner_secret psk_secret =
     outcome_bind (map_err LibraryCryptoError (IntermediateSecret_new p c joiner_secret psk_secret))
       (\<lambda>i. Ok \<lparr>ks_ciphersuite = c, intermediate_secret = Some i, epoch_secret = None, ks_state = Initial\<rparr>)"

definition KeySchedule_welcome ::
    "'a provider_scheme \<Rightarrow> Ciphersuite \<Rightarrow> KeySchedule \<Rightarrow> (Secret, KeyScheduleError) outcome" where
  "KeySchedule_welcome p c ks =
     (if ks_state ks \<noteq> Initial \<or> intermediate_secret ks = None then Err (InvalidState InitState)
      else outcome_bind
        (ok_or (intermediate_secret ks) (KsLibraryError (LibraryCustom ''state machine error'')))
        (\<lambda>i. map_err KsCryptoError (WelcomeSecret_new p c i)))"

definition add_context ::
    "'a provider_scheme \<Rightarrow> bytes \<Rightarrow> KeySchedule \<Rightarrow> KeySchedule \<times> (unit, KeyScheduleError) outcome" where
  "add_context p serialized_group_context ks =
     (if ks_state ks \<noteq> Initial \<or> intermediate_secret ks = None then (ks, Err (InvalidState InitState))
      else
        let taken = ks\<lparr>ks_state := Context, intermediate_secret := None\<rparr> in
        case intermediate_secret ks of
          None \<Rightarrow> (taken, Err (KsLibraryError (LibraryCustom ''state machine error'')))
        | Some i \<Rightarrow>
            (case EpochSecret_new (ks_ciphersuite ks) p i serialized_group_context of
               Ok e \<Rightarrow> (taken\<lparr>epoch_secret := Some e\<rparr>, Ok ())
             | Err e \<Rightarrow> (taken, Err (KsCryptoError e))
             | Panic \<Rightarrow> (taken, Panic)))"

definition epoch_secrets ::
    "'a provider_scheme \<Rightarrow> Ciphersuite \<Rightarrow> KeySchedule \<Rightarrow> KeySchedule \<times> (EpochSecretsResult, KeyScheduleError) outcome" where
  "epoch_secrets p c ks =
     (if ks_state ks \<noteq> Context \<or> epoch_secret ks = None then (ks, Err (InvalidState ContextState))
      else
        (ks\<lparr>ks_state := Done, epoch_secret := None\<rparr>,
         case epoch_secret ks of
           None \<Rightarrow> Err (KsLibraryError (LibraryCustom ''state machine error''))
         | Some e \<Rightarrow>
             outcome_bind (map_err KsCryptoError (Secret_derive_secret e p c ''application_export''))
               (\<lambda>exporter. outcome_bind (map_err KsCryptoError (EpochSecrets_new p c e))
                 (\<lambda>s. Ok \<lparr>esr_epoch_secrets = s, application_exporter = exporter\<rparr>))))"

section \<open>Runs of the state machine\<close>

text \<open>
  The calls of a key schedule with what each returned. A call that panics ends the run, so no event
  has a panic.
\<close>

datatype ks_event =
    WelcomeEvent Ciphersuite "(Secret, KeyScheduleError) outcome"
  | ContextEvent bytes "(unit, KeyScheduleError) outcome"
  | SecretsEvent Ciphersuite "(EpochSecretsResult, KeyScheduleError) outcome"

inductive ks_step :: "'a provider_scheme \<Rightarrow> KeySchedule \<Rightarrow> ks_event \<Rightarrow> KeySchedule \<Rightarrow> bool" for p where
  ks_welcome: "KeySchedule_welcome p c k = r \<Longrightarrow> r \<noteq> Panic \<Longrightarrow> ks_step p k (WelcomeEvent c r) k"
| ks_context: "add_context p ctx k = (k', r) \<Longrightarrow> r \<noteq> Panic \<Longrightarrow> ks_step p k (ContextEvent ctx r) k'"
| ks_secrets: "epoch_secrets p c k = (k', r) \<Longrightarrow> r \<noteq> Panic \<Longrightarrow> ks_step p k (SecretsEvent c r) k'"

inductive ks_trace :: "'a provider_scheme \<Rightarrow> KeySchedule \<Rightarrow> ks_event list \<Rightarrow> KeySchedule \<Rightarrow> bool" for p k where
  start: "ks_trace p k [] k"
| snoc: "ks_trace p k es k' \<Longrightarrow> ks_step p k' ev k'' \<Longrightarrow> ks_trace p k (es @ [ev]) k''"

text \<open>
  The phases of a run. Before a context is added, the welcome secret is derived on request, which may
  fail, and the secrets of the epoch are refused. A call is refused if it reports a wrong state.
\<close>

fun refused :: "ks_event \<Rightarrow> bool" where
  "refused (WelcomeEvent _ r) \<longleftrightarrow> r = Err (InvalidState InitState)"
| "refused (ContextEvent _ r) \<longleftrightarrow> r = Err (InvalidState InitState)"
| "refused (SecretsEvent _ r) \<longleftrightarrow> r = Err (InvalidState ContextState)"

fun before_context :: "'a provider_scheme \<Rightarrow> Secret \<Rightarrow> ks_event \<Rightarrow> bool" where
  "before_context p i (WelcomeEvent c r) \<longleftrightarrow> r = map_err KsCryptoError (WelcomeSecret_new p c i)"
| "before_context p i (ContextEvent _ _) \<longleftrightarrow> False"
| "before_context p i (SecretsEvent c r) \<longleftrightarrow> refused (SecretsEvent c r)"

fun before_secrets :: "ks_event \<Rightarrow> bool" where
  "before_secrets (SecretsEvent _ _) \<longleftrightarrow> False"
| "before_secrets ev \<longleftrightarrow> refused ev"

definition holds_nothing :: "KeySchedule \<Rightarrow> bool" where
  "holds_nothing k \<longleftrightarrow> intermediate_secret k = None \<and> epoch_secret k = None"

definition initial_schedule :: "Ciphersuite \<Rightarrow> Secret \<Rightarrow> KeySchedule" where
  "initial_schedule c i = \<lparr>ks_ciphersuite = c, intermediate_secret = Some i, epoch_secret = None, ks_state = Initial\<rparr>"

definition context_schedule :: "Ciphersuite \<Rightarrow> Secret \<Rightarrow> KeySchedule" where
  "context_schedule c e = \<lparr>ks_ciphersuite = c, intermediate_secret = None, epoch_secret = Some e, ks_state = Context\<rparr>"

text \<open>The secrets of an epoch are returned exactly if every derivation succeeds.\<close>

definition derives_secrets ::
    "'a provider_scheme \<Rightarrow> Ciphersuite \<Rightarrow> Secret \<Rightarrow> (EpochSecretsResult, KeyScheduleError) outcome \<Rightarrow> bool" where
  "derives_secrets p c e r \<longleftrightarrow> (\<forall>s. r = Ok s \<longleftrightarrow>
     Secret_derive_secret e p c ''application_export'' = Ok (application_exporter s) \<and>
     EpochSecrets_new p c e = Ok (esr_epoch_secrets s))"

text \<open>
  A run has not added a context, or failed to, or added one, or added one and asked for the secrets of
  the epoch, with success or not.
\<close>

definition ks_phases ::
    "'a provider_scheme \<Rightarrow> Ciphersuite \<Rightarrow> Secret \<Rightarrow> ks_event list \<Rightarrow> KeySchedule \<Rightarrow> bool" where
  "ks_phases p c i es k \<longleftrightarrow>
     list_all (before_context p i) es \<and> k = initial_schedule c i \<or>
     (\<exists>ws ctx x rs. es = ws @ ContextEvent ctx (Err (KsCryptoError x)) # rs \<and> list_all (before_context p i) ws \<and>
       EpochSecret_new c p i ctx = Err x \<and> list_all refused rs \<and> holds_nothing k) \<or>
     (\<exists>ws ctx e fs. es = ws @ ContextEvent ctx (Ok ()) # fs \<and> list_all (before_context p i) ws \<and>
       EpochSecret_new c p i ctx = Ok e \<and> list_all before_secrets fs \<and> k = context_schedule c e) \<or>
     (\<exists>ws ctx e fs c' r rs. es = ws @ ContextEvent ctx (Ok ()) # fs @ SecretsEvent c' r # rs \<and>
       list_all (before_context p i) ws \<and> EpochSecret_new c p i ctx = Ok e \<and> list_all before_secrets fs \<and>
       derives_secrets p c' e r \<and> list_all refused rs \<and> holds_nothing k)"

inductive_cases ks_stepE: "ks_step p k ev k'"

lemmas ks_operations = KeySchedule_welcome_def add_context_def epoch_secrets_def Let_def

lemma ks_step_dead: "ks_step p k ev k' \<Longrightarrow> holds_nothing k \<Longrightarrow> refused ev \<and> k' = k"
  by (erule ks_stepE) (auto simp: holds_nothing_def ks_operations split: if_splits)

lemma ks_step_Initial:
  assumes "ks_step p (initial_schedule c i) ev k'"
  shows "before_context p i ev \<and> k' = initial_schedule c i \<or>
    (\<exists>ctx x. ev = ContextEvent ctx (Err (KsCryptoError x)) \<and> EpochSecret_new c p i ctx = Err x \<and> holds_nothing k') \<or>
    (\<exists>ctx e. ev = ContextEvent ctx (Ok ()) \<and> EpochSecret_new c p i ctx = Ok e \<and> k' = context_schedule c e)"
  using assms
  by (rule ks_stepE)
    (auto simp: holds_nothing_def initial_schedule_def context_schedule_def ks_operations split: outcome.splits)

lemma ks_step_Context:
  assumes "ks_step p (context_schedule c e) ev k'"
  shows "before_secrets ev \<and> k' = context_schedule c e \<or>
    (\<exists>c' r. ev = SecretsEvent c' r \<and> derives_secrets p c' e r \<and> holds_nothing k')"
  using assms
  by (rule ks_stepE)
    (auto simp: holds_nothing_def context_schedule_def ks_operations derives_secrets_def map_err_Ok_iff outcome_bind_Ok_iff)

lemma phase_failed:
  assumes "es = ws @ ContextEvent ctx (Err (KsCryptoError x)) # rs" "list_all (before_context p i) ws"
    "EpochSecret_new c p i ctx = Err x" "list_all refused rs" "holds_nothing k"
  shows "ks_phases p c i es k"
  unfolding ks_phases_def by (rule disjI2, rule disjI1, intro exI conjI) (rule assms)+

lemma phase_context:
  assumes "es = ws @ ContextEvent ctx (Ok ()) # fs" "list_all (before_context p i) ws"
    "EpochSecret_new c p i ctx = Ok e" "list_all before_secrets fs" "k = context_schedule c e"
  shows "ks_phases p c i es k"
  unfolding ks_phases_def by (rule disjI2, rule disjI2, rule disjI1, intro exI conjI) (rule assms)+

lemma phase_secrets:
  assumes "es = ws @ ContextEvent ctx (Ok ()) # fs @ SecretsEvent c' r # rs" "list_all (before_context p i) ws"
    "EpochSecret_new c p i ctx = Ok e" "list_all before_secrets fs" "derives_secrets p c' e r" "list_all refused rs" "holds_nothing k"
  shows "ks_phases p c i es k"
  unfolding ks_phases_def by (rule disjI2, rule disjI2, rule disjI2, intro exI conjI) (rule assms)+

lemma ks_phases_step:
  assumes phases: "ks_phases p c i es k" and step: "ks_step p k ev k'"
  shows "ks_phases p c i (es @ [ev]) k'"
proof -
  note dead = ks_step_dead [OF step]
  consider
      (early) "list_all (before_context p i) es" "k = initial_schedule c i"
    | (failed) ws ctx x rs where "es = ws @ ContextEvent ctx (Err (KsCryptoError x)) # rs" "list_all (before_context p i) ws"
        "EpochSecret_new c p i ctx = Err x" "list_all refused rs" "holds_nothing k"
    | (ctx) ws ctx e fs where "es = ws @ ContextEvent ctx (Ok ()) # fs" "list_all (before_context p i) ws"
        "EpochSecret_new c p i ctx = Ok e" "list_all before_secrets fs" "k = context_schedule c e"
    | (finished) ws ctx e fs c' r rs where "es = ws @ ContextEvent ctx (Ok ()) # fs @ SecretsEvent c' r # rs"
        "list_all (before_context p i) ws" "EpochSecret_new c p i ctx = Ok e" "list_all before_secrets fs"
        "derives_secrets p c' e r" "list_all refused rs" "holds_nothing k"
    using phases unfolding ks_phases_def by (elim disjE exE conjE) (rule that; assumption)+
  then show ?thesis
  proof cases
    case early
    from ks_step_Initial [OF step [unfolded early(2)]] show ?thesis
    proof (elim disjE exE conjE)
      assume "before_context p i ev" "k' = initial_schedule c i"
      then show ?thesis using early(1) by (simp add: ks_phases_def)
    next
      fix ctx x assume "ev = ContextEvent ctx (Err (KsCryptoError x))" "EpochSecret_new c p i ctx = Err x" "holds_nothing k'"
      then show ?thesis using early(1) by (intro phase_failed [of _ es ctx x "[]"]) simp_all
    next
      fix ctx e assume "ev = ContextEvent ctx (Ok ())" "EpochSecret_new c p i ctx = Ok e" "k' = context_schedule c e"
      then show ?thesis using early(1) by (intro phase_context [of _ es ctx "[]" p i c e]) simp_all
    qed
  next
    case failed
    then show ?thesis using dead by (intro phase_failed [of _ ws ctx x "rs @ [ev]"]) simp_all
  next
    case ctx
    from ks_step_Context [OF step [unfolded ctx(5)]] show ?thesis
    proof (elim disjE exE conjE)
      assume "before_secrets ev" "k' = context_schedule c e"
      then show ?thesis using ctx by (intro phase_context [of _ ws ctx "fs @ [ev]" p i c e]) simp_all
    next
      fix c' r assume "ev = SecretsEvent c' r" "derives_secrets p c' e r" "holds_nothing k'"
      then show ?thesis using ctx by (intro phase_secrets [of _ ws ctx fs c' r "[]" p i c e]) simp_all
    qed
  next
    case finished
    then show ?thesis using dead by (intro phase_secrets [of _ ws ctx fs c' r "rs @ [ev]" p i c e]) simp_all
  qed
qed

section \<open>Properties\<close>

text \<open>
  (C6) Whatever a caller does with a key schedule, every answer and every state of the run is
  determined by its phase. Until a context is added, the welcome secret is derived on request from the
  intermediate secret, which stays also if that derivation fails, and the secrets of the epoch are
  refused. A context is added at most once. If deriving the epoch secret from it fails, the schedule
  holds no secret and refuses every later call. If it succeeds, the intermediate secret is gone, and
  only the secrets of the epoch can be asked for. They are asked for at most once, and returned exactly
  if every derivation succeeds. After that, with success or not, the schedule holds no secret and
  refuses every later call.
\<close>

theorem key_schedule_order:
  assumes "KeySchedule_init c p joiner_secret psk_secret = Ok k" "ks_trace p k es k'"
  shows "\<exists>i. IntermediateSecret_new p c joiner_secret psk_secret = Ok i \<and> ks_phases p c i es k'"
proof -
  from assms(1) obtain i where i: "IntermediateSecret_new p c joiner_secret psk_secret = Ok i" "k = initial_schedule c i"
    by (auto simp: KeySchedule_init_def initial_schedule_def outcome_bind_Ok_iff map_err_Ok_iff)
  from assms(2) have "ks_phases p c i es k'"
    by induction (simp add: i(2) ks_phases_def, rule ks_phases_step)
  with i(1) show ?thesis by blast
qed

lemma zero_derive: "Secret_derive_secret s zero_provider suite1 label = Ok (Secret (replicate 32 0))"
  by (simp add: Secret_derive_secret_def Secret_kdf_expand_label_def KdfLabel_serialized_label_def Secret_hkdf_expand_def
      zero_provider_def hash_length_def)

lemmas zero_schedule = KeySchedule_init_def IntermediateSecret_new_def Secret_hkdf_extract_def KeySchedule_welcome_def
  WelcomeSecret_new_def add_context_def EpochSecret_new_def epoch_secrets_def EpochSecrets_new_def InitSecret_new_def zero_derive

theorem key_schedule_order_witness:
  "\<exists>k k' w r i. KeySchedule_init suite1 zero_provider (Secret [1]) (Secret [2]) = Ok k \<and>
    ks_trace zero_provider k [WelcomeEvent suite1 (Ok w), ContextEvent [3] (Ok ()), SecretsEvent suite1 (Ok r),
      SecretsEvent suite1 (Err (InvalidState ContextState))] k' \<and>
    ks_phases zero_provider suite1 i [WelcomeEvent suite1 (Ok w), ContextEvent [3] (Ok ()), SecretsEvent suite1 (Ok r),
      SecretsEvent suite1 (Err (InvalidState ContextState))] k'"
proof -
  let ?z = "Secret (replicate 32 0)" and ?p = zero_provider
  let ?r = "\<lparr>esr_epoch_secrets = EpochSecrets.make ?z ?z ?z ?z ?z ?z ?z ?z ?z, application_exporter = ?z\<rparr>"
  let ?k = "\<lambda>i e s. \<lparr>ks_ciphersuite = suite1, intermediate_secret = i, epoch_secret = e, ks_state = s\<rparr>"
  have x: "Secret_kdf_expand_label s ?p suite1 label ctx (hash_length suite1) = Ok ?z" for s label ctx
    by (simp add: Secret_kdf_expand_label_def KdfLabel_serialized_label_def Secret_hkdf_expand_def zero_provider_def hash_length_def)
  have init: "KeySchedule_init suite1 ?p (Secret [1]) (Secret [2]) = Ok (?k (Some ?z) None Initial)"
    by (simp add: zero_schedule zero_provider_def)
  have "ks_trace ?p (?k (Some ?z) None Initial)
      ((([] @ [WelcomeEvent suite1 (Ok ?z)]) @ [ContextEvent [3] (Ok ())]) @ [SecretsEvent suite1 (Ok ?r)] @
        [SecretsEvent suite1 (Err (InvalidState ContextState))]) (?k None None Done)"
    unfolding append_assoc [symmetric]
    by (rule ks_trace.intros, rule ks_trace.intros, rule ks_trace.intros, rule ks_trace.intros, rule ks_trace.intros,
        rule ks_welcome, simp add: zero_schedule x, simp,
        rule ks_context, simp add: zero_schedule x, simp, rule ks_secrets, simp add: zero_schedule EpochSecrets.make_def, simp,
        rule ks_secrets, simp add: zero_schedule, simp)
  then have "ks_trace ?p (?k (Some ?z) None Initial)
      [WelcomeEvent suite1 (Ok ?z), ContextEvent [3] (Ok ()), SecretsEvent suite1 (Ok ?r),
        SecretsEvent suite1 (Err (InvalidState ContextState))] (?k None None Done)"
    by simp
  from key_schedule_order [OF init this] init this show ?thesis by blast
qed

text \<open>
  The serialisation of the label of a derivation is injective.
\<close>

definition label_injective :: "'a provider_scheme \<Rightarrow> bool" where
  "label_injective p \<longleftrightarrow> (\<forall>l l' b. tls_KdfLabel p l = Ok b \<longrightarrow> tls_KdfLabel p l' = Ok b \<longrightarrow> l = l')"

definition derive_label :: "Ciphersuite \<Rightarrow> string \<Rightarrow> KdfLabel" where
  "derive_label c label = \<lparr>kl_length = hash_length c, kl_label = str_bytes (''MLS 1.0 '' @ label), kl_context = []\<rparr>"

lemma derive_label_bytes: "derive_label c l = derive_label c l' \<Longrightarrow> str_bytes l = str_bytes l'"
  by (simp add: derive_label_def str_bytes_def)

lemma list_all2_left: "list_all2 P xs ys \<Longrightarrow> y \<in> set ys \<Longrightarrow> \<exists>x \<in> set xs. P x y"
  by (induction rule: list_all2_induct) auto

lemma derive_secret_info:
  assumes "Secret_derive_secret e p c label = Ok s"
  shows "\<exists>info. tls_KdfLabel p (derive_label c label) = Ok info \<and>
    Secret_hkdf_expand e p c info (hash_length c) = Ok s"
  using assms
  by (auto simp: Secret_derive_secret_def Secret_kdf_expand_label_def KdfLabel_serialized_label_def derive_label_def outcome_bind_Ok_iff map_err_Ok_iff
      split: if_splits)

lemma derive_secret_infos:
  assumes "label_injective p" "list_all2 (\<lambda>label s. Secret_derive_secret e p c label = Ok s) labels ss"
    "distinct (map str_bytes labels)"
  shows "\<exists>infos. distinct infos \<and> map (\<lambda>info. Secret_hkdf_expand e p c info (hash_length c)) infos = map Ok ss \<and>
    list_all2 (\<lambda>label info. tls_KdfLabel p
      (derive_label c label) = Ok info) labels infos"
  using assms(2,3)
proof (induction rule: list_all2_induct)
  case (Cons label labels s ss)
  then obtain infos where infos: "distinct infos" "map (\<lambda>info. Secret_hkdf_expand e p c info (hash_length c)) infos = map Ok ss"
    "list_all2 (\<lambda>label info. tls_KdfLabel p
      (derive_label c label) = Ok info) labels infos"
    by auto
  obtain info where info: "tls_KdfLabel p (derive_label c label) = Ok info"
    "Secret_hkdf_expand e p c info (hash_length c) = Ok s" using derive_secret_info [OF Cons(1)] by blast
  have "info \<notin> set infos"
  proof
    assume "info \<in> set infos"
    then obtain l where l: "l \<in> set labels" "tls_KdfLabel p (derive_label c l) = Ok info"
      using list_all2_left [OF infos(3)] by blast
    then have "derive_label c l = derive_label c label" using assms(1) info(1) unfolding label_injective_def by blast
    then have "str_bytes label \<in> str_bytes ` set labels" using l(1) by (metis derive_label_bytes imageI)
    with Cons(4) show False by simp
  qed
  with infos info show ?case by (intro exI [of _ "info # infos"]) simp
qed simp

text \<open>
  (C9) The secrets of an epoch are separated: each is the output of the key derivation function for
  the same epoch secret with an input of its own, if labels are serialised injectively.
\<close>

theorem epoch_secrets_separated:
  assumes "label_injective p" "EpochSecrets_new p c e = Ok s"
    "Secret_derive_secret e p c ''application_export'' = Ok x"
  shows "\<exists>infos. distinct infos \<and>
    map (\<lambda>info. Secret_hkdf_expand e p c info (hash_length c)) infos = map Ok
      [es_init_secret s, es_sender_data_secret s, es_encryption_secret s, es_exporter_secret s, es_epoch_authenticator s,
       es_external_secret s, es_confirmation_key s, es_membership_key s, es_resumption_psk s, x]"
proof -
  let ?labels = "[''init'', ''sender data'', ''encryption'', ''exporter'', ''authentication'', ''external'', ''confirm'',
    ''membership'', ''resumption'', ''application_export'']"
  have d: "distinct (map str_bytes ?labels)" by code_simp
  have a: "list_all2 (\<lambda>label s. Secret_derive_secret e p c label = Ok s) ?labels
      [es_init_secret s, es_sender_data_secret s, es_encryption_secret s, es_exporter_secret s, es_epoch_authenticator s,
       es_external_secret s, es_confirmation_key s, es_membership_key s, es_resumption_psk s, x]"
    using assms(2,3) by (auto simp: EpochSecrets_new_def InitSecret_new_def outcome_bind_Ok_iff)
  from derive_secret_infos [OF assms(1) a d] show ?thesis by (elim exE conjE) (rule exI, rule conjI)
qed

text \<open>A codec of labels with two length prefixes.\<close>

definition prefixed_label :: "KdfLabel \<Rightarrow> (bytes, TlsCodecError) outcome" where
  "prefixed_label l =
     (if kl_length l < 2 ^ 32 \<and> length (kl_label l) < 2 ^ 32
      then Ok (to_be_bytes (kl_length l) @ to_be_bytes (length (kl_label l)) @ kl_label l @ kl_context l)
      else Err EncodingError)"

lemma prefixed_label_injective: "label_injective (zero_provider\<lparr>tls_KdfLabel := prefixed_label\<rparr>)"
proof -
  have "l = l'" if a: "prefixed_label l = Ok b" and b: "prefixed_label l' = Ok b" for l l' b
  proof -
    have "to_be_bytes (kl_length l) @ to_be_bytes (length (kl_label l)) @ kl_label l @ kl_context l =
        to_be_bytes (kl_length l') @ to_be_bytes (length (kl_label l')) @ kl_label l' @ kl_context l'"
      and bounds: "kl_length l < 2 ^ 32" "kl_length l' < 2 ^ 32" "length (kl_label l) < 2 ^ 32" "length (kl_label l') < 2 ^ 32"
      using a b by (auto simp: prefixed_label_def split: if_splits)
    then have "kl_length l = kl_length l'" "length (kl_label l) = length (kl_label l')" "kl_label l @ kl_context l = kl_label l' @ kl_context l'"
      by (simp_all add: append_eq_append_conv to_be_bytes_inj)
    then show ?thesis by (cases l; cases l') simp
  qed
  then show ?thesis by (auto simp: label_injective_def)
qed

theorem epoch_secrets_separated_witness:
  "\<exists>s infos. EpochSecrets_new (zero_provider\<lparr>tls_KdfLabel := prefixed_label\<rparr>) suite1 (Secret [1]) = Ok s \<and> distinct infos \<and>
    length infos = 10 \<and>
    Secret_hkdf_expand (Secret [1]) (zero_provider\<lparr>tls_KdfLabel := prefixed_label\<rparr>) suite1 (hd infos) 32 = Ok (es_init_secret s)"
proof -
  let ?p = "zero_provider\<lparr>tls_KdfLabel := prefixed_label\<rparr>" and ?z = "Secret (replicate 32 0)"
  have d: "Secret_derive_secret (Secret [1]) ?p suite1 label = Ok ?z" if "length label < 100" for label
    using that by (simp add: Secret_derive_secret_def Secret_kdf_expand_label_def KdfLabel_serialized_label_def Secret_hkdf_expand_def
        zero_provider_def hash_length_def prefixed_label_def str_bytes_def)
  obtain s where s: "EpochSecrets_new ?p suite1 (Secret [1]) = Ok s"
    by (simp add: EpochSecrets_new_def InitSecret_new_def d)
  have x: "Secret_derive_secret (Secret [1]) ?p suite1 ''application_export'' = Ok ?z" by (rule d) simp
  from epoch_secrets_separated [OF prefixed_label_injective s x] obtain infos where infos:
    "distinct infos" "map (\<lambda>info. Secret_hkdf_expand (Secret [1]) ?p suite1 info (hash_length suite1)) infos = map Ok
      [es_init_secret s, es_sender_data_secret s, es_encryption_secret s, es_exporter_secret s, es_epoch_authenticator s,
       es_external_secret s, es_confirmation_key s, es_membership_key s, es_resumption_psk s, ?z]" by (elim exE conjE) (rule that)
  from arg_cong [OF infos(2), of length] have "length infos = 10" by simp
  moreover have "Secret_hkdf_expand (Secret [1]) ?p suite1 (hd infos) 32 = Ok (es_init_secret s)"
    using infos(2) by (cases infos) (simp_all add: hash_length_def)
  ultimately show ?thesis using s infos(1) by blast
qed

end
