(* ===== verification/Proposals.thy ===== *)
theory Proposals
  imports KeySchedule
begin

text \<open>
  Proposals (\<open>messages/proposals.rs\<close>) with their senders (\<open>framing/sender.rs\<close>), and the store and the
  queue of proposals of an epoch (\<open>group/mls_group/proposal_store.rs\<close>).

  A \<open>HashMap\<close> is a map. The order in which it lists its values, which the language leaves open, is an
  argument of the filter. The codec of a proposal is an argument where a reference is computed.
\<close>

section \<open>Senders, key packages and proposals\<close>

datatype Sender = Member LeafNodeIndex | ExternalSenderIndex u32 | NewMemberProposal | NewMemberCommit

fun Sender_as_member :: "Sender \<Rightarrow> LeafNodeIndex option" where
  "Sender_as_member (Member leaf_index) = Some leaf_index"
| "Sender_as_member _ = None"

record KeyPackageTbs =
  kp_protocol_version :: ProtocolVersion
  kp_ciphersuite :: Ciphersuite
  kp_init_key :: bytes
  kp_leaf_node :: LeafNode
  kp_extensions :: Extensions

record KeyPackage =
  kp_payload :: KeyPackageTbs
  kp_signature :: bytes

datatype AppDataUpdateOperation = UpdateData bytes | RemoveData

datatype Proposal =
    AddProposal KeyPackage
  | UpdateProposal LeafNode
  | RemoveProposal LeafNodeIndex
  | PreSharedKeyProposal PreSharedKeyId
  | ReInitProposal GroupId ProtocolVersion Ciphersuite Extensions
  | ExternalInitProposal bytes
  | GroupContextExtensionProposal Extensions
  | AppDataUpdateProposal ComponentId AppDataUpdateOperation
  | SelfRemoveProposal
  | AppEphemeralProposal ComponentId bytes
  | CustomProposal u16 bytes

fun proposal_type :: "Proposal \<Rightarrow> ProposalType" where
  "proposal_type (AddProposal _) = PAdd"
| "proposal_type (UpdateProposal _) = PUpdate"
| "proposal_type (RemoveProposal _) = PRemove"
| "proposal_type (PreSharedKeyProposal _) = PPreSharedKey"
| "proposal_type (ReInitProposal _ _ _ _) = PReinit"
| "proposal_type (ExternalInitProposal _) = PExternalInit"
| "proposal_type (GroupContextExtensionProposal _) = PGroupContextExtensions"
| "proposal_type (AppDataUpdateProposal _ _) = PAppDataUpdate"
| "proposal_type SelfRemoveProposal = PSelfRemove"
| "proposal_type (AppEphemeralProposal _ _) = PAppEphemeral"
| "proposal_type (CustomProposal t _) = PCustom t"

text \<open>The last branch fails a debug assertion.\<close>

fun has_lower_priority_than :: "Proposal \<Rightarrow> Proposal \<Rightarrow> bool option" where
  "has_lower_priority_than (UpdateProposal _) _ = Some True"
| "has_lower_priority_than (RemoveProposal _) (UpdateProposal _) = Some False"
| "has_lower_priority_than (RemoveProposal _) (RemoveProposal _) = Some True"
| "has_lower_priority_than _ SelfRemoveProposal = Some True"
| "has_lower_priority_than _ _ = None"

type_synonym ProposalRef = bytes

datatype ProposalOrRefType = ProposalByValue | ProposalByReference

datatype ProposalOrRef = PorProposal Proposal | PorReference ProposalRef

type_synonym proposal_codec = "Proposal \<Rightarrow> (bytes, TlsCodecError) outcome"

definition from_raw_proposal ::
    "proposal_codec \<Rightarrow> Ciphersuite \<Rightarrow> 'a provider_scheme \<Rightarrow> Proposal \<Rightarrow> (ProposalRef, LibraryError) outcome" where
  "from_raw_proposal tls c p pr =
     outcome_bind (map_err LibraryMissingBoundsCheck (tls pr))
       (\<lambda>encoded. map_err LibraryCryptoError
         (make_proposal_ref (str_bytes ''Internal OpenMLS ProposalRef Label'' @ encoded) c p))"

section \<open>The store\<close>

record QueuedProposal =
  proposal :: Proposal
  proposal_reference :: ProposalRef
  sender :: Sender
  proposal_or_ref_type :: ProposalOrRefType

definition from_proposal_and_sender ::
    "proposal_codec \<Rightarrow> Ciphersuite \<Rightarrow> 'a provider_scheme \<Rightarrow> Proposal \<Rightarrow> Sender \<Rightarrow> (QueuedProposal, LibraryError) outcome" where
  "from_proposal_and_sender tls c p pr s =
     outcome_bind (from_raw_proposal tls c p pr)
       (\<lambda>r. Ok \<lparr>proposal = pr, proposal_reference = r, sender = s, proposal_or_ref_type = ProposalByValue\<rparr>)"

type_synonym ProposalStore = "QueuedProposal list"

definition ProposalStore_add :: "QueuedProposal \<Rightarrow> ProposalStore \<Rightarrow> ProposalStore" where
  "ProposalStore_add qp s = s @ [qp]"

fun ProposalStore_remove :: "ProposalRef \<Rightarrow> ProposalStore \<Rightarrow> ProposalStore \<times> unit option" where
  "ProposalStore_remove r [] = ([], None)"
| "ProposalStore_remove r (qp # s) =
     (if proposal_reference qp = r then (s, Some ())
      else (case ProposalStore_remove r s of (s', found) \<Rightarrow> (qp # s', found)))"

definition ProposalStore_self_removes :: "ProposalStore \<Rightarrow> (LeafNodeIndex \<times> ProposalRef) list" where
  "ProposalStore_self_removes s =
     List.map_filter (\<lambda>qp. case (proposal qp, sender qp) of
         (SelfRemoveProposal, Member i) \<Rightarrow> Some (i, proposal_reference qp)
       | _ \<Rightarrow> None) s"

section \<open>The queue\<close>

record ProposalQueue =
  proposal_references :: "ProposalRef list"
  pq_proposals :: "ProposalRef \<rightharpoonup> QueuedProposal"

definition ProposalQueue_default :: ProposalQueue where
  "ProposalQueue_default = \<lparr>proposal_references = [], pq_proposals = Map.empty\<rparr>"

definition ProposalQueue_is_empty :: "ProposalQueue \<Rightarrow> bool" where
  "ProposalQueue_is_empty q \<longleftrightarrow> proposal_references q = []"

definition ProposalQueue_add :: "QueuedProposal \<Rightarrow> ProposalQueue \<Rightarrow> ProposalQueue" where
  "ProposalQueue_add qp q =
     (let r = proposal_reference qp in
      case pq_proposals q r of
        None \<Rightarrow> \<lparr>proposal_references = proposal_references q @ [r], pq_proposals = (pq_proposals q)(r \<mapsto> qp)\<rparr>
      | Some _ \<Rightarrow> q)"

definition queued_proposals :: "ProposalQueue \<Rightarrow> QueuedProposal list" where
  "queued_proposals q = List.map_filter (pq_proposals q) (proposal_references q)"

definition filtered_by_type :: "ProposalType \<Rightarrow> ProposalQueue \<Rightarrow> QueuedProposal list" where
  "filtered_by_type t q =
     List.map_filter (pq_proposals q)
       (filter (\<lambda>r. case pq_proposals q r of Some qp \<Rightarrow> proposal_type (proposal qp) = t | None \<Rightarrow> False)
         (proposal_references q))"

text \<open>The key reverses the order of the operations of a component, so that removals come first.\<close>

fun app_data_update_key :: "Proposal \<Rightarrow> nat" where
  "app_data_update_key (AppDataUpdateProposal i operation) =
     unat i * 256 + (255 - (case operation of UpdateData _ \<Rightarrow> 1 | RemoveData \<Rightarrow> 2))"
| "app_data_update_key _ = 0"

definition app_data_update_proposals :: "ProposalQueue \<Rightarrow> QueuedProposal list" where
  "app_data_update_proposals q =
     sort_key (\<lambda>qp. app_data_update_key (proposal qp))
       (filter (\<lambda>qp. case proposal qp of AppDataUpdateProposal _ _ \<Rightarrow> True | _ \<Rightarrow> False) (queued_proposals q))"

definition commit_list :: "ProposalQueue \<Rightarrow> ProposalOrRef list" where
  "commit_list q =
     map (\<lambda>qp. case proposal_or_ref_type qp of
         ProposalByValue \<Rightarrow> PorProposal (proposal qp)
       | ProposalByReference \<Rightarrow> PorReference (proposal_reference qp))
       (List.map_filter (pq_proposals q) (proposal_references q))"

section \<open>The queue of a commit\<close>

datatype FromCommittedProposalsError =
    FcpLibraryError LibraryError
  | FcpProposalNotFound
  | SelfRemoval
  | DuplicatePskId PreSharedKeyId

definition PskProposalDuplicateChecker_check ::
    "Proposal \<Rightarrow> PreSharedKeyId set \<Rightarrow> (PreSharedKeyId set, FromCommittedProposalsError) outcome" where
  "PskProposalDuplicateChecker_check pr seen =
     (case pr of
        PreSharedKeyProposal psk_id \<Rightarrow> if psk_id \<in> seen then Err (DuplicatePskId psk_id) else Ok (insert psk_id seen)
      | _ \<Rightarrow> Ok seen)"

text \<open>The check of ValSem200, that the committer is not removed.\<close>

definition removes_committer :: "Proposal \<Rightarrow> Sender \<Rightarrow> bool" where
  "removes_committer pr s =
     (case pr of RemoveProposal removed \<Rightarrow> Sender_as_member s = Some removed | _ \<Rightarrow> False)"

fun committed_loop ::
    "proposal_codec \<Rightarrow> Ciphersuite \<Rightarrow> 'a provider_scheme \<Rightarrow> (ProposalRef \<rightharpoonup> QueuedProposal) \<Rightarrow> Sender \<Rightarrow>
     ProposalOrRef list \<Rightarrow> PreSharedKeyId set \<Rightarrow> ProposalQueue \<Rightarrow> (ProposalQueue, FromCommittedProposalsError) outcome" where
  "committed_loop tls c p by_reference s [] seen q = Ok q"
| "committed_loop tls c p by_reference s (por # pors) seen q =
     outcome_bind
       (case por of
          PorProposal pr \<Rightarrow>
            if removes_committer pr s then Err SelfRemoval
            else outcome_bind (PskProposalDuplicateChecker_check pr seen)
              (\<lambda>seen'. outcome_bind (map_err FcpLibraryError (from_proposal_and_sender tls c p pr s))
                (\<lambda>qp. Ok (qp, seen')))
        | PorReference r \<Rightarrow>
            (case by_reference r of
               Some qp \<Rightarrow>
                 if removes_committer (proposal qp) s then Err SelfRemoval
                 else outcome_bind (PskProposalDuplicateChecker_check (proposal qp) seen) (\<lambda>seen'. Ok (qp, seen'))
             | None \<Rightarrow> Err FcpProposalNotFound))
       (\<lambda>(qp, seen'). committed_loop tls c p by_reference s pors seen' (ProposalQueue_add qp q))"

definition from_committed_proposals ::
    "proposal_codec \<Rightarrow> Ciphersuite \<Rightarrow> 'a provider_scheme \<Rightarrow> ProposalOrRef list \<Rightarrow> ProposalStore \<Rightarrow> Sender \<Rightarrow>
     (ProposalQueue, FromCommittedProposalsError) outcome" where
  "from_committed_proposals tls c p committed_proposals proposal_store s =
     (let by_reference = foldl (\<lambda>m qp. m(proposal_reference qp \<mapsto> qp)) Map.empty proposal_store in
      committed_loop tls c p by_reference s committed_proposals {} ProposalQueue_default)"

section \<open>Choosing the proposals to commit\<close>

record OrderedProposalRefs =
  proposal_refs :: "ProposalRef set"
  ordered_proposal_refs :: "ProposalRef list"

definition OrderedProposalRefs_new :: OrderedProposalRefs where
  "OrderedProposalRefs_new = \<lparr>proposal_refs = {}, ordered_proposal_refs = []\<rparr>"

definition OrderedProposalRefs_add :: "ProposalRef \<Rightarrow> OrderedProposalRefs \<Rightarrow> OrderedProposalRefs" where
  "OrderedProposalRefs_add r rs =
     (if r \<in> proposal_refs rs then rs
      else \<lparr>proposal_refs = insert r (proposal_refs rs), ordered_proposal_refs = ordered_proposal_refs rs @ [r]\<rparr>)"

datatype ProposalQueueError =
    PqLibraryError LibraryError
  | PqProposalNotFound
  | UpdateFromExternalSender
  | SelfRemoveFromNonMember

text \<open>The local variables of \<open>filter_proposals\<close>.\<close>

record FilterState =
  adds :: OrderedProposalRefs
  valid_proposals :: OrderedProposalRefs
  proposal_pool :: "ProposalRef \<rightharpoonup> QueuedProposal"
  contains_own_updates :: bool
  contains_external_init :: bool
  member_specific_proposals :: "LeafNodeIndex \<rightharpoonup> QueuedProposal"

definition register_member_specific_proposal ::
    "LeafNodeIndex \<Rightarrow> QueuedProposal \<Rightarrow> FilterState \<Rightarrow> (FilterState, ProposalQueueError) outcome" where
  "register_member_specific_proposal i qp st =
     (case member_specific_proposals st i of
        None \<Rightarrow> Ok (st\<lparr>member_specific_proposals := (member_specific_proposals st)(i \<mapsto> qp)\<rparr>)
      | Some old \<Rightarrow>
          outcome_bind (or_panic (has_lower_priority_than (proposal old) (proposal qp)))
            (\<lambda>lower. Ok (if lower then st\<lparr>member_specific_proposals := (member_specific_proposals st)(i \<mapsto> qp)\<rparr> else st)))"

definition filter_step ::
    "LeafNodeIndex \<Rightarrow> QueuedProposal \<Rightarrow> FilterState \<Rightarrow> (FilterState, ProposalQueueError) outcome" where
  "filter_step own qp st0 =
     (let r = proposal_reference qp;
          st = st0\<lparr>proposal_pool := (proposal_pool st0)(r \<mapsto> qp)\<rparr>;
          valid = st\<lparr>valid_proposals := OrderedProposalRefs_add r (valid_proposals st)\<rparr> in
      case proposal qp of
        AddProposal _ \<Rightarrow> Ok (st\<lparr>adds := OrderedProposalRefs_add r (adds st)\<rparr>)
      | UpdateProposal _ \<Rightarrow>
          (case sender qp of
             Member i \<Rightarrow>
               if i = own then Ok (st\<lparr>contains_own_updates := True\<rparr>)
               else register_member_specific_proposal i qp st
           | _ \<Rightarrow> Err UpdateFromExternalSender)
      | RemoveProposal removed \<Rightarrow> register_member_specific_proposal removed qp st
      | PreSharedKeyProposal _ \<Rightarrow> Ok valid
      | ReInitProposal _ _ _ _ \<Rightarrow> Ok st
      | ExternalInitProposal _ \<Rightarrow>
          Ok (if \<not> contains_external_init st then valid\<lparr>contains_external_init := True\<rparr> else st)
      | GroupContextExtensionProposal _ \<Rightarrow> Ok valid
      | AppDataUpdateProposal _ _ \<Rightarrow> Ok valid
      | SelfRemoveProposal \<Rightarrow>
          (case sender qp of
             Member removed \<Rightarrow> register_member_specific_proposal removed qp st
           | _ \<Rightarrow> Err SelfRemoveFromNonMember)
      | AppEphemeralProposal _ _ \<Rightarrow> Ok valid
      | CustomProposal _ _ \<Rightarrow> Ok valid)"

fun filter_loop ::
    "LeafNodeIndex \<Rightarrow> QueuedProposal list \<Rightarrow> FilterState \<Rightarrow> (FilterState, ProposalQueueError) outcome" where
  "filter_loop own [] st = Ok st"
| "filter_loop own (qp # qps) st = outcome_bind (filter_step own qp st) (filter_loop own qps)"

definition filter_initial :: FilterState where
  "filter_initial =
     \<lparr>adds = OrderedProposalRefs_new, valid_proposals = OrderedProposalRefs_new, proposal_pool = Map.empty,
      contains_own_updates = False, contains_external_init = False, member_specific_proposals = Map.empty\<rparr>"

text \<open>\<open>hash_values\<close> is the order in which the map of the member-specific proposals lists its values.\<close>

definition filter_proposals ::
    "((LeafNodeIndex \<rightharpoonup> QueuedProposal) \<Rightarrow> QueuedProposal list) \<Rightarrow> QueuedProposal list \<Rightarrow> LeafNodeIndex \<Rightarrow>
     (ProposalQueue \<times> bool, ProposalQueueError) outcome" where
  "filter_proposals hash_values qps own =
     outcome_bind (filter_loop own qps filter_initial)
       (\<lambda>st. let valid = foldl (\<lambda>rs qp. OrderedProposalRefs_add (proposal_reference qp) rs) (valid_proposals st)
                   (hash_values (member_specific_proposals st)) in
          outcome_bind
            (outcome_map (\<lambda>r. ok_or (proposal_pool st r) PqProposalNotFound)
              (ordered_proposal_refs (adds st) @ ordered_proposal_refs valid))
            (\<lambda>kept. Ok (foldl (\<lambda>q qp. ProposalQueue_add qp q) ProposalQueue_default kept, contains_own_updates st)))"

section \<open>Queues\<close>

text \<open>The references of a queue are distinct and name its proposals.\<close>

definition ProposalQueue_wf :: "ProposalQueue \<Rightarrow> bool" where
  "ProposalQueue_wf q \<longleftrightarrow> distinct (proposal_references q) \<and> dom (pq_proposals q) = set (proposal_references q) \<and>
     (\<forall>r qp. pq_proposals q r = Some qp \<longrightarrow> proposal_reference qp = r)"

lemma ProposalQueue_wf_default [simp]: "ProposalQueue_wf ProposalQueue_default" "queued_proposals ProposalQueue_default = []"
  "proposal_references ProposalQueue_default = []"
  by (simp_all add: ProposalQueue_wf_def ProposalQueue_default_def queued_proposals_def map_filter_simps)

lemma map_filter_append: "List.map_filter f (xs @ ys) = List.map_filter f xs @ List.map_filter f ys"
  by (simp add: List.map_filter_def)

lemma map_filter_map: "(\<And>x. x \<in> set xs \<Longrightarrow> f x = Some (g x)) \<Longrightarrow> List.map_filter f xs = map g xs"
  by (induction xs) (simp_all add: map_filter_simps)

lemma queued_proposals_refs:
  assumes "ProposalQueue_wf q"
  shows "map proposal_reference (queued_proposals q) = proposal_references q"
proof -
  have "queued_proposals q = map (\<lambda>r. the (pq_proposals q r)) (proposal_references q)"
    using assms unfolding queued_proposals_def ProposalQueue_wf_def by (intro map_filter_map) force
  moreover have "proposal_reference (the (pq_proposals q r)) = r" if "r \<in> set (proposal_references q)" for r
    using assms that unfolding ProposalQueue_wf_def by force
  ultimately show ?thesis by (simp add: map_idI)
qed

lemma queued_proposals_in:
  assumes "ProposalQueue_wf q"
  shows "qp \<in> set (queued_proposals q) \<longleftrightarrow> pq_proposals q (proposal_reference qp) = Some qp"
  using assms unfolding queued_proposals_def ProposalQueue_wf_def
  by (force simp: List.map_filter_def)

lemma queued_proposals_add:
  assumes wf: "ProposalQueue_wf q"
  shows "ProposalQueue_wf (ProposalQueue_add qp q)"
    "queued_proposals (ProposalQueue_add qp q) =
      (if proposal_reference qp \<in> set (proposal_references q) then queued_proposals q else queued_proposals q @ [qp])"
proof -
  show "ProposalQueue_wf (ProposalQueue_add qp q)"
    using wf by (auto simp: ProposalQueue_wf_def ProposalQueue_add_def Let_def split: option.splits)
  show "queued_proposals (ProposalQueue_add qp q) =
      (if proposal_reference qp \<in> set (proposal_references q) then queued_proposals q else queued_proposals q @ [qp])"
  proof (cases "pq_proposals q (proposal_reference qp)")
    case None
    then have n: "proposal_reference qp \<notin> set (proposal_references q)" using wf by (auto simp: ProposalQueue_wf_def)
    have "List.map_filter ((pq_proposals q)(proposal_reference qp \<mapsto> qp)) rs = List.map_filter (pq_proposals q) rs"
      if "proposal_reference qp \<notin> set rs" for rs
      using that by (induction rs) (auto simp: map_filter_simps split: option.split)
    from this [OF n] n None show ?thesis
      by (simp add: ProposalQueue_add_def queued_proposals_def Let_def map_filter_append map_filter_simps)
  next
    case (Some x)
    then have "proposal_reference qp \<in> set (proposal_references q)" using wf by (auto simp: ProposalQueue_wf_def)
    with Some show ?thesis by (simp add: ProposalQueue_add_def)
  qed
qed

lemma queued_proposals_adds:
  assumes "ProposalQueue_wf q" "distinct (proposal_references q @ map proposal_reference qps)"
  shows "ProposalQueue_wf (foldl (\<lambda>q qp. ProposalQueue_add qp q) q qps) \<and>
    queued_proposals (foldl (\<lambda>q qp. ProposalQueue_add qp q) q qps) = queued_proposals q @ qps"
  using assms
proof (induction qps arbitrary: q)
  case (Cons qp qps)
  let ?q = "ProposalQueue_add qp q"
  have q: "ProposalQueue_wf ?q" "queued_proposals ?q = queued_proposals q @ [qp]"
    using queued_proposals_add [OF Cons.prems(1), of qp] Cons.prems(2) by auto
  have "proposal_references ?q = proposal_references q @ [proposal_reference qp]"
    using queued_proposals_refs [OF q(1)] queued_proposals_refs [OF Cons.prems(1)] q(2) by simp
  with Cons.IH [OF q(1)] Cons.prems(2) q(2) show ?case by simp
qed simp

lemma queue_eqI:
  assumes "ProposalQueue_wf q" "ProposalQueue_wf q'" "queued_proposals q = queued_proposals q'"
  shows "q = q'"
proof -
  have r: "proposal_references q = proposal_references q'"
    using queued_proposals_refs [OF assms(1)] queued_proposals_refs [OF assms(2)] assms(3) by simp
  have "pq_proposals q r = pq_proposals q' r" for r
  proof (cases "pq_proposals q r")
    case None
    then show ?thesis using assms(1,2) r unfolding ProposalQueue_wf_def by (metis domIff)
  next
    case (Some qp)
    then show ?thesis using queued_proposals_in [OF assms(1), of qp] queued_proposals_in [OF assms(2), of qp] assms
      unfolding ProposalQueue_wf_def by metis
  qed
  with r show ?thesis by (cases q; cases q') auto
qed

lemma queue_rebuild:
  assumes "ProposalQueue_wf q"
  shows "foldl (\<lambda>q qp. ProposalQueue_add qp q) ProposalQueue_default (queued_proposals q) = q"
proof -
  have "distinct (map proposal_reference (queued_proposals q))"
    using queued_proposals_refs [OF assms] assms by (simp add: ProposalQueue_wf_def)
  then have "ProposalQueue_wf (foldl (\<lambda>q qp. ProposalQueue_add qp q) ProposalQueue_default (queued_proposals q)) \<and>
      queued_proposals (foldl (\<lambda>q qp. ProposalQueue_add qp q) ProposalQueue_default (queued_proposals q)) = queued_proposals q"
    using queued_proposals_adds [of ProposalQueue_default "queued_proposals q"] by simp
  then show ?thesis using queue_eqI assms by blast
qed

section \<open>Committing a queue\<close>

abbreviation psk_ids :: "QueuedProposal list \<Rightarrow> PreSharedKeyId list" where
  "psk_ids qps \<equiv> List.map_filter (\<lambda>qp. case proposal qp of PreSharedKeyProposal i \<Rightarrow> Some i | _ \<Rightarrow> None) qps"

text \<open>A committer can commit a proposal, and a receiver with this store can find it.\<close>

definition committable ::
    "proposal_codec \<Rightarrow> Ciphersuite \<Rightarrow> 'a provider_scheme \<Rightarrow> ProposalStore \<Rightarrow> Sender \<Rightarrow> QueuedProposal \<Rightarrow> bool" where
  "committable tls c p store s qp \<longleftrightarrow> \<not> removes_committer (proposal qp) s \<and>
     (case proposal_or_ref_type qp of
        ProposalByValue \<Rightarrow> from_proposal_and_sender tls c p (proposal qp) s = Ok qp
      | ProposalByReference \<Rightarrow> qp \<in> set store)"

lemma by_reference_lookup:
  fixes store :: ProposalStore
  assumes "distinct (map proposal_reference store)" "qp \<in> set store"
  shows "foldl (\<lambda>m qp. m(proposal_reference qp \<mapsto> qp)) m store (proposal_reference qp) = Some qp"
proof -
  have skip: "foldl (\<lambda>m qp. m(proposal_reference qp \<mapsto> qp)) m store r = m r"
    if "r \<notin> proposal_reference ` set store" for r m and store :: "QueuedProposal list"
    using that by (induction store arbitrary: m) auto
  show ?thesis using assms by (induction store arbitrary: m) (auto simp: skip)
qed

lemma committed_loop_queue:
  assumes "list_all (committable tls c p store s) qps" "distinct (psk_ids qps)" "set (psk_ids qps) \<inter> seen = {}"
    and store: "\<And>qp. qp \<in> set store \<Longrightarrow> by_ref (proposal_reference qp) = Some qp"
  shows "committed_loop tls c p by_ref s
    (map (\<lambda>qp. case proposal_or_ref_type qp of
       ProposalByValue \<Rightarrow> PorProposal (proposal qp) | ProposalByReference \<Rightarrow> PorReference (proposal_reference qp)) qps) seen q =
    Ok (foldl (\<lambda>q qp. ProposalQueue_add qp q) q qps)"
  using assms(1-3)
proof (induction qps arbitrary: seen q)
  case (Cons qp qps)
  obtain seen' where seen': "PskProposalDuplicateChecker_check (proposal qp) seen = Ok seen'" "set (psk_ids qps) \<inter> seen' = {}"
    using Cons.prems(2,3)
    by (cases "proposal qp") (auto simp: PskProposalDuplicateChecker_check_def map_filter_simps)
  have "distinct (psk_ids qps)" using Cons.prems(2) by (auto simp: map_filter_simps split: option.splits)
  note IH = Cons.IH [OF _ this seen'(2), of "ProposalQueue_add qp q"]
  show ?case using Cons.prems(1) seen'(1) IH store
    by (cases "proposal_or_ref_type qp") (auto simp: committable_def)
qed simp

text \<open>
  (C8) A receiver of a commit reconstructs the queue of proposals that was committed, in its order,
  from the list in the commit, if its store has the proposals committed by reference. This assumes
  that no proposal removes the committer and no pre-shared key is proposed twice, which are refused.
\<close>

theorem commit_list_roundtrip:
  assumes "ProposalQueue_wf q" "list_all (committable tls c p store s) (queued_proposals q)"
    "distinct (psk_ids (queued_proposals q))" "distinct (map proposal_reference store)"
  shows "from_committed_proposals tls c p (commit_list q) store s = Ok q"
proof -
  have "commit_list q = map (\<lambda>qp. case proposal_or_ref_type qp of
      ProposalByValue \<Rightarrow> PorProposal (proposal qp) | ProposalByReference \<Rightarrow> PorReference (proposal_reference qp)) (queued_proposals q)"
    by (simp add: commit_list_def queued_proposals_def)
  then show ?thesis
    using committed_loop_queue [OF assms(2,3), of "{}" "foldl (\<lambda>m qp. m(proposal_reference qp \<mapsto> qp)) Map.empty store"]
      by_reference_lookup [OF assms(4)] queue_rebuild [OF assms(1)]
    by (simp add: from_committed_proposals_def Let_def)
qed

theorem commit_list_roundtrip_witness:
  "let v = \<lparr>proposal = RemoveProposal 1, proposal_reference = replicate 32 0, sender = Member 0, proposal_or_ref_type = ProposalByValue\<rparr>;
       r = \<lparr>proposal = SelfRemoveProposal, proposal_reference = [1], sender = Member 2, proposal_or_ref_type = ProposalByReference\<rparr> in
   from_committed_proposals (\<lambda>_. Ok []) suite1 zero_provider [PorProposal (RemoveProposal 1), PorReference [1]] [r] (Member 0) =
     Ok (ProposalQueue_add r (ProposalQueue_add v ProposalQueue_default))"
proof -
  let ?v = "\<lparr>proposal = RemoveProposal 1, proposal_reference = replicate 32 0, sender = Member 0, proposal_or_ref_type = ProposalByValue\<rparr>"
  let ?r = "\<lparr>proposal = SelfRemoveProposal, proposal_reference = [1], sender = Member 2, proposal_or_ref_type = ProposalByReference\<rparr>"
  define q where "q = foldl (\<lambda>q qp. ProposalQueue_add qp q) ProposalQueue_default [?v, ?r]"
  have "replicate 32 0 \<noteq> [1 :: 8 word]" by (simp add: eval_nat_numeral)
  then have q: "ProposalQueue_wf q" "queued_proposals q = [?v, ?r]"
    using queued_proposals_adds [of ProposalQueue_default "[?v, ?r]"] unfolding q_def by simp_all
  have "from_committed_proposals (\<lambda>_. Ok []) suite1 zero_provider (commit_list q) [?r] (Member 0) = Ok q"
    by (rule commit_list_roundtrip [OF q(1)])
      (simp_all add: q(2) committable_def removes_committer_def from_proposal_and_sender_def from_raw_proposal_def make_proposal_ref_def
        HashReference_new_def zero_provider_def map_filter_simps)
  moreover have "commit_list q = [PorProposal (RemoveProposal 1), PorReference [1]]"
    using q(2) by (simp add: commit_list_def queued_proposals_def)
  ultimately show ?thesis by (simp add: Let_def q_def)
qed

section \<open>One proposal for a leaf\<close>

text \<open>The member whose leaf a proposal changes, and the updates of the committer, which are left out.\<close>

fun target :: "QueuedProposal \<Rightarrow> LeafNodeIndex option" where
  "target qp = (case proposal qp of
     UpdateProposal _ \<Rightarrow> Sender_as_member (sender qp)
   | RemoveProposal i \<Rightarrow> Some i
   | SelfRemoveProposal \<Rightarrow> Sender_as_member (sender qp)
   | _ \<Rightarrow> None)"

fun own_update :: "LeafNodeIndex \<Rightarrow> QueuedProposal \<Rightarrow> bool" where
  "own_update own qp = (case proposal qp of UpdateProposal _ \<Rightarrow> sender qp = Member own | _ \<Rightarrow> False)"

definition is_proposal :: "ProposalType \<Rightarrow> QueuedProposal \<Rightarrow> bool" where
  "is_proposal t qp \<longleftrightarrow> proposal_type (proposal qp) = t"

definition competing :: "LeafNodeIndex \<Rightarrow> LeafNodeIndex \<Rightarrow> QueuedProposal list \<Rightarrow> QueuedProposal list" where
  "competing own i qps = filter (\<lambda>qp. target qp = Some i \<and> \<not> own_update own qp) qps"

text \<open>Any removal by the member itself is preferred, then any removal, then the last update.\<close>

definition preferred :: "QueuedProposal list \<Rightarrow> QueuedProposal" where
  "preferred c =
     (if filter (is_proposal PSelfRemove) c \<noteq> [] then last (filter (is_proposal PSelfRemove) c)
      else if filter (is_proposal PRemove) c \<noteq> [] then last (filter (is_proposal PRemove) c)
      else last c)"

lemma preferred_cases:
  assumes "c \<noteq> []"
  shows "preferred c \<in> set c"
    and "filter (is_proposal PSelfRemove) c \<noteq> [] \<Longrightarrow> is_proposal PSelfRemove (preferred c)"
    and "filter (is_proposal PSelfRemove) c = [] \<Longrightarrow> filter (is_proposal PRemove) c \<noteq> [] \<Longrightarrow> is_proposal PRemove (preferred c)"
proof -
  have l: "last (filter P c) \<in> set c \<and> P (last (filter P c))" if "filter P c \<noteq> []" for P
    using last_in_set [OF that] by simp
  note l = l [of "is_proposal PSelfRemove"] l [of "is_proposal PRemove"]
  show "preferred c \<in> set c" using assms l by (simp add: preferred_def)
  show "is_proposal PSelfRemove (preferred c)" if "filter (is_proposal PSelfRemove) c \<noteq> []"
    using l(1) [OF that] that by (simp add: preferred_def)
  show "is_proposal PRemove (preferred c)" if "filter (is_proposal PSelfRemove) c = []" "filter (is_proposal PRemove) c \<noteq> []"
    using l(2) [OF that(2)] that by (simp add: preferred_def)
qed

lemma proposal_types:
  "is_proposal PSelfRemove qp \<longleftrightarrow> proposal qp = SelfRemoveProposal"
  "is_proposal PRemove qp \<longleftrightarrow> (\<exists>i. proposal qp = RemoveProposal i)"
  "is_proposal PUpdate qp \<longleftrightarrow> (\<exists>l. proposal qp = UpdateProposal l)"
  by (cases "proposal qp"; simp add: is_proposal_def)+

lemma target_types: "target qp = Some i \<Longrightarrow> is_proposal PSelfRemove qp \<or> is_proposal PRemove qp \<or> is_proposal PUpdate qp"
  by (cases "proposal qp") (auto simp: is_proposal_def)

declare target.simps [simp del] own_update.simps [simp del]

lemma preferred_snoc:
  assumes c: "c \<noteq> []" "\<And>x. x \<in> set (c @ [qp]) \<Longrightarrow> is_proposal PSelfRemove x \<or> is_proposal PRemove x \<or> is_proposal PUpdate x"
    and lower: "has_lower_priority_than (proposal (preferred c)) (proposal qp) = Some b"
  shows "preferred (c @ [qp]) = (if b then qp else preferred c)"
proof -
  have qp: "is_proposal PSelfRemove qp \<or> is_proposal PRemove qp \<or> is_proposal PUpdate qp" using c(2) by simp
  consider "filter (is_proposal PSelfRemove) c \<noteq> []"
    | "filter (is_proposal PSelfRemove) c = []" "filter (is_proposal PRemove) c \<noteq> []"
    | "filter (is_proposal PSelfRemove) c = []" "filter (is_proposal PRemove) c = []" by blast
  then show ?thesis
  proof cases
    case 1
    from preferred_cases(2) [OF c(1) this] qp lower 1 show ?thesis
      by (auto simp: proposal_types preferred_def)
  next
    case 2
    from preferred_cases(3) [OF c(1) this] qp lower 2 show ?thesis
      by (auto simp: proposal_types preferred_def)
  next
    case 3
    then have "is_proposal PUpdate (preferred c)"
      using preferred_cases(1) [OF c(1)] c(2) by (auto simp: filter_empty_conv)
    with qp lower 3 show ?thesis by (auto simp: proposal_types preferred_def)
  qed
qed

text \<open>
  What is kept besides Adds and the proposals for a leaf: the types that are always valid, and the first
  \<open>ExternalInit\<close>. A proposal that is repeated has its first place.
\<close>

definition always_kept :: "QueuedProposal \<Rightarrow> bool" where
  "always_kept qp \<longleftrightarrow> (case proposal qp of
     PreSharedKeyProposal _ \<Rightarrow> True | GroupContextExtensionProposal _ \<Rightarrow> True | AppDataUpdateProposal _ _ \<Rightarrow> True
   | AppEphemeralProposal _ _ \<Rightarrow> True | CustomProposal _ _ \<Rightarrow> True | _ \<Rightarrow> False)"

definition keep_first :: "'a list \<Rightarrow> 'a list" where
  "keep_first xs = foldl (\<lambda>ys x. if x \<in> set ys then ys else ys @ [x]) [] xs"

definition kept_others :: "QueuedProposal list \<Rightarrow> QueuedProposal list" where
  "kept_others qps =
     keep_first (filter (\<lambda>qp. always_kept qp \<or> qp \<in> set (take 1 (filter (is_proposal PExternalInit) qps))) qps)"

lemma keep_first_snoc: "keep_first (xs @ [x]) = (if x \<in> set xs then keep_first xs else keep_first xs @ [x])"
  and set_keep_first [simp]: "set (keep_first xs) = set xs"
  and distinct_keep_first [simp]: "distinct (keep_first xs)"
proof -
  have step: "keep_first (ys @ [y]) = (if y \<in> set (keep_first ys) then keep_first ys else keep_first ys @ [y])" for ys and y :: 'a
    by (simp add: keep_first_def)
  have nil: "keep_first [] = []" by (simp add: keep_first_def)
  have set: "set (keep_first ys) = set ys" for ys :: "'a list" by (induction ys rule: rev_induct) (auto simp: step nil)
  then show "set (keep_first xs) = set xs" .
  show "keep_first (xs @ [x]) = (if x \<in> set xs then keep_first xs else keep_first xs @ [x])" by (simp only: step set)
  show "distinct (keep_first xs)" by (induction xs rule: rev_induct) (auto simp: step nil set)
qed

lemma kept_others_snoc:
  "kept_others (qps @ [qp]) =
     (if (always_kept qp \<or> is_proposal PExternalInit qp \<and> filter (is_proposal PExternalInit) qps = []) \<and> qp \<notin> set (kept_others qps)
      then kept_others qps @ [qp] else kept_others qps)"
proof -
  let ?e = "filter (is_proposal PExternalInit)" and ?P = "\<lambda>qps qp. always_kept qp \<or> qp \<in> set (take 1 (filter (is_proposal PExternalInit) qps))"
  have same: "filter (?P (qps @ [qp])) qps = filter (?P qps) qps"
    by (cases "?e qps") (auto simp: filter_empty_conv intro!: filter_cong)
  have "filter (?P (qps @ [qp])) (qps @ [qp]) = filter (?P qps) qps @ (if ?P (qps @ [qp]) qp then [qp] else [])"
    unfolding filter_append [of "?P (qps @ [qp])" qps "[qp]"] same by (simp only: filter.simps)
  then have split: "kept_others (qps @ [qp]) = keep_first (filter (?P qps) qps @ (if ?P (qps @ [qp]) qp then [qp] else []))"
    by (simp only: kept_others_def)
  show ?thesis
  proof (cases "?e qps")
    case Nil
    then show ?thesis unfolding split by (auto simp: keep_first_snoc kept_others_def)
  next
    case (Cons x xs)
    then have "x \<in> set (?e qps)" by simp
    then have "x \<in> set qps" by simp
    with Cons show ?thesis unfolding split by (auto simp: keep_first_snoc kept_others_def)
  qed
qed

lemma set_kept_others:
  "set (kept_others qps) \<subseteq> {qp \<in> set qps. always_kept qp \<or> is_proposal PExternalInit qp}"
  using set_take_subset [of 1 "filter (is_proposal PExternalInit) qps"] by (auto simp: kept_others_def)

lemma register_Ok:
  "register_member_specific_proposal i qp st = Ok st' \<longleftrightarrow>
   (\<exists>b. (case member_specific_proposals st i of None \<Rightarrow> b | Some old \<Rightarrow> has_lower_priority_than (proposal old) (proposal qp) = Some b) \<and>
     st' = (if b then st\<lparr>member_specific_proposals := (member_specific_proposals st)(i \<mapsto> qp)\<rparr> else st))"
  by (auto simp: register_member_specific_proposal_def outcome_bind_Ok_iff split: option.split)

lemma filter_step_target:
  assumes "target qp = Some j" "\<not> own_update own qp"
  shows "filter_step own qp st =
    register_member_specific_proposal j qp (st\<lparr>proposal_pool := (proposal_pool st)(proposal_reference qp \<mapsto> qp)\<rparr>)"
  using assms by (cases "proposal qp"; cases "sender qp") (simp_all add: filter_step_def target.simps own_update.simps Let_def split: if_splits)

lemma filter_step_rest:
  assumes "target qp = None \<or> own_update own qp" "filter_step own qp st = Ok st'"
  shows "member_specific_proposals st' = member_specific_proposals st"
  using assms by (cases "proposal qp"; cases "sender qp") (auto simp: filter_step_def target.simps own_update.simps Let_def split: if_splits)

lemma filter_step_members:
  assumes "filter_step own qp st = Ok st'"
  shows "if target qp = Some i \<and> \<not> own_update own qp
    then \<exists>b. (case member_specific_proposals st i of None \<Rightarrow> b | Some old \<Rightarrow> has_lower_priority_than (proposal old) (proposal qp) = Some b) \<and>
      member_specific_proposals st' i = (if b then Some qp else member_specific_proposals st i)
    else member_specific_proposals st' i = member_specific_proposals st i"
proof (cases "target qp = None \<or> own_update own qp")
  case True
  then have "\<not> (target qp = Some i \<and> \<not> own_update own qp)" by auto
  with filter_step_rest [OF True assms] show ?thesis by (simp only: if_False)
next
  case False
  then obtain j where j: "target qp = Some j" "\<not> own_update own qp" by auto
  define st1 where "st1 = st\<lparr>proposal_pool := (proposal_pool st)(proposal_reference qp \<mapsto> qp)\<rparr>"
  from assms [unfolded filter_step_target [OF j] register_Ok st1_def [symmetric]] obtain b where b:
    "case member_specific_proposals st1 j of None \<Rightarrow> b | Some old \<Rightarrow> has_lower_priority_than (proposal old) (proposal qp) = Some b"
    "st' = (if b then st1\<lparr>member_specific_proposals := (member_specific_proposals st1)(j \<mapsto> qp)\<rparr> else st1)"
    by (elim exE conjE) (rule that)
  have m: "member_specific_proposals st1 = member_specific_proposals st" by (simp add: st1_def)
  show ?thesis
  proof (cases "i = j")
    case True
    then show ?thesis using b j m by (intro if_P [THEN iffD2] exI [of _ b]) auto
  next
    case False
    then show ?thesis using b j m by simp
  qed
qed

lemma filter_step_others:
  assumes "filter_step own qp st = Ok st'"
  shows "proposal_pool st' = (proposal_pool st)(proposal_reference qp \<mapsto> qp) \<and>
    (contains_own_updates st' \<longleftrightarrow> contains_own_updates st \<or> own_update own qp) \<and>
    adds st' = (if is_proposal PAdd qp then OrderedProposalRefs_add (proposal_reference qp) (adds st) else adds st) \<and>
    (contains_external_init st' \<longleftrightarrow> contains_external_init st \<or> is_proposal PExternalInit qp) \<and>
    valid_proposals st' = (if always_kept qp \<or> is_proposal PExternalInit qp \<and> \<not> contains_external_init st
      then OrderedProposalRefs_add (proposal_reference qp) (valid_proposals st) else valid_proposals st)"
proof (cases "target qp = None \<or> own_update own qp")
  case True
  then show ?thesis using assms
    by (cases "proposal qp"; cases "sender qp") (auto simp: filter_step_def target.simps own_update.simps Let_def is_proposal_def always_kept_def split: if_splits)
next
  case False
  then obtain j where j: "target qp = Some j" "\<not> own_update own qp" by auto
  then have "\<not> is_proposal PAdd qp" "\<not> always_kept qp" "\<not> is_proposal PExternalInit qp" by (cases "proposal qp"; simp add: is_proposal_def always_kept_def target.simps)+
  then show ?thesis using assms [unfolded filter_step_target [OF j] register_Ok] j(2)
    by (auto split: if_splits)
qed

lemma filter_loop_append:
  "filter_loop own (qps @ qps') st = outcome_bind (filter_loop own qps st) (filter_loop own qps')"
proof (induction qps arbitrary: st)
  case (Cons x qps)
  then show ?case by (cases "filter_step own x st") simp_all
qed simp

lemma filter_loop_snoc:
  "filter_loop own (qps @ [qp]) st = outcome_bind (filter_loop own qps st) (filter_step own qp)"
proof -
  have "filter_loop own [qp] = filter_step own qp"
  proof
    show "filter_loop own [qp] s = filter_step own qp s" for s by (cases "filter_step own qp s") simp_all
  qed
  then show ?thesis by (simp only: filter_loop_append)
qed

definition refs_wf :: "OrderedProposalRefs \<Rightarrow> bool" where
  "refs_wf rs \<longleftrightarrow> proposal_refs rs = set (ordered_proposal_refs rs) \<and> distinct (ordered_proposal_refs rs)"

lemma refs_add:
  assumes "refs_wf rs" "ordered_proposal_refs rs = map proposal_reference xs" "inj_on proposal_reference (insert qp (set xs))"
  shows "refs_wf (OrderedProposalRefs_add (proposal_reference qp) rs)"
    "ordered_proposal_refs (OrderedProposalRefs_add (proposal_reference qp) rs) =
      map proposal_reference (if qp \<in> set xs then xs else xs @ [qp])"
  using assms by (auto simp: refs_wf_def OrderedProposalRefs_add_def inj_on_def)

lemma filter_loop_members:
  "filter_loop own qps filter_initial = Ok st \<Longrightarrow>
   member_specific_proposals st i = (if competing own i qps = [] then None else Some (preferred (competing own i qps)))"
proof (induction qps arbitrary: st rule: rev_induct)
  case Nil
  then show ?case by (auto simp: filter_initial_def competing_def)
next
  case (snoc qp qps)
  then obtain st0 where st0: "filter_loop own qps filter_initial = Ok st0" "filter_step own qp st0 = Ok st"
    by (auto simp: filter_loop_snoc outcome_bind_Ok_iff)
  note IH = snoc.IH [OF st0(1)] and step = filter_step_members [OF st0(2), of i]
  show ?case
  proof (cases "target qp = Some i \<and> \<not> own_update own qp")
    case True
    then have c: "competing own i (qps @ [qp]) = competing own i qps @ [qp]" by (simp add: competing_def)
    have t: "is_proposal PSelfRemove x \<or> is_proposal PRemove x \<or> is_proposal PUpdate x"
      if "x \<in> set (competing own i (qps @ [qp]))" for x
      by (rule target_types [of x i]) (use that in \<open>unfold competing_def set_filter, blast\<close>)
    show ?thesis
    proof (cases "competing own i qps = []")
      case True
      with \<open>target qp = Some i \<and> \<not> own_update own qp\<close> step IH c show ?thesis by (auto simp: preferred_def)
    next
      case False
      with True step IH preferred_snoc [OF False t [unfolded c]] c show ?thesis by auto
    qed
  next
    case False
    then show ?thesis using step IH by (auto simp: competing_def)
  qed
qed

lemma filter_loop_others:
  assumes "filter_loop own qps filter_initial = Ok st" "inj_on proposal_reference (set qps)"
  shows "(\<forall>qp \<in> set qps. proposal_pool st (proposal_reference qp) = Some qp) \<and> (contains_own_updates st \<longleftrightarrow> list_ex (own_update own) qps) \<and>
    (refs_wf (adds st) \<and> ordered_proposal_refs (adds st) = map proposal_reference (keep_first (filter (is_proposal PAdd) qps))) \<and>
    (contains_external_init st \<longleftrightarrow> filter (is_proposal PExternalInit) qps \<noteq> []) \<and>
    (refs_wf (valid_proposals st) \<and> ordered_proposal_refs (valid_proposals st) = map proposal_reference (kept_others qps))"
  using assms
proof (induction qps arbitrary: st rule: rev_induct)
  case Nil
  then show ?case by (auto simp: filter_initial_def OrderedProposalRefs_new_def refs_wf_def keep_first_def kept_others_def)
next
  case (snoc qp qps)
  then obtain st0 where st0: "filter_loop own qps filter_initial = Ok st0" "filter_step own qp st0 = Ok st"
    by (auto simp: filter_loop_snoc outcome_bind_Ok_iff)
  have "inj_on proposal_reference (set qps)" using snoc.prems(2) by simp
  note IH = snoc.IH [OF st0(1) this] and step = filter_step_others [OF st0(2)]
  have inj: "inj_on proposal_reference (insert qp S)" if "S \<subseteq> set qps" for S
    by (rule inj_on_subset [OF snoc.prems(2)]) (use that in auto)
  have pool: "\<forall>x \<in> set (qps @ [qp]). proposal_pool st (proposal_reference x) = Some x"
    using IH step snoc.prems(2) by (auto simp: inj_on_def)
  have a: "refs_wf (adds st) \<and> ordered_proposal_refs (adds st) = map proposal_reference (keep_first (filter (is_proposal PAdd) (qps @ [qp])))"
    using IH step refs_add [of "adds st0" "keep_first (filter (is_proposal PAdd) qps)" qp] inj
    by (auto simp: keep_first_snoc)
  have "set (kept_others qps) \<subseteq> set qps" using set_kept_others by blast
  then have v: "refs_wf (valid_proposals st) \<and> ordered_proposal_refs (valid_proposals st) = map proposal_reference (kept_others (qps @ [qp]))"
    using IH step refs_add [of "valid_proposals st0" "kept_others qps" qp] inj by (auto simp: kept_others_snoc)
  from pool a v IH step show ?case by simp
qed

text \<open>What a \<open>HashMap\<close> lists: each of its values once for its key, in some order.\<close>

definition lists_values :: "(('k \<rightharpoonup> 'v) \<Rightarrow> 'v list) \<Rightarrow> bool" where
  "lists_values hash_values \<longleftrightarrow>
     (\<forall>m. finite (dom m) \<longrightarrow> (\<exists>ks. distinct ks \<and> set ks = dom m \<and> hash_values m = map (\<lambda>k. the (m k)) ks))"

lemma foldl_refs:
  assumes "refs_wf rs" "distinct (map proposal_reference vs)" "proposal_reference ` set vs \<inter> set (ordered_proposal_refs rs) = {}"
  shows "ordered_proposal_refs (foldl (\<lambda>rs qp. OrderedProposalRefs_add (proposal_reference qp) rs) rs vs) =
    ordered_proposal_refs rs @ map proposal_reference vs"
  using assms
proof (induction vs arbitrary: rs)
  case (Cons v vs)
  let ?rs = "OrderedProposalRefs_add (proposal_reference v) rs"
  have "refs_wf ?rs" "ordered_proposal_refs ?rs = ordered_proposal_refs rs @ [proposal_reference v]"
    using Cons.prems by (simp_all add: OrderedProposalRefs_add_def refs_wf_def)
  with Cons.IH [of ?rs] Cons.prems show ?case by auto
qed simp

lemma filter_key_map:
  assumes "distinct ks" "\<And>k. k \<in> set ks \<Longrightarrow> target (f k) = Some k"
  shows "filter (\<lambda>x. target x = Some i) (map f ks) = (if i \<in> set ks then [f i] else [])"
  using assms by (induction ks) auto

lemma outcome_map_pool:
  assumes "\<And>r. r \<in> set rs \<Longrightarrow> pool r = Some (g r)"
  shows "outcome_map (\<lambda>r. ok_or (pool r) e) rs = Ok (map g rs)"
  using assms by (induction rs) simp_all

lemma no_target: "is_proposal PAdd qp \<or> always_kept qp \<or> is_proposal PExternalInit qp \<Longrightarrow> target qp = None"
    "is_proposal PAdd qp \<Longrightarrow> \<not> always_kept qp \<and> \<not> is_proposal PExternalInit qp"
  by (cases "proposal qp"; simp add: is_proposal_def always_kept_def target.simps)+

text \<open>The proposals for a leaf, as the map lists them.\<close>

lemma preferred_competing:
  assumes "competing own k qps \<noteq> []"
  shows "preferred (competing own k qps) \<in> set qps" "target (preferred (competing own k qps)) = Some k"
  using preferred_cases(1) [OF assms] unfolding competing_def by auto

lemma filter_loop_listed:
  assumes st: "filter_loop own qps filter_initial = Ok st" and hv: "lists_values hash_values"
  obtains ks where "distinct ks" "set ks = {k. competing own k qps \<noteq> []}"
    "hash_values (member_specific_proposals st) = map (\<lambda>k. preferred (competing own k qps)) ks"
proof -
  note m = filter_loop_members [OF st]
  have "dom (member_specific_proposals st) \<subseteq> set (List.map_filter target qps)"
  proof
    fix i assume "i \<in> dom (member_specific_proposals st)"
    then have "competing own i qps \<noteq> []" by (auto simp: m)
    then obtain qp where "qp \<in> set qps" "target qp = Some i" unfolding competing_def filter_empty_conv by blast
    then show "i \<in> set (List.map_filter target qps)" by (force simp: List.map_filter_def)
  qed
  then have fin: "finite (dom (member_specific_proposals st))" by (rule finite_subset) simp
  from hv [unfolded lists_values_def, rule_format, OF fin] obtain ks where ks: "distinct ks" "set ks = dom (member_specific_proposals st)"
    "hash_values (member_specific_proposals st) = map (\<lambda>k. the (member_specific_proposals st k)) ks"
    by (elim exE conjE) (rule that)
  have "set ks = {k. competing own k qps \<noteq> []}" using ks(2) m by (auto simp: dom_def split: if_splits)
  then show thesis using that [OF ks(1)] ks(3) m by simp
qed

text \<open>The three segments of the queue have no proposal, and so no reference, in common.\<close>

lemma segments_distinct:
  assumes inj: "inj_on proposal_reference (set qps)" and ks: "distinct ks" "set ks = {k. competing own k qps \<noteq> []}"
  defines "all \<equiv> keep_first (filter (is_proposal PAdd) qps) @ kept_others qps @ map (\<lambda>k. preferred (competing own k qps)) ks"
  shows "set all \<subseteq> set qps" "distinct (map proposal_reference all)"
proof -
  let ?A = "keep_first (filter (is_proposal PAdd) qps)" and ?V = "kept_others qps"
  let ?F = "map (\<lambda>k. preferred (competing own k qps)) ks"
  have k: "preferred (competing own k qps) \<in> set qps" "target (preferred (competing own k qps)) = Some k" if "k \<in> set ks" for k
    using preferred_competing [of own k qps] that ks(2) by auto
  have A: "set ?A \<subseteq> set qps" "\<And>qp. qp \<in> set ?A \<Longrightarrow> is_proposal PAdd qp" by auto
  have V: "set ?V \<subseteq> set qps" "\<And>qp. qp \<in> set ?V \<Longrightarrow> always_kept qp \<or> is_proposal PExternalInit qp"
    using set_kept_others [of qps] by blast+
  have F: "set ?F \<subseteq> set qps" "\<And>qp. qp \<in> set ?F \<Longrightarrow> target qp \<noteq> None" using k by auto
  show all: "set all \<subseteq> set qps" using A(1) V(1) F(1) by (simp add: all_def)
  have "distinct ?V" by (simp add: kept_others_def)
  moreover have "inj_on (\<lambda>k. preferred (competing own k qps)) (set ks)" by (rule inj_onI) (metis k(2) option.inject)
  then have "distinct ?F" using ks(1) by (simp add: distinct_map)
  moreover have "set ?A \<inter> set ?V = {}" using A(2) V(2) no_target(2) by blast
  moreover have "set ?A \<inter> set ?F = {}" using A(2) F(2) no_target(1) by blast
  moreover have "set ?V \<inter> set ?F = {}" using V(2) F(2) no_target(1) by blast
  ultimately have "distinct all" unfolding all_def
    by (simp only: distinct_append distinct_keep_first set_append Int_Un_distrib) blast
  then show "distinct (map proposal_reference all)" using inj_on_subset [OF inj all] by (simp only: distinct_map)
qed

text \<open>What the filter returns, segment by segment.\<close>

lemma filter_proposals_segments:
  assumes inj: "inj_on proposal_reference (set qps)" and hv: "lists_values hash_values"
    and ok: "filter_proposals hash_values qps own = Ok (q, own_updates)"
  obtains ks where "queued_proposals q = keep_first (filter (is_proposal PAdd) qps) @ kept_others qps @ map (\<lambda>k. preferred (competing own k qps)) ks"
    "distinct ks" "set ks = {k. competing own k qps \<noteq> []}" "own_updates = list_ex (own_update own) qps"
proof -
  from ok obtain st where st: "filter_loop own qps filter_initial = Ok st"
    unfolding filter_proposals_def outcome_bind_Ok_iff by (elim exE conjE) (rule that)
  let ?A = "keep_first (filter (is_proposal PAdd) qps)" and ?V = "kept_others qps"
  note o = filter_loop_others [OF st inj]
  have add: "ordered_proposal_refs (adds st) = map proposal_reference ?A"
    and valid: "refs_wf (valid_proposals st)" "ordered_proposal_refs (valid_proposals st) = map proposal_reference ?V"
    using o by blast+
  obtain ks where ks: "distinct ks" "set ks = {k. competing own k qps \<noteq> []}"
    "hash_values (member_specific_proposals st) = map (\<lambda>k. preferred (competing own k qps)) ks"
    by (rule filter_loop_listed [OF st hv])
  let ?F = "map (\<lambda>k. preferred (competing own k qps)) ks"
  let ?all = "?A @ ?V @ ?F"
  note all = segments_distinct [OF inj ks(1,2)]
  have n: "map proposal_reference ?all = map proposal_reference ?A @ map proposal_reference ?V @ map proposal_reference ?F"
    by (simp only: map_append)
  have ord: "ordered_proposal_refs (foldl (\<lambda>rs qp. OrderedProposalRefs_add (proposal_reference qp) rs) (valid_proposals st) ?F) =
      map proposal_reference ?V @ map proposal_reference ?F"
    using foldl_refs [OF valid(1), of ?F] all(2) unfolding n distinct_append valid(2) set_map [symmetric] by blast
  have "outcome_map (\<lambda>r. ok_or (proposal_pool st r) PqProposalNotFound) (map proposal_reference ?all) =
      Ok (map (\<lambda>r. the (proposal_pool st r)) (map proposal_reference ?all))"
    by (rule outcome_map_pool) (use all(1) o in auto)
  moreover have "map (\<lambda>r. the (proposal_pool st r)) (map proposal_reference ?all) = ?all"
    unfolding map_map by (rule map_idI) (use all(1) o in auto)
  ultimately have pool: "outcome_map (\<lambda>r. ok_or (proposal_pool st r) PqProposalNotFound)
      (map proposal_reference ?A @ map proposal_reference ?V @ map proposal_reference ?F) = Ok ?all" by (simp only: n)
  have "filter_proposals hash_values qps own =
      Ok (foldl (\<lambda>q qp. ProposalQueue_add qp q) ProposalQueue_default ?all, contains_own_updates st)"
    by (simp only: filter_proposals_def st ks(3) Let_def ord add pool outcome_bind.simps)
  then have q: "q = foldl (\<lambda>q qp. ProposalQueue_add qp q) ProposalQueue_default ?all" "own_updates = contains_own_updates st"
    using ok by (simp_all only: outcome.inject prod.inject)
  have "queued_proposals q = ?all"
    using queued_proposals_adds [OF ProposalQueue_wf_default(1), of ?all] all(2) unfolding q(1) ProposalQueue_wf_default append_Nil by blast
  then show thesis using that [of ks] ks(1,2) q(2) o by simp
qed

text \<open>
  (C7) The queue a committer makes of the proposals it received, entry by entry. First the Adds, then
  the pre-shared keys, context extensions, application data updates, ephemeral and custom proposals and
  the first external init, both in the order received and a repeated proposal once. Then one proposal for
  each leaf that some are about: a removal by the member itself if there is one, else the last removal,
  else the last update, where the committer's own updates do not count; their order is that of the hash
  map. There is nothing else: no reinitialisation, no second external init, no second proposal for a
  leaf. Neither the client of an Add nor the index of a removal is looked at. The flag says whether the
  committer's own updates were among the proposals. Proposals are identified by their references.
\<close>

theorem filter_one_per_leaf:
  assumes inj: "inj_on proposal_reference (set qps)" and hv: "lists_values hash_values"
    and ok: "filter_proposals hash_values qps own = Ok (q, own_updates)"
  shows "(\<exists>ks. distinct ks \<and> set ks = {k. competing own k qps \<noteq> []} \<and>
      queued_proposals q = keep_first (filter (is_proposal PAdd) qps) @ kept_others qps @ map (\<lambda>k. preferred (competing own k qps)) ks) \<and>
    filter (\<lambda>qp. target qp = Some i) (queued_proposals q) =
      (if competing own i qps = [] then [] else [preferred (competing own i qps)]) \<and>
    (own_updates \<longleftrightarrow> list_ex (own_update own) qps)"
proof -
  obtain ks where q: "queued_proposals q = keep_first (filter (is_proposal PAdd) qps) @ kept_others qps @ map (\<lambda>k. preferred (competing own k qps)) ks"
    "distinct ks" "set ks = {k. competing own k qps \<noteq> []}" "own_updates = list_ex (own_update own) qps"
    by (rule filter_proposals_segments [OF inj hv ok])
  have k: "target (preferred (competing own k qps)) = Some k" if "k \<in> set ks" for k
    using preferred_competing(2) [of own k qps] that q(3) by simp
  have "filter (\<lambda>qp. target qp = Some i) (keep_first (filter (is_proposal PAdd) qps)) = []"
    "filter (\<lambda>qp. target qp = Some i) (kept_others qps) = []"
    using no_target(1) set_kept_others [of qps] by (fastforce simp: filter_empty_conv)+
  moreover have "filter (\<lambda>qp. target qp = Some i) (map (\<lambda>k. preferred (competing own k qps)) ks) =
      (if i \<in> set ks then [preferred (competing own i qps)] else [])"
    by (rule filter_key_map [OF q(2) k])
  ultimately have "filter (\<lambda>qp. target qp = Some i) (queued_proposals q) =
      (if competing own i qps = [] then [] else [preferred (competing own i qps)])" using q(1,3) by simp
  then show ?thesis using q by blast
qed

text \<open>
  (C38) The filter does not return if a removal or an update of a member follows a removal by that
  member itself: the comparison of the two runs into the assertion that marks it as unreachable.
\<close>

theorem self_remove_then_remove_panics:
  assumes ok: "filter_loop own before filter_initial = Ok st"
    and a: "a \<in> set before" "proposal a = SelfRemoveProposal" "sender a = Member i"
    and b: "target b = Some i" "\<not> own_update own b" "proposal b \<noteq> SelfRemoveProposal"
  shows "filter_proposals hash_values (before @ b # after) own = Panic"
proof -
  have "a \<in> set (competing own i before)" using a by (simp add: competing_def target.simps own_update.simps)
  then have c: "competing own i before \<noteq> []" "filter (is_proposal PSelfRemove) (competing own i before) \<noteq> []"
    using a(2) by (auto simp: filter_empty_conv proposal_types)
  then have "\<exists>x. member_specific_proposals st i = Some x \<and> proposal x = SelfRemoveProposal"
    using filter_loop_members [OF ok, of i] preferred_cases(2) [OF c] by (simp add: proposal_types)
  moreover have "has_lower_priority_than SelfRemoveProposal (proposal b) = None"
    using target_types [OF b(1)] b(3) by (auto simp: proposal_types)
  ultimately have "filter_step own b st = Panic"
    by (auto simp: filter_step_target [OF b(1,2)] register_member_specific_proposal_def)
  then have "filter_loop own (before @ b # after) filter_initial = Panic"
    using ok by (simp add: filter_loop_append)
  then show ?thesis by (simp add: filter_proposals_def)
qed

theorem self_remove_then_remove_panics_witness:
  "filter_proposals (\<lambda>_. [])
    [\<lparr>proposal = SelfRemoveProposal, proposal_reference = [1], sender = Member 3, proposal_or_ref_type = ProposalByReference\<rparr>,
     \<lparr>proposal = RemoveProposal 3, proposal_reference = [2], sender = Member 1, proposal_or_ref_type = ProposalByReference\<rparr>] 0 = Panic"
proof -
  let ?a = "\<lparr>proposal = SelfRemoveProposal, proposal_reference = [1], sender = Member 3, proposal_or_ref_type = ProposalByReference\<rparr>"
  let ?b = "\<lparr>proposal = RemoveProposal 3, proposal_reference = [2], sender = Member 1, proposal_or_ref_type = ProposalByReference\<rparr>"
  obtain st where "filter_loop 0 [?a] filter_initial = Ok st"
    by (simp add: filter_step_def register_member_specific_proposal_def filter_initial_def)
  from self_remove_then_remove_panics [OF this, of ?a 3 ?b _ "[]"] show ?thesis
    by (simp add: target.simps own_update.simps)
qed

text \<open>Listing the values of a map in the order of its keys.\<close>

definition values_by_key :: "(LeafNodeIndex \<rightharpoonup> 'v) \<Rightarrow> 'v list" where
  "values_by_key m = map (\<lambda>k. the (m k)) (sorted_list_of_set (dom m))"

lemma values_by_key_lists: "lists_values values_by_key"
  unfolding lists_values_def values_by_key_def
  by (metis distinct_sorted_list_of_set set_sorted_list_of_set)

theorem filter_one_per_leaf_witness:
  "\<exists>q. filter_proposals values_by_key
      [\<lparr>proposal = RemoveProposal 3, proposal_reference = [1], sender = Member 1, proposal_or_ref_type = ProposalByReference\<rparr>,
       \<lparr>proposal = SelfRemoveProposal, proposal_reference = [2], sender = Member 3, proposal_or_ref_type = ProposalByReference\<rparr>] 0 =
      Ok (q, False) \<and>
    filter (\<lambda>qp. target qp = Some 3) (queued_proposals q) =
      [\<lparr>proposal = SelfRemoveProposal, proposal_reference = [2], sender = Member 3, proposal_or_ref_type = ProposalByReference\<rparr>]"
proof -
  let ?a = "\<lparr>proposal = RemoveProposal 3, proposal_reference = [1], sender = Member 1, proposal_or_ref_type = ProposalByReference\<rparr>"
  let ?b = "\<lparr>proposal = SelfRemoveProposal, proposal_reference = [2], sender = Member 3, proposal_or_ref_type = ProposalByReference\<rparr>"
  obtain q where q: "filter_proposals values_by_key [?a, ?b] 0 = Ok (q, False)"
    by (simp add: filter_proposals_def filter_step_def register_member_specific_proposal_def filter_initial_def values_by_key_def
        OrderedProposalRefs_new_def OrderedProposalRefs_add_def)
  have "inj_on proposal_reference (set [?a, ?b])" by (simp add: inj_on_def)
  from filter_one_per_leaf [OF this values_by_key_lists q, of 3] q show ?thesis
    by (simp add: competing_def preferred_def target.simps own_update.simps is_proposal_def)
qed

end
