(* ===== verification/TreeSync.thy ===== *)
theory TreeSync
  imports ParentNode
begin

text \<open>
  The ratchet tree and the diffs by which it is changed: \<open>treesync/diff.rs\<close> and the tree of
  \<open>treesync/mod.rs\<close>. A diff over optional leaf and parent nodes is a diff of the array-based
  binary tree. Sets of leaf indices are sets; the iterators run to their end.
\<close>

section \<open>Levels\<close>

definition node_level :: "TreeNodeIndex \<Rightarrow> nat" where
  "node_level x = (case x of Leaf _ \<Rightarrow> 0 | Parent i \<Rightarrow> Suc (LEAST k. \<exists>q. i = node_at k q))"

lemma node_level_tree_node [simp]: "node_level (tree_node k q) = k"
proof (cases k)
  case (Suc j)
  have "(LEAST k. \<exists>r. node_at j q = node_at k r) = j" by (rule Least_equality) auto
  then show ?thesis using Suc by (simp add: node_level_def)
qed (simp add: node_level_def)

lemmas node_level_Parent [simp] = node_level_tree_node [of "Suc k" for k, unfolded tree_node_Suc]

lemma child_level:
  assumes "left i = Some x \<or> right i = Some x"
  shows "node_level x < node_level (Parent i)"
proof -
  obtain k q where i: "i = node_at k q" using node_at_exhaust by blast
  obtain y l where y: "ParentNodeIndex_to_tree_index i = Some y" and l: "level y = Some l"
    using assms by (auto simp: left_def right_def split: bind_splits)
  have "y = node_at (Suc k) q \<and> y < 2 ^ 32"
    using y by (auto simp: i ParentNodeIndex_to_tree_index_def u32_mul_def u32_add_def node_at_Suc mult.commute
        split: bind_splits if_splits)
  with l have b: "node_at (Suc k) q < 2 ^ 32 \<and> k < 31" by (simp add: level_node_at split: if_splits)
  then have "x = tree_node k (2 * q) \<or> x = tree_node k (2 * q + 1)"
    using assms by (auto simp: i left_node_at right_node_at)
  then show ?thesis by (auto simp: i)
qed

section \<open>The diff\<close>

type_synonym TreeSyncDiff = "(LeafNode option, ParentNode option) AbDiff"

datatype TreeSyncAddLeaf = AddLeafLibraryError LibraryError | TreeFull

datatype ApplyUpdatePathError =
    ApplyLibraryError LibraryError | PathLengthMismatch | PathMismatch | ParentHashMismatch | MissingParentHash
  | UnableToDecrypt | MissingSender | ApplyTreeFull | InconsistentSenderIndex | MissingOwnLeaf | MissingCiphertext

datatype TreeSyncDiffError = TsdLibraryError LibraryError | NoPrivateKeyFound

datatype TreeSyncParentHashError = ParentHashLibraryError LibraryError | InvalidParentHash

text \<open>
  The resolution of a node. An unmerged leaf that is blank violates an assertion of the code.
\<close>

function resolution ::
    "TreeSyncDiff \<Rightarrow> TreeNodeIndex \<Rightarrow> LeafNodeIndex set \<Rightarrow> (TreeNodeIndex \<times> NodeReference) list option" where
  "resolution d (Leaf leaf_index) excluded_indices =
     (if leaf_index \<in> excluded_indices then Some []
      else case AbDiff_leaf d leaf_index of
          Some leaf \<Rightarrow> Some [(Leaf leaf_index, LeafRef leaf)]
        | None \<Rightarrow> Some [])"
| "resolution d (Parent parent_index) excluded_indices =
     (case AbDiff_parent d parent_index of
        Some parent_node \<Rightarrow>
          map_option (\<lambda>leaves. (Parent parent_index, ParentRef parent_node) # leaves)
            (those (map (\<lambda>leaf_index.
                 map_option (\<lambda>leaf. (Leaf leaf_index, LeafRef leaf)) (AbDiff_leaf d leaf_index))
               (filter (\<lambda>leaf_index. leaf_index \<notin> excluded_indices) (pn_unmerged_leaves parent_node))))
      | None \<Rightarrow>
         (case (left parent_index, right parent_index) of
            (Some left_child, Some right_child) \<Rightarrow>
              (case (resolution d left_child excluded_indices, resolution d right_child excluded_indices) of
                 (Some l, Some r) \<Rightarrow> Some (l @ r)
               | _ \<Rightarrow> None)
          | _ \<Rightarrow> None))"
  by pat_completeness auto
termination
  by (relation "measure (\<lambda>(d, x, _). node_level x)") (auto simp: child_level)

definition copath_resolutions ::
    "TreeSyncDiff \<Rightarrow> LeafNodeIndex \<Rightarrow> (TreeNodeIndex \<times> NodeReference) list list option" where
  "copath_resolutions d leaf_index =
     (if AbDiff_leaf_count d = MIN_TREE_SIZE then Some []
      else case AbDiff_copath d leaf_index of
          None \<Rightarrow> None
        | Some nodes \<Rightarrow> those (map (\<lambda>node_index. resolution d node_index {}) nodes))"

definition filtered_direct_path :: "TreeSyncDiff \<Rightarrow> LeafNodeIndex \<Rightarrow> ParentNodeIndex list option" where
  "filtered_direct_path d leaf_index = do {
     direct_path \<leftarrow> AbDiff_direct_path d leaf_index;
     copath_resolutions \<leftarrow> copath_resolutions d leaf_index;
     debug_assert (length direct_path = length copath_resolutions);
     Some (map fst (filter (\<lambda>(index, resolution). resolution \<noteq> []) (zip direct_path copath_resolutions))) }"

definition filtered_copath :: "TreeSyncDiff \<Rightarrow> LeafNodeIndex \<Rightarrow> TreeNodeIndex list option" where
  "filtered_copath d leaf_index = do {
     copath \<leftarrow> AbDiff_copath d leaf_index;
     copath_resolutions \<leftarrow> copath_resolutions d leaf_index;
     debug_assert (length copath = length copath_resolutions);
     Some (map fst (filter (\<lambda>(index, resolution). resolution \<noteq> []) (zip copath copath_resolutions))) }"

fun filter_excluded ::
    "LeafNodeIndex set \<Rightarrow> (TreeNodeIndex \<times> NodeReference) list \<Rightarrow> (TreeNodeIndex \<times> NodeReference) list" where
  "filter_excluded exclusion_list [] = []"
| "filter_excluded exclusion_list ((Leaf leaf_index, node) # rs) =
     (if leaf_index \<in> exclusion_list then filter_excluded exclusion_list rs
      else (Leaf leaf_index, node) # filter_excluded exclusion_list rs)"
| "filter_excluded exclusion_list ((Parent index, node) # rs) =
     (Parent index, node) # filter_excluded exclusion_list rs"

definition filtered_copath_resolutions ::
    "TreeSyncDiff \<Rightarrow> LeafNodeIndex \<Rightarrow> LeafNodeIndex set \<Rightarrow> (TreeNodeIndex \<times> NodeReference) list list option" where
  "filtered_copath_resolutions d leaf_index exclusion_list =
     (if AbDiff_leaf_count d = 1 then Some []
      else do {
        copath \<leftarrow> AbDiff_copath d leaf_index;
        resolutions \<leftarrow> those (map (\<lambda>node_index. resolution d node_index {}) copath);
        Some (map (filter_excluded exclusion_list) (filter (\<lambda>resolution. resolution \<noteq> []) resolutions)) })"

section \<open>Adding, updating and removing leaves\<close>

definition rightmost_full_leaf :: "TreeSyncDiff \<Rightarrow> LeafNodeIndex" where
  "rightmost_full_leaf d =
     fold (\<lambda>(leaf_index, leaf) index. if leaf \<noteq> None then leaf_index else index) (AbDiff_leaves d) 0"

lemma TreeSize_dec_less: "TreeSize_dec sz = Some s \<Longrightarrow> s < sz"
  by (auto simp: TreeSize_dec_def u32_sub_def split: bind_splits if_splits)

function trim_loop :: "LeafNodeIndex \<Rightarrow> TreeSyncDiff \<Rightarrow> TreeSyncDiff option" where
  "trim_loop rightmost d =
     (if TreeSize_leaf_is_left (diff_size d) rightmost
      then case AbDiff_shrink_tree d of
          (d', Ok _) \<Rightarrow> trim_loop rightmost d'
        | _ \<Rightarrow> None
      else Some d)"
  by pat_completeness auto
termination
  by (relation "measure (\<lambda>(_, d). diff_size d)")
    (auto simp: AbDiff_shrink_tree_def dest: TreeSize_dec_less split: if_splits option.splits)

declare trim_loop.simps [simp del]

definition trim_tree :: "TreeSyncDiff \<Rightarrow> TreeSyncDiff option" where
  "trim_tree d =
     (if AbDiff_leaf_count d = MIN_TREE_SIZE then Some d else trim_loop (rightmost_full_leaf d) d)"

definition update_leaf :: "LeafNode \<Rightarrow> LeafNodeIndex \<Rightarrow> TreeSyncDiff \<Rightarrow> TreeSyncDiff option" where
  "update_leaf leaf_node leaf_index d = do {
     d \<leftarrow> AbDiff_replace_leaf d leaf_index (Some leaf_node);
     AbDiff_set_direct_path_to_node d leaf_index None }"

definition blank_leaf :: "LeafNodeIndex \<Rightarrow> TreeSyncDiff \<Rightarrow> TreeSyncDiff option" where
  "blank_leaf leaf_index d = do {
     d \<leftarrow> AbDiff_replace_leaf d leaf_index None;
     AbDiff_set_direct_path_to_node d leaf_index None }"

fun free_leaf_loop :: "(LeafNodeIndex \<times> LeafNode option) list \<Rightarrow> nat \<Rightarrow> LeafNodeIndex" where
  "free_leaf_loop [] leaf_count = leaf_count"
| "free_leaf_loop ((leaf_index, leaf) # leaves) leaf_count =
     (if leaf = None then leaf_index else free_leaf_loop leaves (leaf_count + 1))"

definition free_leaf_index :: "TreeSyncDiff \<Rightarrow> LeafNodeIndex" where
  "free_leaf_index d = free_leaf_loop (AbDiff_leaves d) 0"

lemma grow_tree_size:
  "AbDiff_grow_tree d = (d', Ok u) \<Longrightarrow> diff_size d < diff_size d'"
  by (auto simp: AbDiff_grow_tree_def TreeSize_inc_def u32_mul_def u32_add_def split: bind_splits if_splits option.splits)

function grow_to :: "LeafNodeIndex \<Rightarrow> TreeSyncDiff \<Rightarrow> TreeSyncDiff \<times> (unit, TreeSyncAddLeaf) outcome" where
  "grow_to leaf_index d =
     (if leaf_index \<ge> TreeSize_leaf_count (diff_size d)
      then case AbDiff_grow_tree d of
          (d', Ok _) \<Rightarrow> grow_to leaf_index d'
        | (d', Err _) \<Rightarrow> (d', Err TreeFull)
        | (d', Panic) \<Rightarrow> (d', Panic)
      else (d, Ok ()))"
  by pat_completeness auto
termination
  by (relation "measure (\<lambda>(leaf_index, d). 2 * leaf_index - diff_size d)")
    (auto simp: TreeSize_leaf_count_def dest!: grow_tree_size [OF sym])

declare grow_to.simps [simp del]

definition add_leaf :: "LeafNode \<Rightarrow> TreeSyncDiff \<Rightarrow> TreeSyncDiff \<times> (LeafNodeIndex, TreeSyncAddLeaf) outcome" where
  "add_leaf leaf_node d =
     (let leaf_index = free_leaf_index d in
      try_then (grow_to leaf_index d) (\<lambda>d _.
        case (do {
            d \<leftarrow> AbDiff_replace_leaf d leaf_index (Some leaf_node);
            path \<leftarrow> AbDiff_direct_path d leaf_index;
            for_each (\<lambda>parent_index d.
                AbDiff_parent_mut d parent_index (map_option (add_unmerged_leaf leaf_index))) path d }) of
          Some d' \<Rightarrow> (d', Ok leaf_index)
        | None \<Rightarrow> (d, Panic)))"

section \<open>Hashes\<close>

function compute_tree_hash ::
    "'a tree_provider_scheme \<Rightarrow> Ciphersuite \<Rightarrow> TreeSyncDiff \<Rightarrow> TreeNodeIndex \<Rightarrow> LeafNodeIndex set \<Rightarrow>
     (bytes, LibraryError) outcome" where
  "compute_tree_hash p c d (Leaf leaf_index) exclusion_list =
     (if leaf_index \<in> exclusion_list then TreeSyncLeafNode_compute_tree_hash p c None leaf_index
      else TreeSyncLeafNode_compute_tree_hash p c (AbDiff_leaf d leaf_index) leaf_index)"
| "compute_tree_hash p c d (Parent parent_index) exclusion_list =
     (case left parent_index of
        None \<Rightarrow> Panic
      | Some left_child \<Rightarrow>
          outcome_bind (compute_tree_hash p c d left_child exclusion_list) (\<lambda>left_hash.
          case right parent_index of
            None \<Rightarrow> Panic
          | Some right_child \<Rightarrow>
              outcome_bind (compute_tree_hash p c d right_child exclusion_list) (\<lambda>right_hash.
              TreeSyncParentNode_compute_tree_hash p c (AbDiff_parent d parent_index) left_hash right_hash
                exclusion_list)))"
  by pat_completeness auto
termination
  by (relation "measure (\<lambda>(p, c, d, x, _). node_level x)") (auto simp: child_level)

definition compute_tree_hashes ::
    "'a tree_provider_scheme \<Rightarrow> Ciphersuite \<Rightarrow> TreeSyncDiff \<Rightarrow> (bytes, LibraryError) outcome" where
  "compute_tree_hashes p c d =
     outcome_bind (or_panic (AbDiff_root d)) (\<lambda>root. compute_tree_hash p c d root {})"

text \<open>
  The loop runs over the path and the copath from the top; it gives the path with the hashes set, in
  the order of the loop, and the parent hash for the leaf.
\<close>

fun set_parent_hashes_loop ::
    "'a tree_provider_scheme \<Rightarrow> Ciphersuite \<Rightarrow> TreeSyncDiff \<Rightarrow> ((ParentNodeIndex \<times> ParentNode) \<times> TreeNodeIndex) list \<Rightarrow>
     bytes \<Rightarrow> ((ParentNodeIndex \<times> ParentNode) list \<times> bytes, LibraryError) outcome" where
  "set_parent_hashes_loop p c d [] previous_parent_hash = Ok ([], previous_parent_hash)"
| "set_parent_hashes_loop p c d (((index, path_node), copath_node) # rest) previous_parent_hash =
     (let path_node = set_parent_hash previous_parent_hash path_node in
      outcome_bind (compute_tree_hash p c d copath_node {}) (\<lambda>original_sibling_tree_hash.
      outcome_bind (compute_parent_hash p c path_node original_sibling_tree_hash) (\<lambda>parent_hash.
      outcome_bind (set_parent_hashes_loop p c d rest parent_hash) (\<lambda>(path, last).
        Ok ((index, path_node) # path, last)))))"

definition set_parent_hashes ::
    "'a tree_provider_scheme \<Rightarrow> Ciphersuite \<Rightarrow> TreeSyncDiff \<Rightarrow> (ParentNodeIndex \<times> ParentNode) list \<Rightarrow> LeafNodeIndex \<Rightarrow>
     ((ParentNodeIndex \<times> ParentNode) list \<times> bytes, ApplyUpdatePathError) outcome" where
  "set_parent_hashes p c d path leaf_index =
     (if path = [] then Ok (path, [])
      else outcome_bind (or_panic (filtered_copath d leaf_index)) (\<lambda>copath.
        if length copath \<noteq> length path then Panic
        else outcome_bind (map_err ApplyLibraryError (set_parent_hashes_loop p c d (zip (rev path) (rev copath)) []))
          (\<lambda>(path', parent_hash). Ok (rev path', parent_hash))))"

definition process_update_path ::
    "'a tree_provider_scheme \<Rightarrow> Ciphersuite \<Rightarrow> LeafNodeIndex \<Rightarrow> (ParentNodeIndex \<times> ParentNode) list \<Rightarrow> TreeSyncDiff \<Rightarrow>
     TreeSyncDiff \<times> (bytes, ApplyUpdatePathError) outcome" where
  "process_update_path p c leaf_index path d =
     try_then (d, set_parent_hashes p c d path leaf_index) (\<lambda>d (path, parent_hash).
       case (do {
           direct_path_nodes \<leftarrow> AbDiff_direct_path d leaf_index;
           d \<leftarrow> for_each (\<lambda>node d. AbDiff_parent_mut d node (\<lambda>_. None)) direct_path_nodes d;
           for_each (\<lambda>(index, node) d. AbDiff_parent_mut d index (\<lambda>_. Some node)) path d }) of
         Some d' \<Rightarrow> (d', Ok parent_hash)
       | None \<Rightarrow> (d, Panic))"

section \<open>Update paths\<close>

datatype CommitType = External CredentialWithKey | MemberCommit

record OwnUpdatePathOverride =
  override_path_secret :: PathSecret
  leaf_encryption_keypair :: EncryptionKeyPair

definition TreeSyncDiff_derive_path ::
    "(nat \<Rightarrow> (bytes, unit) outcome) \<Rightarrow> 'a tree_provider_scheme \<Rightarrow> Ciphersuite \<Rightarrow> LeafNodeIndex \<Rightarrow> PathSecret option \<Rightarrow>
     TreeSyncDiff \<Rightarrow> (PathDerivationResult, LibraryError) outcome" where
  "TreeSyncDiff_derive_path rand p c leaf_index path_secret_override d =
     outcome_bind
       (case path_secret_override of Some s \<Rightarrow> Ok s | None \<Rightarrow> map_err LibraryCryptoError (Secret_random c rand))
       (\<lambda>path_secret.
     outcome_bind (or_panic (filtered_direct_path d leaf_index)) (\<lambda>path_indices.
       ParentNode_derive_path p c path_secret path_indices))"

fun own_path_error :: "ApplyUpdatePathError \<Rightarrow> TreeSyncAddLeaf" where
  "own_path_error (ApplyLibraryError e) = AddLeafLibraryError e"
| "own_path_error _ = AddLeafLibraryError (LibraryCustom ''Unexpected error in process_update_path'')"

definition apply_own_update_path ::
    "(nat \<Rightarrow> (bytes, unit) outcome) \<Rightarrow> (nat \<Rightarrow> (bytes, unit) outcome) \<Rightarrow> 'a tree_provider_scheme \<Rightarrow> signer \<Rightarrow>
     Ciphersuite \<Rightarrow> CommitType \<Rightarrow> GroupId \<Rightarrow> LeafNodeIndex \<Rightarrow> UpdateLeafNodeParams \<Rightarrow> OwnUpdatePathOverride option \<Rightarrow>
     TreeSyncDiff \<Rightarrow>
     TreeSyncDiff \<times> (PlainUpdatePathNode list \<times> EncryptionKeyPair list \<times> CommitSecret, TreeSyncAddLeaf) outcome" where
  "apply_own_update_path rand_path rand_leaf p signer c commit_type group_id leaf_index leaf_node_params vc_override d =
     try_then (case commit_type of External _ \<Rightarrow> add_leaf new_placeholder d | MemberCommit \<Rightarrow> (d, Ok 0)) (\<lambda>d _.
     try_then
       (d, map_err AddLeafLibraryError
         (TreeSyncDiff_derive_path rand_path p c leaf_index (map_option override_path_secret vc_override) d))
       (\<lambda>d (path, update_path_nodes, parent_keypairs, commit_secret).
     try_then (let (d, r) = process_update_path p c leaf_index path d in (d, map_err own_path_error r))
       (\<lambda>d parent_hash.
     try_then
       (d, map_err AddLeafLibraryError
         (new_with_parent_hash rand_leaf p c parent_hash leaf_node_params group_id leaf_index signer
           (map_option leaf_encryption_keypair vc_override)))
       (\<lambda>d (leaf_node, node_keypair).
     case AbDiff_replace_leaf d leaf_index (Some leaf_node) of
       None \<Rightarrow> (d, Panic)
     | Some d' \<Rightarrow> (d', Ok (update_path_nodes, node_keypair # parent_keypairs, commit_secret))))))"

record UpdatePath =
  up_leaf_node :: LeafNode
  up_nodes :: "UpdatePathNode list"

fun add_leaf_error :: "TreeSyncAddLeaf \<Rightarrow> ApplyUpdatePathError" where
  "add_leaf_error (AddLeafLibraryError e) = ApplyLibraryError e"
| "add_leaf_error TreeFull = ApplyTreeFull"

definition apply_received_update_path ::
    "'a tree_provider_scheme \<Rightarrow> Ciphersuite \<Rightarrow> LeafNodeIndex \<Rightarrow> UpdatePath \<Rightarrow> TreeSyncDiff \<Rightarrow>
     TreeSyncDiff \<times> (unit, ApplyUpdatePathError) outcome" where
  "apply_received_update_path p c sender_leaf_index update_path d =
     try_then
       (if AbDiff_leaf d sender_leaf_index = None \<or> sender_leaf_index \<ge> AbDiff_leaf_count d
        then try_then (let (d, r) = add_leaf (up_leaf_node update_path) d in (d, map_err add_leaf_error r))
          (\<lambda>d new_leaf_index.
             if sender_leaf_index \<noteq> new_leaf_index then (d, Err InconsistentSenderIndex) else (d, Ok ()))
        else (d, Ok ())) (\<lambda>d _.
     try_then (d, or_panic (filtered_direct_path d sender_leaf_index)) (\<lambda>d filtered_path.
     if length filtered_path \<noteq> length (up_nodes update_path) then (d, Err PathLengthMismatch)
     else
       let path = zip filtered_path (map (\<lambda>node. ParentNode_from (upn_public_key node)) (up_nodes update_path)) in
       try_then (process_update_path p c sender_leaf_index path d) (\<lambda>d parent_hash.
       try_then (d, ok_or (ln_parent_hash (up_leaf_node update_path)) MissingParentHash) (\<lambda>d leaf_node_parent_hash.
       if leaf_node_parent_hash \<noteq> parent_hash then (d, Err ParentHashMismatch)
       else case AbDiff_replace_leaf d sender_leaf_index (Some (up_leaf_node update_path)) of
           None \<Rightarrow> (d, Panic)
         | Some d' \<Rightarrow> (d', Ok ())))))"

section \<open>Verification of parent hashes\<close>

fun node_parent_hash_is :: "bytes \<Rightarrow> TreeNodeIndex \<times> NodeReference \<Rightarrow> bool" where
  "node_parent_hash_is h (_, LeafRef leaf) \<longleftrightarrow> (case ln_parent_hash leaf of Some ph \<Rightarrow> ph = h | None \<Rightarrow> False)"
| "node_parent_hash_is h (_, ParentRef parent_node) \<longleftrightarrow> pn_parent_hash parent_node = h"

definition verify_parent_hash ::
    "'a tree_provider_scheme \<Rightarrow> Ciphersuite \<Rightarrow> TreeSyncDiff \<Rightarrow> ParentNodeIndex \<Rightarrow> ParentNode \<Rightarrow>
     (unit, TreeSyncParentHashError) outcome" where
  "verify_parent_hash p c d parent_index parent_node =
     outcome_bind (or_panic (left parent_index)) (\<lambda>left_child.
     outcome_bind (or_panic (right parent_index)) (\<lambda>right_child.
     let exclusion_list = set (pn_unmerged_leaves parent_node) in
     outcome_bind (map_err ParentHashLibraryError (compute_tree_hash p c d left_child exclusion_list)) (\<lambda>oth_left.
     outcome_bind (map_err ParentHashLibraryError (compute_tree_hash p c d right_child exclusion_list)) (\<lambda>oth_right.
     outcome_bind (map_err ParentHashLibraryError (compute_parent_hash p c parent_node oth_right)) (\<lambda>parent_hash_left.
     outcome_bind (map_err ParentHashLibraryError (compute_parent_hash p c parent_node oth_left)) (\<lambda>parent_hash_right.
     outcome_bind (or_panic (resolution d left_child exclusion_list)) (\<lambda>left_resolution.
     outcome_bind (or_panic (resolution d right_child exclusion_list)) (\<lambda>right_resolution.
     let left_descendant = find (node_parent_hash_is parent_hash_left) left_resolution;
         right_descendant = find (node_parent_hash_is parent_hash_right) right_resolution in
     if (left_descendant = None) \<noteq> (right_descendant \<noteq> None) then Err InvalidParentHash else Ok ()))))))))"

fun verify_parent_hashes_loop ::
    "'a tree_provider_scheme \<Rightarrow> Ciphersuite \<Rightarrow> TreeSyncDiff \<Rightarrow> (ParentNodeIndex \<times> ParentNode option) list \<Rightarrow>
     (unit, TreeSyncParentHashError) outcome" where
  "verify_parent_hashes_loop p c d [] = Ok ()"
| "verify_parent_hashes_loop p c d ((parent_index, node) # parents) =
     (case node of
        None \<Rightarrow> verify_parent_hashes_loop p c d parents
      | Some parent_node \<Rightarrow>
          outcome_bind (verify_parent_hash p c d parent_index parent_node)
            (\<lambda>_. verify_parent_hashes_loop p c d parents))"

definition verify_parent_hashes ::
    "'a tree_provider_scheme \<Rightarrow> Ciphersuite \<Rightarrow> TreeSyncDiff \<Rightarrow> (unit, TreeSyncParentHashError) outcome" where
  "verify_parent_hashes p c d = verify_parent_hashes_loop p c d (AbDiff_parents d)"

section \<open>Finding keys\<close>

definition subtree_root_position ::
    "TreeSyncDiff \<Rightarrow> LeafNodeIndex \<Rightarrow> LeafNodeIndex \<Rightarrow> (nat, TreeSyncDiffError) outcome" where
  "subtree_root_position d leaf_index_1 leaf_index_2 =
     outcome_bind (or_panic (AbDiff_lowest_common_ancestor d leaf_index_1 leaf_index_2)) (\<lambda>subtree_root.
     outcome_bind (or_panic (filtered_direct_path d leaf_index_1)) (\<lambda>path.
     ok_or (map_option fst (find (\<lambda>(_, index). index = subtree_root) (enumerate 0 path)))
       (TsdLibraryError (LibraryCustom ''index should be in the direct path''))))"

fun find_owned_key ::
    "EncryptionKeyPair list \<Rightarrow> (nat \<times> EncryptionKey) list \<Rightarrow> (EncryptionKeyPair \<times> nat) option" where
  "find_owned_key owned_keys [] = None"
| "find_owned_key owned_keys ((position, pk) # rest) =
     (case find (\<lambda>owned_keypair. kp_public_key owned_keypair = pk) owned_keys of
        Some keypair \<Rightarrow> Some (keypair, position)
      | None \<Rightarrow> find_owned_key owned_keys rest)"

definition decryption_key ::
    "TreeSyncDiff \<Rightarrow> LeafNodeIndex \<Rightarrow> LeafNodeIndex set \<Rightarrow> EncryptionKeyPair list \<Rightarrow> LeafNodeIndex \<Rightarrow>
     (EncryptionPrivateKey \<times> nat, TreeSyncDiffError) outcome" where
  "decryption_key d sender_leaf_index excluded_indices owned_keys leaf_index =
     outcome_bind (or_panic (AbDiff_subtree_root_copath_node d sender_leaf_index leaf_index)) (\<lambda>copath_node.
     outcome_bind (or_panic (resolution d copath_node excluded_indices)) (\<lambda>nodes.
     case find_owned_key owned_keys (enumerate 0 (map (\<lambda>(_, node_ref). node_encryption_key node_ref) nodes)) of
       Some (keypair, resolution_position) \<Rightarrow> Ok (kp_private_key keypair, resolution_position)
     | None \<Rightarrow> Err NoPrivateKeyFound))"

definition filtered_common_direct_path ::
    "TreeSyncDiff \<Rightarrow> LeafNodeIndex \<Rightarrow> LeafNodeIndex \<Rightarrow> ParentNodeIndex list option" where
  "filtered_common_direct_path d leaf_index_1 leaf_index_2 = do {
     x_path \<leftarrow> filtered_direct_path d leaf_index_1;
     y_path \<leftarrow> filtered_direct_path d leaf_index_2;
     Some (rev (map fst (takeWhile (\<lambda>(x, y). x = y) (zip (rev x_path) (rev y_path))))) }"

definition encryption_keys :: "TreeSyncDiff \<Rightarrow> LeafNodeIndex \<Rightarrow> EncryptionKey list option" where
  "encryption_keys d leaf_index =
     map_option (\<lambda>path.
       (case AbDiff_leaf d leaf_index of Some leaf \<Rightarrow> [pl_encryption_key (payload leaf)] | None \<Rightarrow> []) @
       List.map_filter (\<lambda>parent_index.
         case AbDiff_parent d parent_index of
           Some node \<Rightarrow> if leaf_index \<notin> set (pn_unmerged_leaves node) then Some (pn_encryption_key node) else None
         | None \<Rightarrow> None) path)
     (filtered_direct_path d leaf_index)"

section \<open>Staging, and the tree itself\<close>

record StagedTreeSyncDiff =
  staged_diff :: "(LeafNode option, ParentNode option) StagedAbDiff"
  new_tree_hash :: bytes

definition into_staged_diff ::
    "'a tree_provider_scheme \<Rightarrow> Ciphersuite \<Rightarrow> TreeSyncDiff \<Rightarrow> (StagedTreeSyncDiff, LibraryError) outcome" where
  "into_staged_diff p c d =
     outcome_bind (compute_tree_hashes p c d) (\<lambda>new_tree_hash.
     outcome_bind (or_panic (debug_assert (verify_parent_hashes p c d = Ok ()))) (\<lambda>_.
       Ok \<lparr>staged_diff = StagedAbDiff_from d, new_tree_hash = new_tree_hash\<rparr>))"

record TreeSync =
  ts_tree :: "(LeafNode option, ParentNode option) ABinaryTree"
  ts_tree_hash :: bytes

definition TreeSync_empty_diff :: "TreeSync \<Rightarrow> TreeSyncDiff option" where
  "TreeSync_empty_diff t = ABinaryTree_empty_diff (ts_tree t)"

definition TreeSync_merge_diff :: "StagedTreeSyncDiff \<Rightarrow> TreeSync \<Rightarrow> TreeSync option" where
  "TreeSync_merge_diff s t =
     map_option (\<lambda>tree. \<lparr>ts_tree = tree, ts_tree_hash = new_tree_hash s\<rparr>)
       (ABinaryTree_merge_diff (ts_tree t) (staged_diff s))"

definition populate_parent_hashes ::
    "'a tree_provider_scheme \<Rightarrow> Ciphersuite \<Rightarrow> TreeSync \<Rightarrow> (TreeSync, LibraryError) outcome" where
  "populate_parent_hashes p c t =
     outcome_bind (or_panic (TreeSync_empty_diff t)) (\<lambda>diff.
     outcome_bind (into_staged_diff p c diff) (\<lambda>staged.
       or_panic (TreeSync_merge_diff staged t)))"

definition TreeSync_new ::
    "(nat \<Rightarrow> (bytes, unit) outcome) \<Rightarrow> (nat \<Rightarrow> (bytes, unit) outcome) \<Rightarrow> 'a tree_provider_scheme \<Rightarrow> signer \<Rightarrow>
     Ciphersuite \<Rightarrow> CredentialWithKey \<Rightarrow> Lifetime \<Rightarrow> Capabilities \<Rightarrow> Extensions \<Rightarrow>
     (TreeSync \<times> CommitSecret \<times> EncryptionKeyPair, LibraryError) outcome" where
  "TreeSync_new rand_key rand_path p signer c credential_with_key lifetime capabilities extensions =
     outcome_bind
       (LeafNode_new rand_key p signer c
         \<lparr>nlp_credential_with_key = credential_with_key, nlp_leaf_node_source = KeyPackageSource lifetime,
          nlp_capabilities = capabilities, nlp_extensions = extensions, nlp_tree_info_tbs = KeyPackageTbs\<rparr>)
       (\<lambda>(leaf, encryption_key_pair).
     outcome_bind (map_err LibraryCryptoError (Secret_random c rand_path)) (\<lambda>path_secret.
     outcome_bind (derive_path_secret p c path_secret) (\<lambda>commit_secret.
     outcome_bind
       (map_err (\<lambda>_. LibraryCustom ''Unexpected error creating the binary tree.'')
         (ABinaryTree_new None None [TreeNode_Leaf (Some leaf)])) (\<lambda>tree.
     outcome_bind (populate_parent_hashes p c \<lparr>ts_tree = tree, ts_tree_hash = []\<rparr>) (\<lambda>tree_sync.
       Ok (tree_sync, commit_secret, encryption_key_pair))))))"

definition TreeSync_free_leaf_index :: "TreeSync \<Rightarrow> LeafNodeIndex option" where
  "TreeSync_free_leaf_index t = map_option free_leaf_index (TreeSync_empty_diff t)"

end
