(* ===== verification/Resolution.thy ===== *)
theory Resolution
  imports TreeSync
begin

text \<open>
  What the code relies on of a ratchet tree, and what resolutions are on such a tree. A node is given
  by its level and its position in the level. Every leaf that is not blank is covered by exactly one
  node of the resolution of a node above it, and the filtered paths are the levels at which the other
  half has a member.
\<close>

section \<open>Well-formed ratchet trees\<close>

text \<open>A leaf that is not blank lies below the node at level \<open>k\<close> and position \<open>q\<close>.\<close>

definition occupied :: "TreeSyncDiff \<Rightarrow> nat \<Rightarrow> nat \<Rightarrow> bool" where
  "occupied d k q \<longleftrightarrow> (\<exists>i. AbDiff_leaf d i \<noteq> None \<and> i div 2 ^ k = q)"

definition parent_ok :: "TreeSyncDiff \<Rightarrow> nat \<Rightarrow> nat \<Rightarrow> ParentNode \<Rightarrow> bool" where
  "parent_ok d k q pn \<longleftrightarrow>
     sorted_wrt (<) (pn_unmerged_leaves pn) \<and>
     (\<forall>i \<in> set (pn_unmerged_leaves pn). i div 2 ^ Suc k = q \<and> AbDiff_leaf d i \<noteq> None) \<and>
     occupied d k (2 * q) \<and> occupied d k (2 * q + 1)"

definition TreeSync_wf :: "nat \<Rightarrow> TreeSyncDiff \<Rightarrow> bool" where
  "TreeSync_wf n d \<longleftrightarrow>
     AbDiff_wf d \<and> n < 30 \<and> diff_size d = depth_size n \<and>
     default_leaf (original_tree d) = None \<and> default_parent (original_tree d) = None \<and>
     (\<forall>i < 2 ^ n. AbDiff_has_leaf d i \<longrightarrow> (\<forall>j < i. AbDiff_has_leaf d j)) \<and>
     (\<forall>k q pn. in_tree n (Suc k) q \<longrightarrow> AbDiff_parent d (node_at k q) = Some pn \<longrightarrow> parent_ok d k q pn)"

lemma TreeSync_wfD:
  assumes "TreeSync_wf n d"
  shows "AbDiff_wf d" "n < 30" "diff_size d = depth_size n"
    "default_leaf (original_tree d) = None" "default_parent (original_tree d) = None"
    "\<And>i j. i < 2 ^ n \<Longrightarrow> AbDiff_has_leaf d i \<Longrightarrow> j < i \<Longrightarrow> AbDiff_has_leaf d j"
    "\<And>k q pn. in_tree n (Suc k) q \<Longrightarrow> AbDiff_parent d (node_at k q) = Some pn \<Longrightarrow> parent_ok d k q pn"
  using assms unfolding TreeSync_wf_def by blast+

lemma wf_depth: "TreeSync_wf n d \<Longrightarrow> n < 31"
  by (drule TreeSync_wfD(2)) simp

lemma wf_leaf_count: "TreeSync_wf n d \<Longrightarrow> AbDiff_leaf_count d = 2 ^ n"
  by (simp add: AbDiff_leaf_count_def TreeSync_wfD(3))

lemma full_leaf_bound:
  assumes "TreeSync_wf n d" "AbDiff_leaf d i \<noteq> None"
  shows "i < 2 ^ n"
proof (rule ccontr)
  assume i: "\<not> i < 2 ^ n"
  note wf = TreeSync_wfD [OF assms(1)]
  have "i \<notin> fst ` set (leaf_diff d)"
  proof
    assume "i \<in> fst ` set (leaf_diff d)"
    from AbDiff_wfD(5) [OF wf(1) this] i show False by (simp only: wf_leaf_count [OF assms(1)] not_True_eq_False)
  qed
  then have "btm_get (leaf_diff d) i = None" by (auto simp: btm_get_def map_of_eq_None_iff)
  then show False
    using assms(2) i AbDiff_wfD(7) [OF wf(1)] wf(4) by (simp add: AbDiff_leaf_def wf_leaf_count [OF assms(1)])
qed

lemma div_power_step: "(i::nat) div 2 ^ Suc k = i div 2 ^ k div 2"
  by (simp only: power_Suc2 div_mult2_eq)

lemma half_iff: "(x::nat) div 2 = q \<longleftrightarrow> x = 2 * q \<or> x = 2 * q + 1"
  by presburger

lemma flip_cases: "flip x = 2 * (x div 2) \<or> flip x = 2 * (x div 2) + 1"
  unfolding flip_def by presburger

lemma occupied_Suc: "occupied d (Suc k) q \<longleftrightarrow> occupied d k (2 * q) \<or> occupied d k (2 * q + 1)"
proof -
  have "i div 2 ^ Suc k = q \<longleftrightarrow> i div 2 ^ k = 2 * q \<or> i div 2 ^ k = 2 * q + 1" for i
    unfolding div_power_step by (rule half_iff)
  then show ?thesis unfolding occupied_def by blast
qed

lemma occupied_flip:
  assumes "parent_ok d k (i div 2 ^ Suc k) pn"
  shows "occupied d k (flip (i div 2 ^ k))"
  using assms flip_cases [of "i div 2 ^ k"] unfolding parent_ok_def div_power_step by metis

section \<open>Resolutions\<close>

fun unmerged_of :: "NodeReference \<Rightarrow> LeafNodeIndex set" where
  "unmerged_of (LeafRef leaf) = {}"
| "unmerged_of (ParentRef pn) = set (pn_unmerged_leaves pn)"

text \<open>An entry of a resolution covers a leaf: a key that the owner of the leaf has.\<close>

definition covers :: "TreeNodeIndex \<times> NodeReference \<Rightarrow> LeafNodeIndex \<Rightarrow> bool" where
  "covers e i \<longleftrightarrow> (\<exists>k. fst e = tree_node k (i div 2 ^ k)) \<and> i \<notin> unmerged_of (snd e)"

definition node_ref :: "TreeSyncDiff \<Rightarrow> nat \<Rightarrow> nat \<Rightarrow> NodeReference option" where
  "node_ref d k q =
     (case k of 0 \<Rightarrow> map_option LeafRef (AbDiff_leaf d q)
      | Suc j \<Rightarrow> map_option ParentRef (AbDiff_parent d (node_at j q)))"

definition entry_below :: "TreeSyncDiff \<Rightarrow> nat \<Rightarrow> nat \<Rightarrow> TreeNodeIndex \<times> NodeReference \<Rightarrow> bool" where
  "entry_below d k q e \<longleftrightarrow>
     (\<exists>j p. fst e = tree_node j p \<and> j \<le> k \<and> p div 2 ^ (k - j) = q \<and> node_ref d j p = Some (snd e))"

lemma entry_below_Suc:
  assumes "entry_below d k (2 * q) e \<or> entry_below d k (2 * q + 1) e"
  shows "entry_below d (Suc k) q e"
proof -
  obtain j p where e: "fst e = tree_node j p" "j \<le> k" "p div 2 ^ (k - j) = 2 * q \<or> p div 2 ^ (k - j) = 2 * q + 1"
    "node_ref d j p = Some (snd e)"
    using assms by (auto simp: entry_below_def)
  then have "p div 2 ^ (Suc k - j) = q" by (auto simp: Suc_diff_le div_power_step simp del: power_Suc)
  with e show ?thesis unfolding entry_below_def by (metis le_SucI)
qed

lemma covers_below:
  assumes "entry_below d k q e" "covers e i"
  shows "i div 2 ^ k = q"
proof -
  obtain j where "fst e = tree_node j (i div 2 ^ j)" using assms(2) by (auto simp: covers_def)
  with assms(1) have "j \<le> k" "i div 2 ^ j div 2 ^ (k - j) = q" by (auto simp: entry_below_def)
  then show ?thesis by (simp flip: div_mult2_eq power_add)
qed

lemma resolution_Suc:
  assumes "in_tree n (Suc k) q" "n < 31"
  shows "resolution d (tree_node (Suc k) q) ex =
    (case AbDiff_parent d (node_at k q) of
       Some pn \<Rightarrow>
         map_option (\<lambda>leaves. (Parent (node_at k q), ParentRef pn) # leaves)
           (those (map (\<lambda>i. map_option (\<lambda>leaf. (Leaf i, LeafRef leaf)) (AbDiff_leaf d i))
              (filter (\<lambda>i. i \<notin> ex) (pn_unmerged_leaves pn))))
     | None \<Rightarrow>
        (case (resolution d (tree_node k (2 * q)) ex, resolution d (tree_node k (2 * q + 1)) ex) of
           (Some l, Some r) \<Rightarrow> Some (l @ r) | _ \<Rightarrow> None))"
  using in_tree_bound [OF assms] by (simp add: left_node_at right_node_at split: option.splits)

declare resolution.simps(2) [simp del]

lemma unmerged_entries:
  assumes "\<forall>i \<in> set is. AbDiff_leaf d i \<noteq> None"
  shows "those (map (\<lambda>i. map_option (\<lambda>leaf. (Leaf i, LeafRef leaf)) (AbDiff_leaf d i)) is) =
    Some (map (\<lambda>i. (Leaf i, LeafRef (the (AbDiff_leaf d i)))) is)"
  using assms by (induction "is") auto

definition resolution_post ::
    "TreeSyncDiff \<Rightarrow> nat \<Rightarrow> nat \<Rightarrow> LeafNodeIndex set \<Rightarrow> (TreeNodeIndex \<times> NodeReference) list \<Rightarrow> bool" where
  "resolution_post d k q ex r \<longleftrightarrow>
     distinct (map fst r) \<and> (\<forall>e \<in> set r. entry_below d k q e) \<and>
     (\<forall>i. AbDiff_leaf d i \<noteq> None \<longrightarrow> i div 2 ^ k = q \<longrightarrow> i \<notin> ex \<longrightarrow> (\<exists>!e. e \<in> set r \<and> covers e i))"

lemma covers_Leaf [simp]: "covers (Leaf j, ref) i \<longleftrightarrow> j = i \<and> i \<notin> unmerged_of ref"
proof -
  have "(\<exists>k. Leaf j = tree_node k (i div 2 ^ k)) \<longleftrightarrow> j = i"
    unfolding tree_node_0 [symmetric] tree_node_inj by auto
  then show ?thesis by (simp add: covers_def)
qed

lemma covers_Parent [simp]:
  "covers (Parent (node_at k q), ref) i \<longleftrightarrow> q = i div 2 ^ Suc k \<and> i \<notin> unmerged_of ref"
  unfolding tree_node_Suc [symmetric] covers_def fst_conv tree_node_inj by auto

lemma resolution_post_append:
  assumes l: "resolution_post d k (2 * q) ex l" and r: "resolution_post d k (2 * q + 1) ex r"
  shows "resolution_post d (Suc k) q ex (l @ r)"
proof -
  have apart: "fst e \<noteq> fst e'" if "e \<in> set l" "e' \<in> set r" for e e'
  proof
    assume eq: "fst e = fst e'"
    have "entry_below d k (2 * q) e" "entry_below d k (2 * q + 1) e'"
      using that l r by (auto simp: resolution_post_def)
    with eq show False by (auto simp: entry_below_def)
  qed
  have "\<exists>!e. e \<in> set (l @ r) \<and> covers e i"
    if i: "AbDiff_leaf d i \<noteq> None" "i div 2 ^ Suc k = q" "i \<notin> ex" for i
  proof -
    have lb: "i div 2 ^ k = 2 * q" if "e \<in> set l" "covers e i" for e
      using l that(1) by (intro covers_below [of d, OF _ that(2)]) (simp add: resolution_post_def)
    have rb: "i div 2 ^ k = 2 * q + 1" if "e \<in> set r" "covers e i" for e
      using r that(1) by (intro covers_below [of d, OF _ that(2)]) (simp add: resolution_post_def)
    consider "i div 2 ^ k = 2 * q" | "i div 2 ^ k = 2 * q + 1"
      using i(2) by (auto simp: div_power_step half_iff simp del: power_Suc)
    then show ?thesis
    proof cases
      case 1
      then have "\<exists>!e. e \<in> set l \<and> covers e i" using l i by (auto simp: resolution_post_def)
      moreover have "\<not> (e \<in> set r \<and> covers e i)" for e using rb [of e] 1 by auto
      ultimately show ?thesis unfolding set_append Un_iff by blast
    next
      case 2
      then have "\<exists>!e. e \<in> set r \<and> covers e i" using r i by (auto simp: resolution_post_def)
      moreover have "\<not> (e \<in> set l \<and> covers e i)" for e using lb [of e] 2 by auto
      ultimately show ?thesis unfolding set_append Un_iff by blast
    qed
  qed
  moreover have "distinct (map fst (l @ r))"
    using l r apart by (auto simp: resolution_post_def)
  moreover have "\<forall>e \<in> set (l @ r). entry_below d (Suc k) q e"
    using l r entry_below_Suc by (auto simp: resolution_post_def)
  ultimately show ?thesis unfolding resolution_post_def by blast
qed

lemma resolution_post_parent:
  assumes ok: "parent_ok d k q pn" and pn: "AbDiff_parent d (node_at k q) = Some pn"
  shows "resolution_post d (Suc k) q ex
    ((Parent (node_at k q), ParentRef pn) #
     map (\<lambda>i. (Leaf i, LeafRef (the (AbDiff_leaf d i)))) (filter (\<lambda>i. i \<notin> ex) (pn_unmerged_leaves pn)))"
    (is "resolution_post d (Suc k) q ex (?p # ?ls)")
proof -
  have u: "i div 2 ^ Suc k = q" "AbDiff_leaf d i \<noteq> None" if "i \<in> set (pn_unmerged_leaves pn)" for i
    using ok that by (auto simp: parent_ok_def)
  have "distinct (pn_unmerged_leaves pn)"
    using ok by (auto simp: parent_ok_def strict_sorted_iff)
  then have "distinct (map fst (?p # ?ls))" by (auto simp: distinct_map inj_on_def)
  moreover have "entry_below d (Suc k) q e" if "e \<in> set (?p # ?ls)" for e
  proof (cases "e = ?p")
    case True
    then show ?thesis
      using pn unfolding entry_below_def
      by (intro exI [of _ "Suc k"] exI [of _ q]) (simp add: node_ref_def)
  next
    case False
    with that obtain i where i: "i \<in> set (pn_unmerged_leaves pn)" "e = (Leaf i, LeafRef (the (AbDiff_leaf d i)))"
      by auto
    show ?thesis
      using u [OF i(1)] unfolding entry_below_def
      by (intro exI [of _ 0] exI [of _ i]) (auto simp: i(2) node_ref_def)
  qed
  moreover have "\<exists>!e. e \<in> set (?p # ?ls) \<and> covers e i"
    if i: "AbDiff_leaf d i \<noteq> None" "i div 2 ^ Suc k = q" "i \<notin> ex" for i
  proof (cases "i \<in> set (pn_unmerged_leaves pn)")
    case True
    then show ?thesis
      using i by (intro ex1I [of _ "(Leaf i, LeafRef (the (AbDiff_leaf d i)))"]) auto
  next
    case False
    then show ?thesis
      using i by (intro ex1I [of _ ?p]) (auto simp del: power_Suc)
  qed
  ultimately show ?thesis unfolding resolution_post_def by blast
qed

lemma resolution_total:
  assumes "TreeSync_wf n d"
  shows "in_tree n k q \<Longrightarrow> \<exists>r. resolution d (tree_node k q) ex = Some r \<and> resolution_post d k q ex r"
proof (induction k arbitrary: q)
  case 0
  show ?case
    by (cases "AbDiff_leaf d q") (auto simp: resolution_post_def entry_below_def node_ref_def)
next
  case (Suc k)
  note eq = resolution_Suc [OF Suc.prems wf_depth [OF assms], of d ex]
  show ?case
  proof (cases "AbDiff_parent d (node_at k q)")
    case None
    obtain l where l: "resolution d (tree_node k (2 * q)) ex = Some l" "resolution_post d k (2 * q) ex l"
      using Suc.IH [OF in_tree_children(1) [OF Suc.prems]] by blast
    obtain r where r: "resolution d (tree_node k (2 * q + 1)) ex = Some r" "resolution_post d k (2 * q + 1) ex r"
      using Suc.IH [OF in_tree_children(2) [OF Suc.prems]] by blast
    from resolution_post_append [OF l(2) r(2)] show ?thesis
      unfolding eq None l(1) r(1) by simp
  next
    case (Some pn)
    note ok = TreeSync_wfD(7) [OF assms Suc.prems Some]
    then have full: "\<forall>i \<in> set (filter (\<lambda>i. i \<notin> ex) (pn_unmerged_leaves pn)). AbDiff_leaf d i \<noteq> None"
      by (auto simp: parent_ok_def)
    from resolution_post_parent [OF ok Some, of ex] show ?thesis
      unfolding eq Some option.case unmerged_entries [OF full] option.map by blast
  qed
qed

text \<open>Excluding leaves while resolving is the same as dropping them from the resolution.\<close>

lemma unmerged_excluded:
  "those (map (\<lambda>i. map_option (\<lambda>leaf. (Leaf i, LeafRef leaf)) (AbDiff_leaf d i)) is) = Some rs \<Longrightarrow>
   those (map (\<lambda>i. map_option (\<lambda>leaf. (Leaf i, LeafRef leaf)) (AbDiff_leaf d i)) (filter (\<lambda>i. i \<notin> ex) is)) =
     Some (filter_excluded ex rs)"
  by (induction "is" arbitrary: rs) (auto split: option.splits)

lemma filter_excluded_append: "filter_excluded ex (xs @ ys) = filter_excluded ex xs @ filter_excluded ex ys"
  by (induction ex xs rule: filter_excluded.induct) auto

lemma resolution_excluded:
  "resolution d x {} = Some r \<Longrightarrow> resolution d x ex = Some (filter_excluded ex r)"
proof (induction d x ex arbitrary: r rule: resolution.induct)
  case (1 d i ex)
  then show ?case by (auto split: option.splits)
next
  case (2 d i ex)
  show ?case
  proof (cases "AbDiff_parent d i")
    case (Some pn)
    with 2(3) obtain rs where
      "those (map (\<lambda>i. map_option (\<lambda>leaf. (Leaf i, LeafRef leaf)) (AbDiff_leaf d i)) (pn_unmerged_leaves pn)) = Some rs"
      "r = (Parent i, ParentRef pn) # rs"
      by (auto simp: resolution.simps(2))
    with unmerged_excluded [OF this(1), of ex] Some show ?thesis by (simp add: resolution.simps(2))
  next
    case None
    with 2(3) obtain x y lr rr where c: "left i = Some x" "right i = Some y"
      "resolution d x {} = Some lr" "resolution d y {} = Some rr" "r = lr @ rr"
      by (auto simp: resolution.simps(2) split: option.splits)
    with 2(1,2) None show ?thesis by (simp add: resolution.simps(2) filter_excluded_append)
  qed
qed

text \<open>A resolution is empty exactly if no member is below the node.\<close>

lemma occupied_above:
  assumes "occupied d j p" "j \<le> k" "p div 2 ^ (k - j) = q"
  shows "occupied d k q"
proof -
  obtain i where "AbDiff_leaf d i \<noteq> None" "i div 2 ^ j = p" using assms(1) by (auto simp: occupied_def)
  moreover from this have "i div 2 ^ j div 2 ^ (k - j) = q" using assms(3) by simp
  then have "i div 2 ^ k = q" using assms(2) by (simp flip: div_mult2_eq power_add)
  ultimately show ?thesis by (auto simp: occupied_def)
qed

lemma in_tree_below:
  assumes "in_tree n k q" "j \<le> k" "p div 2 ^ (k - j) = q"
  shows "in_tree n j p"
proof -
  have "p < 2 ^ (n - k) * 2 ^ (k - j)"
    using assms(1,3) by (auto simp: in_tree_def dividend_less_times_div div_less_iff_less_mult)
  then show ?thesis using assms(1,2) by (simp add: in_tree_def flip: power_add)
qed

lemma entry_occupied:
  assumes "TreeSync_wf n d" "in_tree n k q" "entry_below d k q e"
  shows "occupied d k q"
proof -
  obtain j p where e: "j \<le> k" "p div 2 ^ (k - j) = q" "node_ref d j p = Some (snd e)"
    using assms(3) by (auto simp: entry_below_def)
  have "occupied d j p"
  proof (cases j)
    case 0
    with e(3) show ?thesis by (auto simp: node_ref_def occupied_def)
  next
    case (Suc m)
    have "in_tree n (Suc m) p" using in_tree_below [OF assms(2) e(1,2)] Suc by simp
    moreover obtain pn where "AbDiff_parent d (node_at m p) = Some pn"
      using e(3) Suc by (auto simp: node_ref_def)
    ultimately have "parent_ok d m p pn" by (rule TreeSync_wfD(7) [OF assms(1)])
    then show ?thesis using Suc by (simp add: parent_ok_def occupied_Suc)
  qed
  then show ?thesis using e(1,2) by (rule occupied_above)
qed

lemma resolution_nonempty:
  assumes "TreeSync_wf n d" "in_tree n k q" "resolution d (tree_node k q) {} = Some r"
  shows "r \<noteq> [] \<longleftrightarrow> occupied d k q"
proof -
  have post: "resolution_post d k q {} r" using resolution_total [OF assms(1,2), of "{}"] assms(3) by auto
  show ?thesis
  proof
    assume "r \<noteq> []"
    then obtain e where "e \<in> set r" by (cases r) auto
    with post have "entry_below d k q e" by (simp add: resolution_post_def)
    then show "occupied d k q" by (rule entry_occupied [OF assms(1,2)])
  next
    assume "occupied d k q"
    then obtain i where "AbDiff_leaf d i \<noteq> None" "i div 2 ^ k = q" by (auto simp: occupied_def)
    with post have "\<exists>!e. e \<in> set r \<and> covers e i" unfolding resolution_post_def by blast
    then show "r \<noteq> []" by auto
  qed
qed

section \<open>Filtered paths\<close>

text \<open>The levels at which a member is in the other half, from the leaf to the root.\<close>

definition filtered_levels :: "TreeSyncDiff \<Rightarrow> nat \<Rightarrow> LeafNodeIndex \<Rightarrow> nat list" where
  "filtered_levels d n i = filter (\<lambda>j. occupied d j (flip (i div 2 ^ j))) [0..<n]"

abbreviation path_node :: "LeafNodeIndex \<Rightarrow> nat \<Rightarrow> ParentNodeIndex" where
  "path_node i j \<equiv> node_at j (i div 2 ^ Suc j)"

abbreviation copath_node :: "LeafNodeIndex \<Rightarrow> nat \<Rightarrow> TreeNodeIndex" where
  "copath_node i j \<equiv> tree_node j (flip (i div 2 ^ j))"

definition copath_res :: "TreeSyncDiff \<Rightarrow> LeafNodeIndex set \<Rightarrow> LeafNodeIndex \<Rightarrow> nat \<Rightarrow> (TreeNodeIndex \<times> NodeReference) list" where
  "copath_res d ex i j = the (resolution d (copath_node i j) ex)"

lemma copath_in_tree:
  assumes "i < 2 ^ n" "j < n"
  shows "in_tree n j (flip (i div 2 ^ j))"
  using assms by (intro in_tree_flip in_tree_div) auto

lemma copath_res:
  assumes "TreeSync_wf n d" "i < 2 ^ n" "j < n"
  shows "resolution d (copath_node i j) ex = Some (copath_res d ex i j)"
    "resolution_post d j (flip (i div 2 ^ j)) ex (copath_res d ex i j)"
  using resolution_total [OF assms(1) copath_in_tree [OF assms(2,3)], of ex] by (auto simp: copath_res_def)

lemma copath_res_nonempty:
  assumes "TreeSync_wf n d" "i < 2 ^ n" "j < n"
  shows "copath_res d {} i j \<noteq> [] \<longleftrightarrow> occupied d j (flip (i div 2 ^ j))"
  by (rule resolution_nonempty [OF assms(1) copath_in_tree copath_res(1)]) (use assms in auto)

lemma copath_res_excluded:
  assumes "TreeSync_wf n d" "i < 2 ^ n" "j < n"
  shows "copath_res d ex i j = filter_excluded ex (copath_res d {} i j)"
  using resolution_excluded [OF copath_res(1) [OF assms, of "{}"], of ex] by (simp add: copath_res_def)

lemma path_eq:
  assumes "TreeSync_wf n d" "i < 2 ^ n"
  shows "AbDiff_direct_path d i = Some (map (path_node i) [0..<n])"
  using assms(2) TreeSync_wfD(3) [OF assms(1)] wf_depth [OF assms(1)]
  by (simp add: AbDiff_direct_path_def direct_path_depth_size)

lemma copath_eq:
  assumes "TreeSync_wf n d" "i < 2 ^ n" "0 < n"
  shows "AbDiff_copath d i = Some (map (copath_node i) [0..<n])"
  using assms(2,3) TreeSync_wfD(3) [OF assms(1)] wf_depth [OF assms(1)]
  by (simp add: AbDiff_copath_def copath_depth_size)

lemma copath_resolutions_map:
  assumes "TreeSync_wf n d" "i < 2 ^ n"
  shows "those (map (\<lambda>x. resolution d x {}) (map (copath_node i) [0..<n])) = Some (map (copath_res d {} i) [0..<n])"
  unfolding map_map by (rule those_map_Some) (use copath_res(1) [OF assms] in simp)

lemma copath_resolutions_eq:
  assumes "TreeSync_wf n d" "i < 2 ^ n"
  shows "copath_resolutions d i = Some (map (copath_res d {} i) [0..<n])"
proof (cases "n = 0")
  case False
  then show ?thesis
    using copath_resolutions_map [OF assms]
    by (simp add: copath_resolutions_def wf_leaf_count [OF assms(1)] copath_eq [OF assms] MIN_TREE_SIZE_def del: map_map)
qed (simp add: copath_resolutions_def wf_leaf_count [OF assms(1)] MIN_TREE_SIZE_def)

lemma filtered_levels_copath:
  assumes "TreeSync_wf n d" "i < 2 ^ n"
  shows "filter (\<lambda>j. copath_res d {} i j \<noteq> []) [0..<n] = filtered_levels d n i"
  unfolding filtered_levels_def using copath_res_nonempty [OF assms] by (intro filter_cong) auto

lemma filter_zip_levels:
  assumes "TreeSync_wf n d" "i < 2 ^ n"
  shows "map fst (filter (\<lambda>(x, r). r \<noteq> []) (zip (map f [0..<n]) (map (copath_res d {} i) [0..<n]))) =
    map f (filtered_levels d n i)"
  unfolding filtered_levels_copath [OF assms, symmetric]
  by (simp add: zip_map_map zip_same_conv_map filter_map comp_def)

lemma filtered_direct_path_eq:
  assumes "TreeSync_wf n d" "i < 2 ^ n"
  shows "filtered_direct_path d i = Some (map (path_node i) (filtered_levels d n i))"
  using filter_zip_levels [OF assms, of "path_node i"]
  by (simp add: filtered_direct_path_def path_eq [OF assms] copath_resolutions_eq [OF assms] debug_assert_def)

lemma filtered_copath_eq:
  assumes "TreeSync_wf n d" "i < 2 ^ n" "0 < n"
  shows "filtered_copath d i = Some (map (copath_node i) (filtered_levels d n i))"
  using filter_zip_levels [OF assms(1,2), of "copath_node i"]
  by (simp add: filtered_copath_def copath_eq [OF assms] copath_resolutions_eq [OF assms(1,2)] debug_assert_def)

lemma filtered_copath_resolutions_eq:
  assumes "TreeSync_wf n d" "i < 2 ^ n"
  shows "filtered_copath_resolutions d i ex = Some (map (copath_res d ex i) (filtered_levels d n i))"
proof (cases "n = 0")
  case False
  have "map (filter_excluded ex) (filter (\<lambda>r. r \<noteq> []) (map (copath_res d {} i) [0..<n])) =
      map (copath_res d ex i) (filtered_levels d n i)"
    unfolding filtered_levels_copath [OF assms, symmetric]
    using copath_res_excluded [OF assms, where ex = ex] by (auto simp: filter_map comp_def)
  with False show ?thesis
    using copath_resolutions_map [OF assms]
    by (simp add: filtered_copath_resolutions_def wf_leaf_count [OF assms(1)] copath_eq [OF assms] del: map_map)
qed (simp add: filtered_copath_resolutions_def wf_leaf_count [OF assms(1)] filtered_levels_def)

end
