(* ===== verification/TreeKem.thy ===== *)
theory TreeKem
  imports Resolution
begin

text \<open>
  Encrypting and decrypting update paths, \<open>treesync/treekem.rs\<close>, and that they fit together:
  every member of a well-formed tree other than the sender finds a ciphertext of the path it has the
  key of, and derives from it the rest of the sender's path and the sender's commit secret.
\<close>

section \<open>Encrypting and decrypting a path\<close>

definition encrypt_path ::
    "'a tree_provider_scheme \<Rightarrow> Ciphersuite \<Rightarrow> PlainUpdatePathNode list \<Rightarrow> bytes \<Rightarrow> LeafNodeIndex set \<Rightarrow> LeafNodeIndex \<Rightarrow>
     TreeSyncDiff \<Rightarrow> (UpdatePathNode list, LibraryError) outcome" where
  "encrypt_path p c path group_context exclusion_list own_leaf_index d =
     outcome_bind (or_panic (filtered_copath_resolutions d own_leaf_index exclusion_list)) (\<lambda>resolutions.
     let copath_resolutions = map (map (\<lambda>(_, node_ref). node_encryption_key node_ref)) resolutions in
     outcome_bind (or_panic (debug_assert (length copath_resolutions = length path))) (\<lambda>_.
       outcome_map (\<lambda>(node, resolution). PlainUpdatePathNode_encrypt p c resolution group_context node)
         (zip path copath_resolutions)))"

record DecryptPathParams =
  dpp_update_path :: "UpdatePathNode list"
  dpp_sender_leaf_index :: LeafNodeIndex
  dpp_exclusion_list :: "LeafNodeIndex set"
  dpp_group_context :: bytes

fun path_keys_match :: "UpdatePathNode list \<Rightarrow> (ParentNodeIndex \<times> ParentNode) list \<Rightarrow> bool" where
  "path_keys_match (update_parent_node # us) ((_, derived_parent_node) # ds) \<longleftrightarrow>
     upn_public_key update_parent_node = pn_encryption_key derived_parent_node \<and> path_keys_match us ds"
| "path_keys_match _ _ \<longleftrightarrow> True"

definition decrypt_path ::
    "'a tree_provider_scheme \<Rightarrow> Ciphersuite \<Rightarrow> DecryptPathParams \<Rightarrow> EncryptionKeyPair list \<Rightarrow> LeafNodeIndex \<Rightarrow>
     TreeSyncDiff \<Rightarrow> (EncryptionKeyPair list \<times> CommitSecret, ApplyUpdatePathError) outcome" where
  "decrypt_path p c params owned_keys own_leaf_index d =
     outcome_bind
       (map_err (\<lambda>_. MissingOwnLeaf) (subtree_root_position d (dpp_sender_leaf_index params) own_leaf_index))
       (\<lambda>path_position.
     outcome_bind (ok_or (vec_get (dpp_update_path params) path_position) PathLengthMismatch) (\<lambda>update_path_node.
     outcome_bind
       (map_err (\<lambda>_. MissingSender)
         (decryption_key d (dpp_sender_leaf_index params) (dpp_exclusion_list params) owned_keys own_leaf_index))
       (\<lambda>(decryption_key, resolution_position).
     outcome_bind (ok_or (vec_get (encrypted_path_secrets update_path_node) resolution_position) MissingCiphertext)
       (\<lambda>ct.
     outcome_bind
       (map_err (\<lambda>_. UnableToDecrypt) (PathSecret_decrypt p c ct decryption_key (dpp_group_context params)))
       (\<lambda>path_secret.
     outcome_bind (or_panic (filtered_common_direct_path d own_leaf_index (dpp_sender_leaf_index params)))
       (\<lambda>common_path.
     outcome_bind (map_err ApplyLibraryError (ParentNode_derive_path p c path_secret common_path))
       (\<lambda>(derived_path, _, keypairs, commit_secret).
     if \<not> path_keys_match (drop path_position (dpp_update_path params)) derived_path then Err PathMismatch
     else Ok (keypairs, commit_secret))))))))"

definition recreate_path_from_path_secret ::
    "'a tree_provider_scheme \<Rightarrow> Ciphersuite \<Rightarrow> PathSecret \<Rightarrow> LeafNodeIndex \<Rightarrow> UpdatePathNode list \<Rightarrow> TreeSyncDiff \<Rightarrow>
     (EncryptionKeyPair list \<times> CommitSecret, ApplyUpdatePathError) outcome" where
  "recreate_path_from_path_secret p c path_secret own_leaf_index update_path d =
     outcome_bind (or_panic (filtered_direct_path d own_leaf_index)) (\<lambda>path.
     outcome_bind (map_err ApplyLibraryError (ParentNode_derive_path p c path_secret path))
       (\<lambda>(derived_path, _, keypairs, commit_secret).
     if length derived_path \<noteq> length update_path then Err PathLengthMismatch
     else if \<not> path_keys_match update_path derived_path then Err PathMismatch
     else Ok (keypairs, commit_secret)))"

datatype UpdatePathError = InvalidType | UpdatePathSignatureError SignatureError

definition into_verified ::
    "'a tree_provider_scheme \<Rightarrow> Ciphersuite \<Rightarrow> TreePosition \<Rightarrow> UpdatePath \<Rightarrow> (UpdatePath, UpdatePathError) outcome" where
  "into_verified p c position update_path =
     (let verifiable_leaf_node = into_verifiable_leaf_node (up_leaf_node update_path) in
      case verifiable_leaf_node of
        VerifiableCommit _ _ _ \<Rightarrow>
          outcome_bind
            (map_err UpdatePathSignatureError
              (VerifiableLeafNode_verify p (signature_algorithm c)
                (VerifiableLeafNode_signature_key verifiable_leaf_node)
                (add_tree_position position verifiable_leaf_node)))
            (\<lambda>leaf_node. Ok \<lparr>up_leaf_node = leaf_node, up_nodes = up_nodes update_path\<rparr>)
      | _ \<Rightarrow> Err InvalidType)"

section \<open>Where two leaves part\<close>

lemma split_level:
  assumes "s \<noteq> i" "s < 2 ^ n" "i < 2 ^ n"
  obtains j where "j < n" "i div 2 ^ j = flip (s div 2 ^ j)" "i div 2 ^ Suc j = s div 2 ^ Suc j"
    "\<forall>m \<le> j. s div 2 ^ m \<noteq> i div 2 ^ m" "\<forall>m > j. s div 2 ^ m = i div 2 ^ m"
    "\<forall>m. i div 2 ^ m = flip (s div 2 ^ m) \<longrightarrow> m = j"
proof -
  from assms obtain j where j: "j < n" "s div 2 ^ j \<noteq> i div 2 ^ j"
    "\<forall>m > j. s div 2 ^ m = i div 2 ^ m" "\<forall>m \<le> j. s div 2 ^ m \<noteq> i div 2 ^ m"
    by (rule split_level_exists [of s i n])
  have same: "i div 2 ^ Suc j = s div 2 ^ Suc j" using j(3) [rule_format, of "Suc j"] by simp
  have f: "i div 2 ^ j = flip (s div 2 ^ j)"
    using j(2) same unfolding div_power_step by (intro flip_unique) auto
  have uniq: "m = j" if m: "i div 2 ^ m = flip (s div 2 ^ m)" for m
  proof -
    have "i div 2 ^ Suc m = s div 2 ^ Suc m" using m by (simp only: div_power_step flip_div2)
    then have "j \<le> m" using j(4) [rule_format, of "Suc m"] by (metis not_less_eq_eq)
    moreover have "\<not> j < m" using m j(3) [rule_format, of m] by (metis flip_neq)
    ultimately show ?thesis by simp
  qed
  show ?thesis by (rule that [OF j(1) f same j(4,3)]) (use uniq in blast)
qed

lemma split_level_filtered:
  assumes "j < n" "i div 2 ^ j = flip (s div 2 ^ j)" "AbDiff_leaf d i \<noteq> None"
  shows "j \<in> set (filtered_levels d n s)"
  using assms by (auto simp: filtered_levels_def occupied_def)

lemma path_node_inj: "path_node s j = path_node i m \<longleftrightarrow> j = m \<and> s div 2 ^ Suc j = i div 2 ^ Suc m"
  by (simp only: node_at_inj)

section \<open>The position of the path secret\<close>

lemma find_enumerate:
  "distinct xs \<Longrightarrow> m < length xs \<Longrightarrow> find (\<lambda>(_, x). x = xs ! m) (enumerate a xs) = Some (a + m, xs ! m)"
proof (induction xs arbitrary: a m)
  case (Cons x xs)
  then show ?case by (cases m) (auto simp: nth_mem)
qed simp

lemma lca_eq:
  assumes "TreeSync_wf n d" "s < 2 ^ n" "i < 2 ^ n" "s \<noteq> i" "j < n"
    and "\<And>m. m \<le> j \<Longrightarrow> s div 2 ^ m \<noteq> i div 2 ^ m" "i div 2 ^ Suc j = s div 2 ^ Suc j"
  shows "AbDiff_lowest_common_ancestor d s i = Some (path_node s j)"
  using assms wf_leaf_count [OF assms(1)] wf_depth [OF assms(1)]
    lowest_common_ancestor_eq [of s n i j] by (simp add: AbDiff_lowest_common_ancestor_def)

lemma subtree_root_position_eq:
  assumes wf: "TreeSync_wf n d" and lt: "s < 2 ^ n" "i < 2 ^ n" "s \<noteq> i" "j < n"
    and j: "\<And>m. m \<le> j \<Longrightarrow> s div 2 ^ m \<noteq> i div 2 ^ m" "i div 2 ^ Suc j = s div 2 ^ Suc j"
    and m: "m < length (filtered_levels d n s)" "filtered_levels d n s ! m = j"
  shows "subtree_root_position d s i = Ok m"
proof -
  let ?path = "map (path_node s) (filtered_levels d n s)"
  have "distinct ?path" by (auto simp: distinct_map inj_on_def filtered_levels_def path_node_inj)
  from find_enumerate [OF this, of m 0] m
  have "find (\<lambda>(_, x). x = path_node s j) (enumerate 0 ?path) = Some (m, path_node s j)" by simp
  then show ?thesis
    by (simp add: subtree_root_position_def lca_eq [OF wf lt j] filtered_direct_path_eq [OF wf lt(1)] case_prod_beta)
qed

lemma div_order: "(i::nat) < s \<Longrightarrow> i div m \<noteq> s div m \<Longrightarrow> i div m < s div m"
  by (meson div_le_mono le_neq_implies_less less_imp_le)

lemma subtree_root_copath_node_eq:
  assumes wf: "TreeSync_wf n d" and lt: "s < 2 ^ n" "i < 2 ^ n" "s \<noteq> i" "j < n"
    and j: "\<And>m. m \<le> j \<Longrightarrow> s div 2 ^ m \<noteq> i div 2 ^ m" "i div 2 ^ Suc j = s div 2 ^ Suc j"
  shows "AbDiff_subtree_root_copath_node d s i = Some (tree_node j (i div 2 ^ j))"
proof -
  define q where "q = s div 2 ^ Suc j"
  have t: "in_tree n (Suc j) q" unfolding q_def using lt by (intro in_tree_div) auto
  note b = in_tree_bound [OF t wf_depth [OF wf]]
  have c: "s div 2 ^ j div 2 = q" "i div 2 ^ j div 2 = q" using j(2) by (simp_all only: q_def div_power_step)
  have neq: "s div 2 ^ j \<noteq> i div 2 ^ j" using j(1) by simp
  have "i div 2 ^ j = (if i < s then 2 * q else 2 * q + 1)"
  proof (cases "i < s")
    case True
    then have "i div 2 ^ j < s div 2 ^ j" using neq by (intro div_order) auto
    with c True show ?thesis by (auto simp: half_iff)
  next
    case False
    then have "s div 2 ^ j < i div 2 ^ j" using neq lt(3) by (intro div_order) auto
    with c False show ?thesis by (auto simp: half_iff)
  qed
  moreover have "left (node_at j q) = Some (tree_node j (2 * q))" "right (node_at j q) = Some (tree_node j (2 * q + 1))"
    using b by (simp_all add: left_node_at right_node_at)
  moreover have "lowest_common_ancestor s i = Some (node_at j q)"
    using lowest_common_ancestor_eq [of s n i j] lt j wf_depth [OF wf] by (simp add: q_def)
  ultimately show ?thesis
    using lt wf_leaf_count [OF wf] by (simp add: AbDiff_subtree_root_copath_node_def)
qed

text \<open>The first key of a list that is owned is found, with its position.\<close>

lemma find_owned_key_eq:
  assumes "m < length keys" "keys ! m \<in> kp_public_key ` set owned"
    and "\<And>l. l < m \<Longrightarrow> keys ! l \<notin> kp_public_key ` set owned"
  shows "\<exists>kp \<in> set owned. kp_public_key kp = keys ! m \<and> find_owned_key owned (enumerate a keys) = Some (kp, a + m)"
  using assms
proof (induction keys arbitrary: a m)
  case (Cons k keys)
  show ?case
  proof (cases m)
    case 0
    have "find (\<lambda>kp. kp_public_key kp = k) owned \<noteq> None"
      using Cons.prems(2) 0 by (auto simp: find_None_iff)
    then obtain kp where kp: "find (\<lambda>kp. kp_public_key kp = k) owned = Some kp" by auto
    then have "kp \<in> set owned" "kp_public_key kp = k" by (auto simp: find_Some_iff)
    with kp 0 show ?thesis by auto
  next
    case (Suc l)
    have "find (\<lambda>kp. kp_public_key kp = k) owned = None"
      using Cons.prems(3) [of 0] Suc by (auto simp: find_None_iff)
    moreover have "keys ! l' \<notin> kp_public_key ` set owned" if "l' < l" for l'
      using Cons.prems(3) [of "Suc l'"] Suc that by simp
    ultimately show ?thesis
      using Cons.IH [of l "Suc a"] Cons.prems(1,2) Suc by simp
  qed
qed simp

text \<open>
  The keys a member has: of the nodes beside the sender's path, those of the nodes that cover it.
\<close>

definition owns_keys :: "nat \<Rightarrow> TreeSyncDiff \<Rightarrow> LeafNodeIndex \<Rightarrow> LeafNodeIndex \<Rightarrow> EncryptionKeyPair list \<Rightarrow> bool" where
  "owns_keys n d s i owned \<longleftrightarrow>
     (\<forall>k q r. in_tree n k q \<longrightarrow> q \<noteq> s div 2 ^ k \<longrightarrow> node_ref d k q = Some r \<longrightarrow>
        (node_encryption_key r \<in> kp_public_key ` set owned \<longleftrightarrow> covers (tree_node k q, r) i))"

lemma entry_beside_path:
  assumes "entry_below d j (flip (s div 2 ^ j)) e" "s < 2 ^ n" "j < n"
  obtains k q where "fst e = tree_node k q" "in_tree n k q" "q \<noteq> s div 2 ^ k" "node_ref d k q = Some (snd e)"
proof -
  obtain k q where e: "fst e = tree_node k q" "k \<le> j" "q div 2 ^ (j - k) = flip (s div 2 ^ j)" "node_ref d k q = Some (snd e)"
    using assms(1) by (auto simp: entry_below_def)
  have "in_tree n k q" using copath_in_tree [OF assms(2,3)] e(2,3) by (rule in_tree_below)
  moreover have "q \<noteq> s div 2 ^ k"
  proof
    assume "q = s div 2 ^ k"
    with e(2,3) have "s div 2 ^ j = flip (s div 2 ^ j)" by (simp flip: div_mult2_eq power_add)
    then show False by (metis flip_neq)
  qed
  ultimately show ?thesis using e that by blast
qed

lemma covering_entry:
  assumes "resolution_post d k q ex r" "AbDiff_leaf d i \<noteq> None" "i div 2 ^ k = q" "i \<notin> ex"
  obtains e where "e \<in> set r" "covers e i" "\<forall>e' \<in> set r. covers e' i \<longrightarrow> e' = e"
proof -
  have "\<exists>!e. e \<in> set r \<and> covers e i"
    using assms(1) unfolding resolution_post_def by (elim conjE allE [of _ i]) (simp add: assms(2-4))
  then show ?thesis using that by (elim ex1E) blast
qed

lemma decryption_key_eq:
  assumes wf: "TreeSync_wf n d" and lt: "s < 2 ^ n" "i < 2 ^ n" "s \<noteq> i" "j < n"
    and j: "\<And>m. m \<le> j \<Longrightarrow> s div 2 ^ m \<noteq> i div 2 ^ m" "i div 2 ^ Suc j = s div 2 ^ Suc j"
    and f: "i div 2 ^ j = flip (s div 2 ^ j)"
    and i: "AbDiff_leaf d i \<noteq> None" "i \<notin> ex" and owns: "owns_keys n d s i owned"
  shows "\<exists>m < length (copath_res d ex s j). \<exists>kp \<in> set owned.
    decryption_key d s ex owned i = Ok (kp_private_key kp, m) \<and>
    kp_public_key kp = node_encryption_key (snd (copath_res d ex s j ! m))"
proof -
  let ?r = "copath_res d ex s j"
  note r = copath_res [OF wf lt(1) lt(4), of ex]
  have key: "node_encryption_key (snd e) \<in> kp_public_key ` set owned \<longleftrightarrow> covers e i" if "e \<in> set ?r" for e
  proof -
    have "entry_below d j (flip (s div 2 ^ j)) e" using r(2) that by (simp add: resolution_post_def)
    then obtain k q where "fst e = tree_node k q" "in_tree n k q" "q \<noteq> s div 2 ^ k" "node_ref d k q = Some (snd e)"
      by (rule entry_beside_path [OF _ lt(1,4)])
    then show ?thesis using owns unfolding owns_keys_def by (metis prod.collapse)
  qed
  obtain e where e: "e \<in> set ?r" "covers e i" "\<forall>e' \<in> set ?r. covers e' i \<longrightarrow> e' = e"
    by (rule covering_entry [OF r(2) i(1) f i(2)])
  obtain m where m: "m < length ?r" "?r ! m = e" using e(1) unfolding in_set_conv_nth by blast
  have "distinct ?r" using r(2) by (auto simp: resolution_post_def distinct_map)
  then have before: "\<not> covers (?r ! l) i" if "l < m" for l
    using that m e(3) [rule_format, of "?r ! l"] by (auto simp: nth_eq_iff_index_eq)
  let ?keys = "map (\<lambda>(_, node_ref). node_encryption_key node_ref) ?r"
  have "\<exists>kp \<in> set owned. kp_public_key kp = ?keys ! m \<and> find_owned_key owned (enumerate 0 ?keys) = Some (kp, 0 + m)"
    using m key e(1,2) before by (intro find_owned_key_eq) (auto simp: case_prod_beta)
  then obtain kp where "kp \<in> set owned" "kp_public_key kp = node_encryption_key (snd (?r ! m))"
    "find_owned_key owned (enumerate 0 ?keys) = Some (kp, m)"
    using m by (auto simp: case_prod_beta)
  then show ?thesis
    using m(1) r(1) subtree_root_copath_node_eq [OF wf lt j]
    by (intro exI [of _ m] conjI bexI [of _ kp]) (simp_all add: decryption_key_def f)
qed

section \<open>The rest of the path\<close>

lemma common_suffix:
  assumes "xs \<noteq> [] \<Longrightarrow> ys \<noteq> [] \<Longrightarrow> last xs \<noteq> last ys"
  shows "rev (map fst (takeWhile (\<lambda>(x, y). x = y) (zip (rev (xs @ zs)) (rev (ys @ zs))))) = zs"
proof -
  have "takeWhile (\<lambda>(x, y). x = y) (zip (rev xs) (rev ys)) = []"
    using assms by (cases xs rule: rev_cases; cases ys rule: rev_cases) auto
  moreover have "takeWhile (\<lambda>(x, y). x = y) (zip (us @ as) (us @ bs)) =
      zip us us @ takeWhile (\<lambda>(x, y). x = y) (zip as bs)" for us as bs :: "'a list"
    by (induction us) auto
  ultimately show ?thesis by (simp add: zip_same_conv_map comp_def)
qed

lemma strict_sorted_drop:
  fixes xs :: "nat list"
  assumes "sorted_wrt (<) xs" "m < length xs"
  shows "drop m xs = filter (\<lambda>x. xs ! m \<le> x) xs" "\<And>x. x \<in> set (take m xs) \<Longrightarrow> x < xs ! m"
proof -
  have t: "x < xs ! m" if "x \<in> set (take m xs)" for x
    using that assms by (auto simp: in_set_conv_nth sorted_wrt_nth_less)
  have "xs ! m \<le> x" if x: "x \<in> set (drop m xs)" for x
  proof -
    obtain l where "l < length xs - m" "x = xs ! (m + l)" using x by (auto simp: in_set_conv_nth)
    then have "m + l < length xs" "x = xs ! (m + l)" by simp_all
    then show ?thesis using sorted_wrt_nth_less [OF assms(1), of m "m + l"] by (cases l) auto
  qed
  with t have "filter (\<lambda>x. xs ! m \<le> x) (take m xs @ drop m xs) = drop m xs"
    unfolding filter_append by (fastforce simp: filter_empty_conv filter_id_conv)
  then show "drop m xs = filter (\<lambda>x. xs ! m \<le> x) xs" by simp
  show "\<And>x. x \<in> set (take m xs) \<Longrightarrow> x < xs ! m" by (rule t)
qed

lemma sorted_filtered_levels: "sorted_wrt (<) (filtered_levels d n s)"
  unfolding filtered_levels_def by (rule sorted_wrt_filter) simp

lemma filtered_common_direct_path_eq:
  assumes wf: "TreeSync_wf n d" and lt: "s < 2 ^ n" "i < 2 ^ n" "j < n"
    and full: "AbDiff_leaf d s \<noteq> None" "AbDiff_leaf d i \<noteq> None"
    and f: "i div 2 ^ j = flip (s div 2 ^ j)" and j: "i div 2 ^ Suc j = s div 2 ^ Suc j"
    "\<And>m. m \<le> j \<Longrightarrow> s div 2 ^ m \<noteq> i div 2 ^ m" "\<And>m. j < m \<Longrightarrow> s div 2 ^ m = i div 2 ^ m"
    and m: "m < length (filtered_levels d n s)" "filtered_levels d n s ! m = j"
  shows "filtered_common_direct_path d i s = Some (map (path_node s) (drop m (filtered_levels d n s)))"
proof -
  let ?S = "filtered_levels d n s" and ?I = "filtered_levels d n i"
  have "s div 2 ^ j = flip (i div 2 ^ j)" using f by simp
  then have "j \<in> set ?I" using lt(3) full(1) by (intro split_level_filtered)
  then obtain m' where m': "m' < length ?I" "?I ! m' = j" by (auto simp: in_set_conv_nth)
  note S = strict_sorted_drop [OF sorted_filtered_levels m(1), unfolded m(2)]
  note I = strict_sorted_drop [OF sorted_filtered_levels m'(1), unfolded m'(2)]
  have occ: "occupied d k (flip (s div 2 ^ k)) \<longleftrightarrow> occupied d k (flip (i div 2 ^ k))" if "j \<le> k" for k
  proof (cases "k = j")
    case True
    have "occupied d j (i div 2 ^ j)" "occupied d j (s div 2 ^ j)" using full by (auto simp: occupied_def)
    then show ?thesis using True f by simp
  next
    case False
    then show ?thesis using that j(3) [of k] by simp
  qed
  have "filter (\<lambda>x. j \<le> x) ?S = filter (\<lambda>x. j \<le> x) ?I"
    unfolding filtered_levels_def filter_filter using occ by (intro filter_cong) auto
  then have rest: "drop m' ?I = drop m ?S" using S(1) I(1) by simp
  have nodes: "map (path_node i) (drop m ?S) = map (path_node s) (drop m ?S)"
  proof (rule map_cong [OF refl])
    fix k assume "k \<in> set (drop m ?S)"
    then have "j \<le> k" using S(1) by auto
    then have "s div 2 ^ Suc k = i div 2 ^ Suc k" by (intro j(3)) simp
    then show "path_node i k = path_node s k" by simp
  qed
  let ?xs = "map (path_node i) (take m' ?I)" and ?ys = "map (path_node s) (take m ?S)"
  have neq: "last ?xs \<noteq> last ?ys" if "?xs \<noteq> []" "?ys \<noteq> []"
  proof -
    let ?k = "last (take m' ?I)" and ?l = "last (take m ?S)"
    have "?l < j" using that(2) S(2) [OF last_in_set] by simp
    then have "s div 2 ^ Suc ?l \<noteq> i div 2 ^ Suc ?l" by (intro j(2)) simp
    then have "path_node i ?k \<noteq> path_node s ?l" unfolding path_node_inj by metis
    with that show ?thesis by (simp add: last_map del: power_Suc)
  qed
  have "map (path_node i) ?I = ?xs @ map (path_node s) (drop m ?S)"
    unfolding nodes [symmetric] unfolding rest [symmetric] map_append [symmetric] append_take_drop_id ..
  moreover have "map (path_node s) ?S = ?ys @ map (path_node s) (drop m ?S)"
    unfolding map_append [symmetric] append_take_drop_id ..
  ultimately have "rev (map fst (takeWhile (\<lambda>(x, y). x = y)
      (zip (rev (map (path_node i) ?I)) (rev (map (path_node s) ?S))))) = map (path_node s) (drop m ?S)"
    by (simp only:) (rule common_suffix, rule neq)
  then show ?thesis
    unfolding filtered_common_direct_path_def filtered_direct_path_eq [OF wf lt(1)] filtered_direct_path_eq [OF wf lt(2)]
    by simp
qed

lemma ParentNode_derive_path_lengths:
  assumes "ParentNode_derive_path p c secret indices = Ok (path, plain, kps, cs)"
  shows "length path = length indices" "length plain = length indices" "length kps = length indices"
    "map pupn_public_key plain = map (pn_encryption_key \<circ> snd) path"
  using assms
  by (auto simp: ParentNode_derive_path_def outcome_bind_Ok_iff outcome_map_Ok_iff ParentNode_from_def
      dest: derive_path_secrets_length split: prod.splits)

lemma outcome_map_drop: "outcome_map f xs = Ok ys \<Longrightarrow> outcome_map f (drop m xs) = Ok (drop m ys)"
  by (auto simp: outcome_map_Ok_iff)

lemma ParentNode_derive_path_drop:
  assumes "ParentNode_derive_path p c secret indices = Ok (path, plain, kps, cs)" "m < length indices"
  shows "ParentNode_derive_path p c (pupn_path_secret (plain ! m)) (drop m indices) =
    Ok (drop m path, drop m plain, drop m kps, cs)"
proof -
  let ?g = "\<lambda>(path_secret, index). outcome_bind (derive_key_pair p c path_secret) (\<lambda>keypair. Ok (index, path_secret, keypair))"
  obtain ss rs where ss: "derive_path_secrets p c (length indices) secret = Ok (ss, cs)"
    and rs: "outcome_map ?g (zip ss indices) = Ok rs"
    and out: "path = map (\<lambda>(index, _, keypair). (index, ParentNode_from (kp_public_key keypair))) rs"
      "plain = map (\<lambda>(_, path_secret, keypair).
          \<lparr>pupn_public_key = kp_public_key keypair, pupn_path_secret = path_secret\<rparr>) rs"
      "kps = map (\<lambda>(_, _, keypair). keypair) rs"
    using assms(1) by (auto simp: ParentNode_derive_path_def outcome_bind_Ok_iff)
  have len: "length ss = length indices" by (rule derive_path_secrets_length [OF ss])
  have "length rs = length indices" "?g (zip ss indices ! m) = Ok (rs ! m)"
    using rs assms(2) len by (auto simp: outcome_map_Ok_iff)
  then have "pupn_path_secret (plain ! m) = ss ! m"
    using assms(2) len by (auto simp: out outcome_bind_Ok_iff case_prod_beta dest!: sym [of "(_, _, _)"])
  moreover have "outcome_map ?g (zip (drop m ss) (drop m indices)) = Ok (drop m rs)"
    using outcome_map_drop [OF rs, of m] by (simp add: drop_zip)
  ultimately show ?thesis
    using derive_path_secrets_drop [OF ss assms(2)]
    by (simp add: ParentNode_derive_path_def out drop_map)
qed

section \<open>Delivery of a path\<close>

text \<open>The documented behaviour of HPKE: what is sealed to the public key of a pair is opened with its private key.\<close>

definition hpke_opens :: "'a leaf_provider_scheme \<Rightarrow> Ciphersuite \<Rightarrow> EncryptionKeyPair \<Rightarrow> bool" where
  "hpke_opens p c kp \<longleftrightarrow>
     (\<forall>info pt ct. crypto_hpke_seal p (hpke_config c) (kp_public_key kp) info [] pt = Ok ct \<longrightarrow>
        crypto_hpke_open p (hpke_config c) ct (kp_private_key kp) info [] = Ok pt)"

lemma PathSecret_roundtrip:
  assumes "hpke_opens p c kp" "PathSecret_encrypt p c (kp_public_key kp) ctx secret = Ok ct"
  shows "PathSecret_decrypt p c ct (kp_private_key kp) ctx = Ok secret"
  using assms
  by (auto simp: PathSecret_encrypt_def PathSecret_decrypt_def encrypt_with_label_def decrypt_with_label_def
      outcome_bind_Ok_iff hpke_opens_def Secret_from_slice_def)

lemma path_keys_match:
  "map upn_public_key us = map (pn_encryption_key \<circ> snd) ds \<Longrightarrow> path_keys_match us ds"
  by (induction us ds rule: path_keys_match.induct) auto

lemma encrypt_path_Ok:
  assumes "encrypt_path p c plain ctx ex s d = Ok nodes" "filtered_copath_resolutions d s ex = Some rs"
  shows "length rs = length plain" "length nodes = length plain" "map upn_public_key nodes = map pupn_public_key plain"
    "\<And>m l. m < length plain \<Longrightarrow> l < length (rs ! m) \<Longrightarrow> l < length (encrypted_path_secrets (nodes ! m)) \<and>
       PathSecret_encrypt p c (node_encryption_key (snd (rs ! m ! l))) ctx (pupn_path_secret (plain ! m)) =
         Ok (encrypted_path_secrets (nodes ! m) ! l)"
proof -
  let ?keys = "map (\<lambda>(_, node_ref). node_encryption_key node_ref)"
  have ok: "length rs = length plain"
    "outcome_map (\<lambda>(node, resolution). PlainUpdatePathNode_encrypt p c resolution ctx node) (zip plain (map ?keys rs)) = Ok nodes"
    using assms by (auto simp: encrypt_path_def outcome_bind_Ok_iff debug_assert_def split: if_splits)
  then show "length rs = length plain" "length nodes = length plain" by (auto simp: outcome_map_Ok_iff)
  have node: "PlainUpdatePathNode_encrypt p c (?keys (rs ! m)) ctx (plain ! m) = Ok (nodes ! m)" if "m < length plain" for m
    using ok that by (simp add: outcome_map_Ok_iff)
  show "map upn_public_key nodes = map pupn_public_key plain"
  proof (rule nth_equalityI)
    fix m assume "m < length (map upn_public_key nodes)"
    then have "m < length plain" using ok by (simp add: outcome_map_Ok_iff)
    from node [OF this] this \<open>length nodes = length plain\<close>
    show "map upn_public_key nodes ! m = map pupn_public_key plain ! m"
      by (auto simp: PlainUpdatePathNode_encrypt_def outcome_bind_Ok_iff dest: sym)
  qed (simp add: \<open>length nodes = length plain\<close>)
  fix m l assume m: "m < length plain" and l: "l < length (rs ! m)"
  from node [OF m] l show "l < length (encrypted_path_secrets (nodes ! m)) \<and>
      PathSecret_encrypt p c (node_encryption_key (snd (rs ! m ! l))) ctx (pupn_path_secret (plain ! m)) =
        Ok (encrypted_path_secrets (nodes ! m) ! l)"
    by (auto simp: PlainUpdatePathNode_encrypt_def outcome_bind_Ok_iff outcome_map_Ok_iff case_prod_beta dest!: sym [of _ "nodes ! m"])
qed

lemma path_delivery:
  assumes wf: "TreeSync_wf n d" and full: "AbDiff_leaf d s \<noteq> None" "AbDiff_leaf d i \<noteq> None" and si: "s \<noteq> i" "i \<notin> ex"
    and owns: "owns_keys n d s i owned" and hpke: "\<forall>kp \<in> set owned. hpke_opens p c kp"
    and path: "filtered_direct_path d s = Some indices"
      "ParentNode_derive_path p c secret indices = Ok (path, plain, kps, cs)"
    and enc: "encrypt_path p c plain ctx ex s d = Ok nodes"
  shows "\<exists>m < length kps. subtree_root_position d s i = Ok m \<and>
    decrypt_path p c \<lparr>dpp_update_path = nodes, dpp_sender_leaf_index = s, dpp_exclusion_list = ex, dpp_group_context = ctx\<rparr>
      owned i d = Ok (drop m kps, cs)"
proof -
  have lt: "s < 2 ^ n" "i < 2 ^ n" using full_leaf_bound [OF wf] full by auto
  obtain j where j0: "j < n" "i div 2 ^ j = flip (s div 2 ^ j)" "i div 2 ^ Suc j = s div 2 ^ Suc j"
    "\<forall>m \<le> j. s div 2 ^ m \<noteq> i div 2 ^ m" "\<forall>m > j. s div 2 ^ m = i div 2 ^ m"
    by (rule split_level [OF si(1) lt])
  note j = j0(1-3) j0(4,5) [rule_format]
  let ?L = "filtered_levels d n s"
  obtain m where m: "m < length ?L" "?L ! m = j"
    using split_level_filtered [OF j(1,2) full(2)] by (auto simp: in_set_conv_nth)
  have idx: "indices = map (path_node s) ?L" using path(1) filtered_direct_path_eq [OF wf lt(1)] by simp
  note len = ParentNode_derive_path_lengths [OF path(2)]
  note pos = subtree_root_position_eq [OF wf lt si(1) j(1,4,3) m]
  note common = filtered_common_direct_path_eq [OF wf lt j(1) full j(2,3,4,5) m]
  obtain l kp where l: "l < length (copath_res d ex s j)" "kp \<in> set owned"
    "decryption_key d s ex owned i = Ok (kp_private_key kp, l)"
    "kp_public_key kp = node_encryption_key (snd (copath_res d ex s j ! l))"
    using decryption_key_eq [OF wf lt si(1) j(1,4,3,2) full(2) si(2) owns] by auto
  note e = encrypt_path_Ok [OF enc filtered_copath_resolutions_eq [OF wf lt(1)]]
  have mp: "m < length plain" using m(1) len(2) idx by simp
  have ct: "l < length (encrypted_path_secrets (nodes ! m))"
    "PathSecret_encrypt p c (kp_public_key kp) ctx (pupn_path_secret (plain ! m)) = Ok (encrypted_path_secrets (nodes ! m) ! l)"
    using e(4) [OF mp, of l] m l(1,4) by simp_all
  have dec: "PathSecret_decrypt p c (encrypted_path_secrets (nodes ! m) ! l) (kp_private_key kp) ctx =
      Ok (pupn_path_secret (plain ! m))"
    using hpke l(2) by (intro PathSecret_roundtrip [OF _ ct(2)]) simp
  have rest: "ParentNode_derive_path p c (pupn_path_secret (plain ! m)) (map (path_node s) (drop m ?L)) =
      Ok (drop m path, drop m plain, drop m kps, cs)"
    using ParentNode_derive_path_drop [OF path(2), of m] m(1) by (simp add: idx drop_map)
  have "path_keys_match (drop m nodes) (drop m path)"
    using e(3) len(4) by (intro path_keys_match) (simp flip: drop_map)
  then show ?thesis
    using m(1) mp pos common dec rest l(3) ct(1) e(2) len(3) idx
    by (intro exI [of _ m]) (simp add: decrypt_path_def)
qed

end
