(* ===== verification/TreeUpdates.thy ===== *)
theory TreeUpdates
  imports TreeKem
begin

text \<open>
  What the operations of \<open>treesync/diff.rs\<close> do to a well-formed ratchet tree: none of them panics,
  each gives a well-formed tree again, and the sender of an update path and its receivers end with the
  same tree and the same commit secret.
\<close>

section \<open>Writing nodes\<close>

lemma parent_mut_leaf_diff: "AbDiff_parent_mut d i f = Some d' \<Longrightarrow> leaf_diff d' = leaf_diff d"
  by (auto simp: AbDiff_parent_mut_def AbDiff_replace_parent_def debug_assert_def split: if_splits option.splits bind_splits)

lemma for_each_leaf_diff:
  assumes "\<And>x d d'. f x d = Some d' \<Longrightarrow> leaf_diff d' = leaf_diff d"
  shows "for_each f xs d = Some d' \<Longrightarrow> leaf_diff d' = leaf_diff d"
  by (induction xs arbitrary: d) (auto split: option.splits dest: assms)

lemma set_direct_path_leaf_diff: "AbDiff_set_direct_path_to_node d i x = Some d' \<Longrightarrow> leaf_diff d' = leaf_diff d"
  by (auto simp: AbDiff_set_direct_path_to_node_def AbDiff_replace_parent_Some split: bind_splits
      dest!: for_each_leaf_diff [rotated])

lemma for_each_parent_mut:
  assumes "AbDiff_wf d" "\<forall>x \<in> set xs. ix x < AbDiff_parent_count d" "distinct (map ix xs)"
  shows "\<exists>d'. for_each (\<lambda>x d. AbDiff_parent_mut d (ix x) (g x)) xs d = Some d' \<and> AbDiff_wf d' \<and>
    AbDiff_frame d' = AbDiff_frame d \<and> AbDiff_leaf d' = AbDiff_leaf d \<and> leaf_diff d' = leaf_diff d \<and>
    (\<forall>x \<in> set xs. AbDiff_parent d' (ix x) = g x (AbDiff_parent d (ix x))) \<and>
    (\<forall>j. j \<notin> ix ` set xs \<longrightarrow> AbDiff_parent d' j = AbDiff_parent d j)"
  using assms
proof (induction xs arbitrary: d)
  case (Cons x xs)
  obtain d1 where d1: "AbDiff_parent_mut d (ix x) (g x) = Some d1" "AbDiff_wf d1" "AbDiff_frame d1 = AbDiff_frame d"
    "AbDiff_leaf d1 = AbDiff_leaf d"
    and p1: "AbDiff_parent d1 = (AbDiff_parent d)(ix x := g x (AbDiff_parent d (ix x)))"
    using AbDiff_parent_mut_effect [OF Cons.prems(1), of "ix x" "g x"] Cons.prems(2) by auto
  have "AbDiff_parent_count d1 = AbDiff_parent_count d" using abd.frame_counts [OF d1(3)] by simp
  with Cons.IH [OF d1(2)] Cons.prems(2,3) obtain d' where
    d': "for_each (\<lambda>x d. AbDiff_parent_mut d (ix x) (g x)) xs d1 = Some d'" "AbDiff_wf d'"
      "AbDiff_frame d' = AbDiff_frame d1" "AbDiff_leaf d' = AbDiff_leaf d1" "leaf_diff d' = leaf_diff d1"
    and p': "\<forall>x \<in> set xs. AbDiff_parent d' (ix x) = g x (AbDiff_parent d1 (ix x))"
      "\<forall>j. j \<notin> ix ` set xs \<longrightarrow> AbDiff_parent d' j = AbDiff_parent d1 j"
    by auto
  have "ix x \<notin> ix ` set xs" using Cons.prems(3) by simp
  then have "AbDiff_parent d' (ix x) = g x (AbDiff_parent d (ix x))" using p'(2) p1 by simp
  moreover have "AbDiff_parent d' (ix y) = g y (AbDiff_parent d (ix y))" if "y \<in> set xs" for y
    using that p'(1) p1 \<open>ix x \<notin> ix ` set xs\<close> by (metis fun_upd_other image_eqI)
  moreover have "AbDiff_parent d' j = AbDiff_parent d j" if "j \<notin> ix ` set (x # xs)" for j
    using that p'(2) p1 by simp
  ultimately show ?case
    using d1 d' parent_mut_leaf_diff [OF d1(1)] by (intro exI [of _ d']) auto
qed simp

lemma for_each_parent_mut_all:
  assumes "AbDiff_wf d" "\<forall>j \<in> set js. j < AbDiff_parent_count d" "distinct js"
  shows "\<exists>d'. for_each (\<lambda>j d. AbDiff_parent_mut d j f) js d = Some d' \<and> AbDiff_wf d' \<and>
    AbDiff_frame d' = AbDiff_frame d \<and> AbDiff_leaf d' = AbDiff_leaf d \<and> leaf_diff d' = leaf_diff d \<and>
    (\<forall>j \<in> set js. AbDiff_parent d' j = f (AbDiff_parent d j)) \<and>
    (\<forall>j. j \<notin> set js \<longrightarrow> AbDiff_parent d' j = AbDiff_parent d j)"
  using for_each_parent_mut [of d js "\<lambda>j. j" "\<lambda>_. f"] assms by simp

section \<open>Well-formedness of a changed tree\<close>

text \<open>The part of a diff that writing nodes keeps.\<close>

lemma frame_wf:
  assumes "AbDiff_frame d' = AbDiff_frame d"
  shows "diff_size d' = diff_size d" "original_tree d' = original_tree d"
    "AbDiff_leaf_count d' = AbDiff_leaf_count d" "AbDiff_parent_count d' = AbDiff_parent_count d"
  using assms abd.frame_counts [OF assms] by (auto simp: AbDiff_frame_def)

lemma parent_ok_cong:
  assumes "parent_ok d k q pn" "\<And>x. x div 2 ^ Suc k = q \<Longrightarrow> AbDiff_leaf d' x = AbDiff_leaf d x"
  shows "parent_ok d' k q pn"
proof -
  have "occupied d' k p \<longleftrightarrow> occupied d k p" if "p div 2 = q" for p
  proof -
    have "AbDiff_leaf d' x = AbDiff_leaf d x" if "x div 2 ^ k = p" for x
      using that \<open>p div 2 = q\<close> by (intro assms(2)) (simp only: div_power_step)
    then show ?thesis unfolding occupied_def by metis
  qed
  from this [of "2 * q"] this [of "2 * q + 1"] show ?thesis
    using assms by (auto simp: parent_ok_def simp del: power_Suc)
qed

text \<open>
  A tree that differs from a well-formed one in one leaf and the path above it is well-formed if the
  new path is.
\<close>

lemma wf_path_change:
  assumes wf: "TreeSync_wf n d" and wf': "AbDiff_wf d'" and frame: "AbDiff_frame d' = AbDiff_frame d"
    and leaves: "\<And>x. x \<noteq> i \<Longrightarrow> AbDiff_leaf d' x = AbDiff_leaf d x"
    and has: "\<And>x y. x < 2 ^ n \<Longrightarrow> AbDiff_has_leaf d' x \<Longrightarrow> y < x \<Longrightarrow> AbDiff_has_leaf d' y"
    and off: "\<And>k q. in_tree n (Suc k) q \<Longrightarrow> q \<noteq> i div 2 ^ Suc k \<Longrightarrow>
      AbDiff_parent d' (node_at k q) = AbDiff_parent d (node_at k q)"
    and on: "\<And>k pn. k < n \<Longrightarrow> AbDiff_parent d' (path_node i k) = Some pn \<Longrightarrow> parent_ok d' k (i div 2 ^ Suc k) pn"
  shows "TreeSync_wf n d'"
proof -
  have "parent_ok d' k q pn" if t: "in_tree n (Suc k) q" and pn: "AbDiff_parent d' (node_at k q) = Some pn" for k q pn
  proof (cases "q = i div 2 ^ Suc k")
    case True
    then show ?thesis using on [of k pn] t pn by (simp add: in_tree_def)
  next
    case False
    have "parent_ok d k q pn" using TreeSync_wfD(7) [OF wf t] off [OF t False] pn by simp
    then show ?thesis
      by (rule parent_ok_cong) (rule leaves, use False in metis)
  qed
  then show ?thesis
    using TreeSync_wfD [OF wf] wf' frame_wf [OF frame] has unfolding TreeSync_wf_def by auto
qed

lemma has_leaf_insert:
  assumes "TreeSync_wf n d" "original_tree d' = original_tree d" "leaf_diff d' = btm_insert i x (leaf_diff d)"
  shows "AbDiff_has_leaf d' y \<longleftrightarrow> AbDiff_has_leaf d y \<or> y = i"
  using assms AbDiff_wfD(3) [OF TreeSync_wfD(1) [OF assms(1)]]
  by (auto simp: AbDiff_has_leaf_def btm_simps)

lemma not_has_leaf:
  assumes "TreeSync_wf n d" "\<not> AbDiff_has_leaf d i"
  shows "AbDiff_leaf d i = None"
  using assms TreeSync_wfD(4) [OF assms(1)] AbDiff_wfD(7) [OF TreeSync_wfD(1) [OF assms(1)]]
  by (simp add: AbDiff_has_leaf_def AbDiff_leaf_def ABinaryTree_leaf_by_index_def vec_get_def)

text \<open>Leaves are in the tree without gaps if all those before a new one are.\<close>

lemma has_leaf_prefix:
  assumes "TreeSync_wf n d" "original_tree d' = original_tree d" "leaf_diff d' = btm_insert i l (leaf_diff d)"
    and "\<And>y. y < i \<Longrightarrow> AbDiff_has_leaf d y"
    and "x < 2 ^ n" "AbDiff_has_leaf d' x" "y < x"
  shows "AbDiff_has_leaf d' y"
  using has_leaf_insert [OF assms(1-3)] TreeSync_wfD(6) [OF assms(1,5) _ assms(7)] assms(4-7) by blast

section \<open>Updating and blanking a leaf\<close>

definition set_leaf :: "LeafNode option \<Rightarrow> LeafNodeIndex \<Rightarrow> TreeSyncDiff \<Rightarrow> TreeSyncDiff option" where
  "set_leaf l i d = do { d \<leftarrow> AbDiff_replace_leaf d i l; AbDiff_set_direct_path_to_node d i None }"

lemma set_leaf_ops: "update_leaf leaf i d = set_leaf (Some leaf) i d" "blank_leaf i d = set_leaf None i d"
  by (simp_all add: update_leaf_def blank_leaf_def set_leaf_def)

lemma set_leaf_effect:
  assumes wf: "TreeSync_wf n d" and i: "i < 2 ^ n"
  shows "\<exists>d'. set_leaf l i d = Some d' \<and> AbDiff_wf d' \<and> AbDiff_frame d' = AbDiff_frame d \<and>
    leaf_diff d' = btm_insert i l (leaf_diff d) \<and> AbDiff_leaf d' = (AbDiff_leaf d)(i := l) \<and>
    AbDiff_parent d' = (\<lambda>j. if j \<in> path_node i ` {0..<n} then None else AbDiff_parent d j)"
proof -
  obtain d1 where d1: "AbDiff_replace_leaf d i l = Some d1"
    using abd.replace_leaf_defined [of i d l] i wf_leaf_count [OF wf] by auto
  note e = abd.replace_leaf_effect [OF TreeSync_wfD(1) [OF wf] d1]
  have "i < AbDiff_leaf_count d1" using i frame_wf(3) [of d1 d] e wf_leaf_count [OF wf] by simp
  from AbDiff_set_direct_path_effect [OF conjunct1 [OF e] this, of None]
  obtain path d' where d': "AbDiff_direct_path d1 i = Some path" "AbDiff_set_direct_path_to_node d1 i None = Some d'"
    "AbDiff_wf d'" "AbDiff_frame d' = AbDiff_frame d1" "AbDiff_leaf d' = AbDiff_leaf d1"
    "AbDiff_parent d' = (\<lambda>j. if j \<in> set path then None else AbDiff_parent d1 j)" by blast
  have "path = map (path_node i) [0..<n]"
    using d'(1) path_eq [OF wf i] frame_wf(1) [of d1 d] e by (simp add: AbDiff_direct_path_def)
  moreover have "leaf_diff d1 = btm_insert i l (leaf_diff d)" using d1 by (simp add: AbDiff_replace_leaf_Some)
  moreover have "set_leaf l i d = Some d'" using d1 d'(2) by (simp add: set_leaf_def)
  ultimately show ?thesis
    using d' e set_direct_path_leaf_diff [OF d'(2)] by (intro exI [of _ d']) auto
qed

lemma set_leaf_wf:
  assumes wf: "TreeSync_wf n d" and i: "i < 2 ^ n" "AbDiff_has_leaf d i"
  obtains d' where "set_leaf l i d = Some d'" "TreeSync_wf n d'" "AbDiff_frame d' = AbDiff_frame d"
    "AbDiff_leaf d' = (AbDiff_leaf d)(i := l)"
    "\<forall>k q. in_tree n (Suc k) q \<longrightarrow>
       AbDiff_parent d' (node_at k q) = (if q = i div 2 ^ Suc k then None else AbDiff_parent d (node_at k q))"
proof -
  obtain d' where d': "set_leaf l i d = Some d'" "AbDiff_wf d'" "AbDiff_frame d' = AbDiff_frame d"
    "leaf_diff d' = btm_insert i l (leaf_diff d)" "AbDiff_leaf d' = (AbDiff_leaf d)(i := l)"
    "AbDiff_parent d' = (\<lambda>j. if j \<in> path_node i ` {0..<n} then None else AbDiff_parent d j)"
    using set_leaf_effect [OF wf i(1), of l] by blast
  have p: "AbDiff_parent d' (node_at k q) = (if q = i div 2 ^ Suc k then None else AbDiff_parent d (node_at k q))"
    if "in_tree n (Suc k) q" for k q
    using that by (auto simp: d'(6) in_tree_def image_iff simp del: power_Suc)
  have "TreeSync_wf n d'"
  proof (rule wf_path_change [OF wf d'(2,3)])
    show "AbDiff_leaf d' x = AbDiff_leaf d x" if "x \<noteq> i" for x using that d'(5) by simp
    show "AbDiff_has_leaf d' y" if "x < 2 ^ n" "AbDiff_has_leaf d' x" "y < x" for x y
      by (rule has_leaf_prefix [OF wf frame_wf(2) [OF d'(3)] d'(4) _ that]) (rule TreeSync_wfD(6) [OF wf i])
    show "AbDiff_parent d' (node_at k q) = AbDiff_parent d (node_at k q)"
      if "in_tree n (Suc k) q" "q \<noteq> i div 2 ^ Suc k" for k q
      using p [OF that(1)] that(2) by (simp del: power_Suc)
    show "parent_ok d' k (i div 2 ^ Suc k) pn" if "k < n" "AbDiff_parent d' (path_node i k) = Some pn" for k pn
      using that p [OF in_tree_div [OF i(1)], of k] by simp
  qed
  then show ?thesis using that d'(1,3,5) p by blast
qed

section \<open>Adding a leaf\<close>

lemma free_leaf_loop_spec:
  assumes "free_leaf_loop (map (\<lambda>i. (i, f i)) [a..<b]) a = r" "a \<le> b"
  shows "a \<le> r \<and> r \<le> b \<and> (r < b \<longrightarrow> f r = None) \<and> (\<forall>x. a \<le> x \<longrightarrow> x < r \<longrightarrow> f x \<noteq> None)"
  using assms
proof (induction "b - a" arbitrary: a)
  case (Suc m)
  then have up: "[a..<b] = a # [Suc a..<b]" by (simp add: upt_conv_Cons)
  show ?case
  proof (cases "f a = None")
    case True
    with Suc.prems up show ?thesis by auto
  next
    case False
    have m: "m = b - Suc a" "Suc a \<le> b" using Suc.hyps(2) by simp_all
    have "free_leaf_loop (map (\<lambda>i. (i, f i)) [Suc a..<b]) (Suc a) = r" using Suc.prems(1) False up by simp
    note IH = Suc.hyps(1) [OF m(1) this m(2)]
    have "f x \<noteq> None" if "a \<le> x" "x < r" for x
      using that False IH [THEN conjunct2, THEN conjunct2, THEN conjunct2, rule_format, of x] by (cases "x = a") simp_all
    with IH show ?thesis by simp
  qed
qed simp

text \<open>The leaves of a well-formed tree are the first ones, so the iterator lists an interval.\<close>

lemma leaves_interval:
  assumes wf: "TreeSync_wf n d"
  obtains h where "h \<le> 2 ^ n" "AbDiff_leaves d = map (\<lambda>i. (i, AbDiff_leaf d i)) [0..<h]"
    "\<forall>i \<ge> h. AbDiff_leaf d i = None"
proof -
  let ?P = "AbDiff_has_leaf d"
  have "\<exists>h \<le> N. filter ?P [0..<N] = [0..<h] \<and> (\<forall>i. h \<le> i \<longrightarrow> i < N \<longrightarrow> \<not> ?P i)" if "N \<le> 2 ^ n" for N
    using that
  proof (induction N)
    case (Suc N)
    then obtain h where h: "h \<le> N" "filter ?P [0..<N] = [0..<h]" "\<forall>i. h \<le> i \<longrightarrow> i < N \<longrightarrow> \<not> ?P i" by auto
    show ?case
    proof (cases "?P N")
      case True
      have "h = N"
      proof (rule ccontr)
        assume "h \<noteq> N"
        then have "h < N" using h(1) by simp
        then have "?P h" using TreeSync_wfD(6) [OF wf _ True] Suc.prems by simp
        with h(3) \<open>h < N\<close> show False by blast
      qed
      with h True show ?thesis by (intro exI [of _ "Suc N"]) auto
    next
      case False
      with h show ?thesis by (intro exI [of _ h]) (auto simp: less_Suc_eq)
    qed
  qed simp
  from this [of "2 ^ n"] obtain h where h: "h \<le> 2 ^ n" "filter ?P [0..<2 ^ n] = [0..<h]"
    "\<forall>i. h \<le> i \<longrightarrow> i < 2 ^ n \<longrightarrow> \<not> ?P i" by auto
  have "AbDiff_leaf d i = None" if "h \<le> i" for i
  proof (cases "i < 2 ^ n")
    case True
    with h(3) that have "\<not> ?P i" by blast
    then show ?thesis by (rule not_has_leaf [OF wf])
  next
    case False
    then show ?thesis using full_leaf_bound [OF wf, of i] by blast
  qed
  then show ?thesis
    using that [of h] h AbDiff_leaves_eq [OF TreeSync_wfD(1) [OF wf]] wf_leaf_count [OF wf] by simp
qed

lemma free_leaf_index_spec:
  assumes wf: "TreeSync_wf n d"
  shows "free_leaf_index d \<le> 2 ^ n" "AbDiff_leaf d (free_leaf_index d) = None"
    "\<And>x. x < free_leaf_index d \<Longrightarrow> AbDiff_leaf d x \<noteq> None"
proof -
  obtain h where h: "h \<le> 2 ^ n" "AbDiff_leaves d = map (\<lambda>i. (i, AbDiff_leaf d i)) [0..<h]"
    "\<forall>i \<ge> h. AbDiff_leaf d i = None"
    by (rule leaves_interval [OF wf])
  have s: "0 \<le> free_leaf_index d \<and> free_leaf_index d \<le> h \<and>
      (free_leaf_index d < h \<longrightarrow> AbDiff_leaf d (free_leaf_index d) = None) \<and>
      (\<forall>x. 0 \<le> x \<longrightarrow> x < free_leaf_index d \<longrightarrow> AbDiff_leaf d x \<noteq> None)"
    by (rule free_leaf_loop_spec) (simp_all add: free_leaf_index_def h(2))
  then show "free_leaf_index d \<le> 2 ^ n" using h(1) by linarith
  show "AbDiff_leaf d (free_leaf_index d) = None"
    using s h(3) [rule_format, of "free_leaf_index d"] by (cases "free_leaf_index d < h") auto
  show "AbDiff_leaf d x \<noteq> None" if "x < free_leaf_index d" for x using s that by blast
qed

text \<open>The tree that the diff starts from is not larger than the diff.\<close>

definition unshrunk :: "nat \<Rightarrow> TreeSyncDiff \<Rightarrow> bool" where
  "unshrunk n d \<longleftrightarrow> length (leaf_nodes (original_tree d)) \<le> 2 ^ n"

lemma parent_beyond:
  assumes wf: "TreeSync_wf n d" and u: "unshrunk n d" and t: "\<not> in_tree n (Suc k) q"
  shows "AbDiff_parent d (node_at k q) = None"
proof -
  note w = TreeSync_wfD [OF wf] note a = AbDiff_wfD [OF w(1)]
  have "\<not> node_at (Suc k) q < depth_size n" using t by (simp only: node_at_less_iff not_False_eq_True)
  then have ge: "2 ^ n - 1 \<le> node_at k q" by (simp add: node_at_Suc depth_size_eq)
  then have "node_at k q \<notin> fst ` set (parent_diff d)"
    using a(6) [of "node_at k q"] w(3) by (auto simp: AbDiff_parent_count_def)
  then have "btm_get (parent_diff d) (node_at k q) = None" by (auto simp: btm_get_def map_of_eq_None_iff)
  moreover have "length (parent_nodes (original_tree d)) \<le> node_at k q"
    using a(1) u ge by (simp add: ABinaryTree_wf_def unshrunk_def)
  ultimately show ?thesis
    using w(5) by (simp add: AbDiff_parent_def ABinaryTree_parent_by_index_def)
qed

lemma grow_wf:
  assumes wf: "TreeSync_wf n d" and u: "unshrunk n d" and n: "n < 29"
    and d': "d' = d\<lparr>diff_size := depth_size (Suc n)\<rparr>"
  shows "TreeSync_wf (Suc n) d'" "AbDiff_leaf d' = AbDiff_leaf d" "AbDiff_parent d' = AbDiff_parent d"
proof -
  note w = TreeSync_wfD [OF wf] note a = AbDiff_wfD [OF w(1)]
  show leaf: "AbDiff_leaf d' = AbDiff_leaf d"
  proof
    fix i
    have "ABinaryTree_leaf_by_index (original_tree d) i = None" if "2 ^ n \<le> i"
      using u that w(4) by (simp add: ABinaryTree_leaf_by_index_def unshrunk_def)
    then show "AbDiff_leaf d' i = AbDiff_leaf d i"
      using a(7) w(3,4) by (auto simp: d' AbDiff_leaf_def AbDiff_leaf_count_def split: option.split)
  qed
  show par: "AbDiff_parent d' = AbDiff_parent d" by (simp add: d' AbDiff_parent_def fun_eq_iff cong: option.case_cong)
  have "AbDiff_wf d'"
    using AbDiff_grow_tree_wf [OF w(1)] AbDiff_grow_tree_eq [OF w(3,2)] n by (simp add: d')
  moreover have "parent_ok d' k q pn" if "in_tree (Suc n) (Suc k) q" "AbDiff_parent d' (node_at k q) = Some pn" for k q pn
  proof -
    have "in_tree n (Suc k) q" using parent_beyond [OF wf u, of k q] that(2) par by auto
    then have "parent_ok d k q pn" using w(7) that(2) par by simp
    then show ?thesis by (rule parent_ok_cong) (simp add: leaf)
  qed
  moreover have "AbDiff_has_leaf d' j" if "AbDiff_has_leaf d' i" "j < i" for i j
  proof -
    have i: "AbDiff_has_leaf d i" using that(1) by (simp add: AbDiff_has_leaf_def d')
    have "i < 2 ^ n"
      using i u a(5) [of i] w(3)
      by (auto simp: AbDiff_has_leaf_def unshrunk_def AbDiff_leaf_count_def btm_get_def map_of_eq_None_iff)
    from w(6) [OF this i that(2)] show ?thesis by (simp add: AbDiff_has_leaf_def d')
  qed
  ultimately show "TreeSync_wf (Suc n) d'"
    using n w(4,5) unfolding TreeSync_wf_def by (auto simp: d')
qed

lemma has_leaf_full: "TreeSync_wf n d \<Longrightarrow> AbDiff_leaf d x \<noteq> None \<Longrightarrow> AbDiff_has_leaf d x"
  by (metis not_has_leaf)

lemma path_node_bound:
  assumes "TreeSync_wf n d" "i < 2 ^ n" "k < n"
  shows "path_node i k < AbDiff_parent_count d"
  using parent_in_tree_bound [OF in_tree_div [OF assms(2), of "Suc k"]] assms(3) TreeSync_wfD(3) [OF assms(1)]
  by (simp add: AbDiff_parent_count_def)

lemma distinct_path: "distinct (map (path_node i) [0..<n])"
  by (auto simp: distinct_map inj_on_def path_node_inj)

lemma parent_ok_add_unmerged:
  assumes "parent_ok d k (i div 2 ^ Suc k) pn" "AbDiff_leaf d i = None" "AbDiff_leaf d' = (AbDiff_leaf d)(i := Some l)"
  shows "parent_ok d' k (i div 2 ^ Suc k) (add_unmerged_leaf i pn)"
proof -
  have occ: "occupied d' k p" if "occupied d k p" for p
    using that assms(2,3) unfolding occupied_def by (metis fun_upd_apply option.distinct(1))
  have "i \<notin> set (pn_unmerged_leaves pn)" using assms(1,2) by (auto simp: parent_ok_def)
  then show ?thesis
    using assms occ
    by (auto simp: parent_ok_def add_unmerged_leaf_def set_UnmergedLeaves_add sorted_UnmergedLeaves_add simp del: power_Suc)
qed

definition insert_leaf :: "LeafNode \<Rightarrow> LeafNodeIndex \<Rightarrow> TreeSyncDiff \<Rightarrow> TreeSyncDiff option" where
  "insert_leaf leaf_node leaf_index d = do {
     d \<leftarrow> AbDiff_replace_leaf d leaf_index (Some leaf_node);
     path \<leftarrow> AbDiff_direct_path d leaf_index;
     for_each (\<lambda>parent_index d.
         AbDiff_parent_mut d parent_index (map_option (add_unmerged_leaf leaf_index))) path d }"

lemma insert_leaf_wf:
  assumes wf: "TreeSync_wf n d" and i: "i < 2 ^ n" "AbDiff_leaf d i = None" "\<forall>x < i. AbDiff_leaf d x \<noteq> None"
  obtains d' where "insert_leaf l i d = Some d'" "TreeSync_wf n d'" "AbDiff_frame d' = AbDiff_frame d"
    "AbDiff_leaf d' = (AbDiff_leaf d)(i := Some l)"
    "\<forall>k q. in_tree n (Suc k) q \<longrightarrow> AbDiff_parent d' (node_at k q) =
       (if q = i div 2 ^ Suc k then map_option (add_unmerged_leaf i) (AbDiff_parent d (node_at k q))
        else AbDiff_parent d (node_at k q))"
proof -
  obtain d1 where d1: "AbDiff_replace_leaf d i (Some l) = Some d1"
    using abd.replace_leaf_defined [of i d "Some l"] i wf_leaf_count [OF wf] by auto
  note e = abd.replace_leaf_effect [OF TreeSync_wfD(1) [OF wf] d1]
  note e1 = e [THEN conjunct1] and e2 = e [THEN conjunct2, THEN conjunct1]
    and e3 = e [THEN conjunct2, THEN conjunct2, THEN conjunct1] and fr = e [THEN conjunct2, THEN conjunct2, THEN conjunct2]
  let ?path = "map (path_node i) [0..<n]"
  have path: "AbDiff_direct_path d1 i = Some ?path"
    using path_eq [OF wf i(1)] frame_wf(1) [OF fr] by (simp add: AbDiff_direct_path_def)
  have b: "\<forall>j \<in> set ?path. j < AbDiff_parent_count d1"
    using path_node_bound [OF wf i(1)] frame_wf(4) [OF fr] by auto
  obtain d' where d': "for_each (\<lambda>j d. AbDiff_parent_mut d j (map_option (add_unmerged_leaf i))) ?path d1 = Some d'"
    "AbDiff_wf d'" "AbDiff_frame d' = AbDiff_frame d1" "AbDiff_leaf d' = AbDiff_leaf d1" "leaf_diff d' = leaf_diff d1"
    "\<forall>j \<in> set ?path. AbDiff_parent d' j = map_option (add_unmerged_leaf i) (AbDiff_parent d1 j)"
    "\<forall>j. j \<notin> set ?path \<longrightarrow> AbDiff_parent d' j = AbDiff_parent d1 j"
    using for_each_parent_mut_all [OF e1 b distinct_path, where f = "map_option (add_unmerged_leaf i)"]
    by (elim exE conjE) (rule that)
  have ins: "insert_leaf l i d = Some d'" using d1 path d'(1) by (simp add: insert_leaf_def)
  have fr': "AbDiff_frame d' = AbDiff_frame d" using d'(3) fr by simp
  have leaf: "AbDiff_leaf d' = (AbDiff_leaf d)(i := Some l)" using d'(4) e2 by simp
  have ld: "leaf_diff d' = btm_insert i (Some l) (leaf_diff d)" using d'(5) d1 by (simp add: AbDiff_replace_leaf_Some)
  have p: "AbDiff_parent d' (node_at k q) = (if q = i div 2 ^ Suc k then map_option (add_unmerged_leaf i) (AbDiff_parent d (node_at k q))
      else AbDiff_parent d (node_at k q))" if "in_tree n (Suc k) q" for k q
  proof (cases "q = i div 2 ^ Suc k")
    case True
    then have "node_at k q \<in> set ?path" using that by (auto simp: in_tree_def)
    from d'(6) [rule_format, OF this] True e3 show ?thesis by (simp only: if_True simp_thms)
  next
    case False
    then have "node_at k q \<notin> set ?path" by auto
    from d'(7) [rule_format, OF this] False e3 show ?thesis by (simp only: if_False)
  qed
  have "TreeSync_wf n d'"
  proof (rule wf_path_change [OF wf d'(2) fr'])
    show "AbDiff_leaf d' x = AbDiff_leaf d x" if "x \<noteq> i" for x using that leaf by simp
    show "AbDiff_has_leaf d' y" if "x < 2 ^ n" "AbDiff_has_leaf d' x" "y < x" for x y
      by (rule has_leaf_prefix [OF wf frame_wf(2) [OF fr'] ld _ that]) (rule has_leaf_full [OF wf i(3) [rule_format]])
    show "AbDiff_parent d' (node_at k q) = AbDiff_parent d (node_at k q)"
      if "in_tree n (Suc k) q" "q \<noteq> i div 2 ^ Suc k" for k q
      using p [OF that(1)] that(2) by (simp del: power_Suc)
    show "parent_ok d' k (i div 2 ^ Suc k) pn" if k: "k < n" "AbDiff_parent d' (path_node i k) = Some pn" for k pn
    proof -
      have t: "in_tree n (Suc k) (i div 2 ^ Suc k)" using k(1) i(1) by (intro in_tree_div) auto
      from p [OF t] k(2) obtain pn0 where pn0: "AbDiff_parent d (path_node i k) = Some pn0" "pn = add_unmerged_leaf i pn0"
        by auto
      from TreeSync_wfD(7) [OF wf t pn0(1)] show ?thesis
        unfolding pn0(2) by (rule parent_ok_add_unmerged [OF _ i(2) leaf])
    qed
  qed
  then show ?thesis using that ins fr' leaf p by blast
qed

text \<open>
  A new member gets the leftmost blank leaf. The tree grows by one level exactly if there is none, and
  is full if it cannot grow.
\<close>

lemma grow_to_eq:
  assumes wf: "TreeSync_wf n d" and i: "i \<le> 2 ^ n"
  shows "grow_to i d = (if i < 2 ^ n then (d, Ok ()) else if n = 29 then (d, Err TreeFull)
    else (d\<lparr>diff_size := depth_size (Suc n)\<rparr>, Ok ()))"
proof -
  note w = TreeSync_wfD [OF wf]
  have "grow_to (2 ^ n) (d\<lparr>diff_size := depth_size (Suc n)\<rparr>) = (d\<lparr>diff_size := depth_size (Suc n)\<rparr>, Ok ())"
    by (subst grow_to.simps) simp
  then show ?thesis
    using i w(3) AbDiff_grow_tree_eq [OF w(3,2)] by (subst grow_to.simps) auto
qed

lemma add_leaf_unfold:
  "add_leaf l d = try_then (grow_to (free_leaf_index d) d)
     (\<lambda>d' _. case insert_leaf l (free_leaf_index d) d' of Some d'' \<Rightarrow> (d'', Ok (free_leaf_index d)) | None \<Rightarrow> (d', Panic))"
  by (simp add: add_leaf_def insert_leaf_def Let_def)

lemma add_leaf_wf:
  assumes wf: "TreeSync_wf n d" and i: "i = free_leaf_index d" "i < 2 ^ n \<or> unshrunk n d"
    and m: "m = (if i < 2 ^ n then n else Suc n)" "m < 30"
  obtains d' where "add_leaf l d = (d', Ok i)" "TreeSync_wf m d'" "original_tree d' = original_tree d"
    "AbDiff_leaf d' = (AbDiff_leaf d)(i := Some l)"
    "\<forall>k q. in_tree m (Suc k) q \<longrightarrow> AbDiff_parent d' (node_at k q) =
       (if q = i div 2 ^ Suc k then map_option (add_unmerged_leaf i) (AbDiff_parent d (node_at k q))
        else AbDiff_parent d (node_at k q))"
proof -
  note f = free_leaf_index_spec [OF wf, folded i(1)]
  define d1 where "d1 = (if i < 2 ^ n then d else d\<lparr>diff_size := depth_size (Suc n)\<rparr>)"
  have d1: "TreeSync_wf m d1" "AbDiff_leaf d1 = AbDiff_leaf d" "AbDiff_parent d1 = AbDiff_parent d"
    "original_tree d1 = original_tree d"
    using wf grow_wf [OF wf _ _ refl] i(2) m by (auto simp: d1_def split: if_splits)
  have "grow_to i d = (d1, Ok ())" using grow_to_eq [OF wf f(1)] m by (auto simp: d1_def split: if_splits)
  moreover have "i < 2 ^ m" using f(1) m(1) by (auto intro: le_less_trans)
  then obtain d' where d': "insert_leaf l i d1 = Some d'" "TreeSync_wf m d'" "AbDiff_frame d' = AbDiff_frame d1"
    "AbDiff_leaf d' = (AbDiff_leaf d1)(i := Some l)"
    "\<forall>k q. in_tree m (Suc k) q \<longrightarrow> AbDiff_parent d' (node_at k q) =
       (if q = i div 2 ^ Suc k then map_option (add_unmerged_leaf i) (AbDiff_parent d1 (node_at k q))
        else AbDiff_parent d1 (node_at k q))"
    using insert_leaf_wf [OF d1(1), of i] f(2,3) d1(2) by metis
  ultimately have "add_leaf l d = (d', Ok i)" by (simp add: add_leaf_unfold flip: i(1))
  then show ?thesis using that d' d1 frame_wf(2) [OF d'(3)] by simp
qed

section \<open>Trimming the tree\<close>

lemma rightmost_fold:
  fixes f :: "nat \<Rightarrow> 'a option"
  assumes "r = fold (\<lambda>(i, l) acc. if l \<noteq> None then i else acc) (map (\<lambda>i. (i, f i)) [0..<h]) 0"
  shows "(\<forall>x. r < x \<longrightarrow> x < h \<longrightarrow> f x = None) \<and> (r = 0 \<or> f r \<noteq> None \<and> r < h)"
  using assms
proof (induction h arbitrary: r)
  case (Suc h)
  let ?r = "fold (\<lambda>(i, l) acc. if l \<noteq> None then i else acc) (map (\<lambda>i. (i, f i)) [0..<h]) 0"
  have r: "r = (if f h \<noteq> None then h else ?r)" using Suc.prems by simp
  from Suc.IH [OF refl] show ?case unfolding r by (auto simp: less_Suc_eq)
qed simp

lemma rightmost_full_leaf_spec:
  assumes wf: "TreeSync_wf n d"
  shows "\<And>x. rightmost_full_leaf d < x \<Longrightarrow> AbDiff_leaf d x = None"
    "rightmost_full_leaf d = 0 \<or> AbDiff_leaf d (rightmost_full_leaf d) \<noteq> None"
proof -
  obtain h where h: "h \<le> 2 ^ n" "AbDiff_leaves d = map (\<lambda>i. (i, AbDiff_leaf d i)) [0..<h]"
    "\<forall>i \<ge> h. AbDiff_leaf d i = None"
    by (rule leaves_interval [OF wf])
  note r = rightmost_fold [OF rightmost_full_leaf_def [of d, unfolded h(2)]]
  show "AbDiff_leaf d x = None" if "rightmost_full_leaf d < x" for x
    using r [THEN conjunct1, rule_format, OF that] h(3) [rule_format, of x] by (cases "x < h") auto
  show "rightmost_full_leaf d = 0 \<or> AbDiff_leaf d (rightmost_full_leaf d) \<noteq> None" using r by blast
qed

lemma shrink_wf:
  assumes wf: "TreeSync_wf (Suc m) d" and blank: "\<And>x. 2 ^ m \<le> x \<Longrightarrow> AbDiff_leaf d x = None"
  obtains d' where "AbDiff_shrink_tree d = (d', Ok ())" "TreeSync_wf m d'" "AbDiff_leaf d' = AbDiff_leaf d"
    "\<forall>k q. in_tree m (Suc k) q \<longrightarrow> AbDiff_parent d' (node_at k q) = AbDiff_parent d (node_at k q)"
    "original_tree d' = original_tree d"
proof -
  note w = TreeSync_wfD [OF wf] note a = AbDiff_wfD [OF w(1)]
  define d' where "d' = d\<lparr>diff_size := depth_size m,
      leaf_diff := btm_retain (\<lambda>i. i < 2 ^ m) (leaf_diff d),
      parent_diff := btm_retain (\<lambda>i. i < 2 ^ m - 1) (parent_diff d)\<rparr>"
  have s: "AbDiff_shrink_tree d = (d', Ok ())" using AbDiff_shrink_tree_eq [OF w(3,2)] by (simp add: d'_def)
  have leaf: "AbDiff_leaf d' = AbDiff_leaf d"
  proof
    fix i
    show "AbDiff_leaf d' i = AbDiff_leaf d i"
    proof (cases "i < 2 ^ m")
      case True
      then have "i < 2 ^ Suc m" by simp
      with True show ?thesis using w(3)
        by (simp add: d'_def AbDiff_leaf_def AbDiff_leaf_count_def btm_simps cong: option.case_cong)
    next
      case False
      then show ?thesis using blank [of i] w(4) a(7) by (simp add: d'_def AbDiff_leaf_def AbDiff_leaf_count_def btm_simps)
    qed
  qed
  have par: "AbDiff_parent d' (node_at k q) = AbDiff_parent d (node_at k q)" if "in_tree m (Suc k) q" for k q
    using parent_in_tree_bound [OF that] by (simp add: d'_def AbDiff_parent_def btm_simps cong: option.case_cong)
  have "AbDiff_wf d'" using AbDiff_shrink_tree_wf [OF w(1)] s by simp
  moreover have "parent_ok d' k q pn" if "in_tree m (Suc k) q" "AbDiff_parent d' (node_at k q) = Some pn" for k q pn
  proof -
    have "in_tree (Suc m) (Suc k) q" using that(1) by (auto simp: in_tree_def Suc_diff_le intro: less_le_trans)
    then have "parent_ok d k q pn" using w(7) that par by simp
    then show ?thesis by (rule parent_ok_cong) (simp add: leaf)
  qed
  moreover have "AbDiff_has_leaf d' j" if "i < 2 ^ m" "AbDiff_has_leaf d' i" "j < i" for i j
  proof -
    have h: "AbDiff_has_leaf d' x \<longleftrightarrow> AbDiff_has_leaf d x" if "x < 2 ^ m" for x
      using that by (simp add: AbDiff_has_leaf_def d'_def btm_simps)
    show ?thesis using w(6) [of i j] that h by simp
  qed
  ultimately have "TreeSync_wf m d'"
    using w(2,4,5) unfolding TreeSync_wf_def by (auto simp: d'_def)
  then show ?thesis using that s leaf par by (simp add: d'_def)
qed

lemma trim_loop_wf:
  assumes "TreeSync_wf n d" "\<And>x. r < x \<Longrightarrow> AbDiff_leaf d x = None"
  shows "\<exists>m \<le> n. \<exists>d'. trim_loop r d = Some d' \<and> TreeSync_wf m d' \<and> AbDiff_leaf d' = AbDiff_leaf d \<and>
    (\<forall>k q. in_tree m (Suc k) q \<longrightarrow> AbDiff_parent d' (node_at k q) = AbDiff_parent d (node_at k q)) \<and>
    original_tree d' = original_tree d \<and> 2 ^ m div 2 \<le> r"
  using assms
proof (induction n arbitrary: d)
  case 0
  then show ?case
    by (intro exI [of _ 0] exI [of _ d] conjI)
      (simp_all add: trim_loop.simps [of r d] TreeSync_wfD(3) TreeSize_leaf_is_left_def)
next
  case (Suc n)
  note w = TreeSync_wfD [OF Suc.prems(1)]
  show ?case
  proof (cases "r < 2 ^ n")
    case False
    then show ?thesis using Suc.prems(1) w(3)
      by (intro exI [of _ "Suc n"] exI [of _ d] conjI) (simp_all add: trim_loop.simps [of r d] TreeSize_leaf_is_left_def)
  next
    case True
    then have "AbDiff_leaf d x = None" if "2 ^ n \<le> x" for x using that by (intro Suc.prems(2)) simp
    from shrink_wf [OF Suc.prems(1) this] obtain d1 where d1: "AbDiff_shrink_tree d = (d1, Ok ())" "TreeSync_wf n d1"
      "AbDiff_leaf d1 = AbDiff_leaf d" "original_tree d1 = original_tree d"
      and p1: "\<forall>k q. in_tree n (Suc k) q \<longrightarrow> AbDiff_parent d1 (node_at k q) = AbDiff_parent d (node_at k q)" by metis
    have "trim_loop r d = trim_loop r d1"
      using d1(1) True w(3) by (simp add: trim_loop.simps [of r d] TreeSize_leaf_is_left_def)
    moreover obtain m d' where "m \<le> n" "trim_loop r d1 = Some d'" "TreeSync_wf m d'" "AbDiff_leaf d' = AbDiff_leaf d1"
      and p': "\<forall>k q. in_tree m (Suc k) q \<longrightarrow> AbDiff_parent d' (node_at k q) = AbDiff_parent d1 (node_at k q)"
      and "original_tree d' = original_tree d1" "2 ^ m div 2 \<le> r"
      using Suc.IH [OF d1(2)] Suc.prems(2) d1(3) by metis
    moreover have "AbDiff_parent d' (node_at k q) = AbDiff_parent d (node_at k q)" if "in_tree m (Suc k) q" for k q
    proof -
      have "in_tree n (Suc k) q" using that \<open>m \<le> n\<close> by (auto simp: in_tree_def intro: less_le_trans)
      then show ?thesis using p1 p' that by simp
    qed
    ultimately show ?thesis using d1 by (intro exI [of _ m] conjI exI [of _ d']) auto
  qed
qed

text \<open>
  Trimming keeps every member and every node above a member, and leaves the smallest tree that holds
  the rightmost member.
\<close>

lemma trim_tree_wf:
  assumes wf: "TreeSync_wf n d"
  obtains m d' where "m \<le> n" "trim_tree d = Some d'" "TreeSync_wf m d'" "AbDiff_leaf d' = AbDiff_leaf d"
    "\<forall>k q. in_tree m (Suc k) q \<longrightarrow> AbDiff_parent d' (node_at k q) = AbDiff_parent d (node_at k q)"
    "original_tree d' = original_tree d" "m = 0 \<or> (\<exists>x \<ge> 2 ^ (m - 1). AbDiff_leaf d x \<noteq> None)"
proof (cases "n = 0")
  case True
  then show ?thesis using that [of 0 d] wf wf_leaf_count [OF wf] by (simp add: trim_tree_def MIN_TREE_SIZE_def)
next
  case False
  then have "(2::nat) ^ n \<noteq> MIN_TREE_SIZE" by (simp add: MIN_TREE_SIZE_def)
  then have t: "trim_tree d = trim_loop (rightmost_full_leaf d) d" by (simp add: trim_tree_def wf_leaf_count [OF wf])
  obtain m d' where d': "m \<le> n" "trim_loop (rightmost_full_leaf d) d = Some d'" "TreeSync_wf m d'" "AbDiff_leaf d' = AbDiff_leaf d"
    "\<forall>k q. in_tree m (Suc k) q \<longrightarrow> AbDiff_parent d' (node_at k q) = AbDiff_parent d (node_at k q)"
    "original_tree d' = original_tree d" "2 ^ m div 2 \<le> rightmost_full_leaf d"
    using trim_loop_wf [OF wf rightmost_full_leaf_spec(1) [OF wf]] by metis
  have "m = 0 \<or> (\<exists>x \<ge> 2 ^ (m - 1). AbDiff_leaf d x \<noteq> None)"
  proof (cases m)
    case (Suc l)
    then have "2 ^ l \<le> rightmost_full_leaf d" using d'(7) by simp
    moreover from this have "rightmost_full_leaf d \<noteq> 0" by (metis le_zero_eq power_eq_0_iff zero_neq_numeral)
    ultimately show ?thesis using rightmost_full_leaf_spec(2) [OF wf] Suc by auto
  qed simp
  then show ?thesis using that d' t by simp
qed

section \<open>A tree with blank parents\<close>

lemma blank_parents_wf:
  assumes "n < 30" "length ls = 2 ^ n"
    and t: "t = \<lparr>leaf_nodes = ls, parent_nodes = replicate (2 ^ n - 1) None, default_leaf = None, default_parent = None\<rparr>"
  obtains d where "ABinaryTree_empty_diff t = Some d" "TreeSync_wf n d" "unshrunk n d"
    "AbDiff_leaf d = (\<lambda>i. if i < 2 ^ n then ls ! i else None)" "AbDiff_parent d = (\<lambda>_. None)"
proof -
  have pow: "(2::nat) ^ n + (2 ^ n - 1) = depth_size n"
    by (rule power_two_Suc [of n]) (simp add: depth_size_def)
  have "depth_size n \<le> MAX_TREE_SIZE"
    using depth_size_less [of n] assms(1) power_increasing [of "Suc n" 30 "2::nat"]
    by (simp add: MAX_TREE_SIZE_def depth_size_eq)
  then have wf: "ABinaryTree_wf t" using assms(2) pow by (simp add: t ABinaryTree_wf_def)
  then obtain d where d: "ABinaryTree_empty_diff t = Some d" "AbDiff_wf d" "original_tree d = t"
    "AbDiff_leaf d = ABinaryTree_leaf t" "AbDiff_parent d = ABinaryTree_parent t"
    using ABinaryTree_empty_diff_effect by blast
  have "TreeSize_new (depth_size n) = Some (depth_size n)"
    using assms(1) TreeSize_new_eq [of n "depth_size n"] by (simp add: depth_size_def)
  then have sz: "diff_size d = depth_size n" "leaf_diff d = []"
    using d(1) assms(2) pow depth_size_less [of n] assms(1)
    by (auto simp: ABinaryTree_empty_diff_def ABinaryTree_tree_size_def t)
  have leaf: "AbDiff_leaf d = (\<lambda>i. if i < 2 ^ n then ls ! i else None)"
    unfolding d(4) using assms(2) by (auto simp: t ABinaryTree_leaf_def ABinaryTree_leaf_by_index_def vec_get_def fun_eq_iff)
  have par: "AbDiff_parent d = (\<lambda>_. None)"
    unfolding d(5) by (auto simp: t ABinaryTree_parent_def ABinaryTree_parent_by_index_def vec_get_def fun_eq_iff)
  have "TreeSync_wf n d"
    unfolding TreeSync_wf_def using d(2,3) sz assms(1,2) par by (simp add: AbDiff_has_leaf_def t)
  then show ?thesis using that d(1,3) leaf par assms(2) by (simp add: unshrunk_def t)
qed

end
