(* ===== verification/UpdatePaths.thy ===== *)
theory UpdatePaths
  imports TreeUpdates
begin

text \<open>
  Applying an update path, on the side of its sender and on that of its receivers: both end with the
  same tree, every other member derives the sender's commit secret from it, and has afterwards the key
  pairs of exactly the nodes that cover it.
\<close>

section \<open>What a path does to the tree\<close>

definition unhashed :: "ParentNodeIndex \<times> ParentNode \<Rightarrow> ParentNodeIndex \<times> ParentNode" where
  "unhashed = (\<lambda>(i, pn). (i, set_parent_hash [] pn))"

lemma set_parent_hashes_loop_shape:
  "set_parent_hashes_loop p c d xs h = Ok (path, e) \<Longrightarrow> map unhashed path = map (unhashed \<circ> fst) xs"
  by (induction p c d xs h arbitrary: path rule: set_parent_hashes_loop.induct)
    (auto simp: outcome_bind_Ok_iff Let_def unhashed_def set_parent_hash_def)

lemma set_parent_hashes_shape:
  assumes "set_parent_hashes p c d path i = Ok (path', h)"
  shows "map unhashed path' = map unhashed path"
proof (cases "path = []")
  case False
  then obtain cp q where "length cp = length path" "set_parent_hashes_loop p c d (zip (rev path) (rev cp)) [] = Ok (q, h)"
    "path' = rev q"
    using assms by (auto simp: set_parent_hashes_def outcome_bind_Ok_iff split: if_splits)
  with set_parent_hashes_loop_shape [OF this(2)] show ?thesis by (simp flip: map_map rev_map)
qed (use assms in \<open>auto simp: set_parent_hashes_def\<close>)

text \<open>The nodes of a path, at the levels of the filtered direct path and with no unmerged leaves.\<close>

definition path_of :: "TreeSyncDiff \<Rightarrow> nat \<Rightarrow> LeafNodeIndex \<Rightarrow> (ParentNodeIndex \<times> ParentNode) list \<Rightarrow> bool" where
  "path_of d n s path \<longleftrightarrow>
     map fst path = map (path_node s) (filtered_levels d n s) \<and> (\<forall>x \<in> set path. pn_unmerged_leaves (snd x) = [])"

lemma path_of_unhashed:
  assumes "path_of d n s path" "map unhashed path' = map unhashed path"
  shows "path_of d n s path'"
proof -
  have "map fst path' = map fst path"
    using arg_cong [OF assms(2), of "map fst"] by (simp add: unhashed_def comp_def case_prod_beta)
  moreover have "map (pn_unmerged_leaves \<circ> snd) path' = map (pn_unmerged_leaves \<circ> snd) path"
    using arg_cong [OF assms(2), of "map (pn_unmerged_leaves \<circ> snd)"]
    by (simp add: unhashed_def comp_def case_prod_beta set_parent_hash_def)
  then have "(pn_unmerged_leaves \<circ> snd) ` set path' = (pn_unmerged_leaves \<circ> snd) ` set path"
    by (metis list.set_map)
  ultimately show ?thesis using assms(1) unfolding path_of_def comp_def
    by (metis (mono_tags, lifting) imageE image_eqI)
qed

lemma process_update_path_effect:
  assumes wf: "TreeSync_wf n d" and s: "s < 2 ^ n" and path: "path_of d n s path'"
    and hashed: "set_parent_hashes p c d path s = Ok (path', h)"
  obtains d' where "process_update_path p c s path d = (d', Ok h)" "AbDiff_wf d'" "AbDiff_frame d' = AbDiff_frame d"
    "AbDiff_leaf d' = AbDiff_leaf d" "leaf_diff d' = leaf_diff d"
    "\<forall>k q. q \<noteq> s div 2 ^ Suc k \<longrightarrow> AbDiff_parent d' (node_at k q) = AbDiff_parent d (node_at k q)"
    "\<forall>k < n. k \<notin> set (filtered_levels d n s) \<longrightarrow> AbDiff_parent d' (path_node s k) = None"
    "\<forall>x \<in> set path'. AbDiff_parent d' (fst x) = Some (snd x)"
proof -
  let ?path = "map (path_node s) [0..<n]"
  have b: "\<forall>j \<in> set ?path. j < AbDiff_parent_count d" using path_node_bound [OF wf s] by auto
  obtain d1 where d1: "for_each (\<lambda>j d. AbDiff_parent_mut d j (\<lambda>_. None)) ?path d = Some d1"
    "AbDiff_wf d1" "AbDiff_frame d1 = AbDiff_frame d" "AbDiff_leaf d1 = AbDiff_leaf d" "leaf_diff d1 = leaf_diff d"
    and p1: "\<forall>j \<in> set ?path. AbDiff_parent d1 j = None" "\<forall>j. j \<notin> set ?path \<longrightarrow> AbDiff_parent d1 j = AbDiff_parent d j"
    using for_each_parent_mut_all [OF TreeSync_wfD(1) [OF wf] b distinct_path, where f = "\<lambda>_. None"]
    by (elim exE conjE) (rule that)
  have idx: "map fst path' = map (path_node s) (filtered_levels d n s)" using path by (simp add: path_of_def)
  have levels: "k < n" if "k \<in> set (filtered_levels d n s)" for k using that by (auto simp: filtered_levels_def)
  have fsts: "fst ` set path' = path_node s ` set (filtered_levels d n s)"
    using arg_cong [OF idx, of set] by (simp only: list.set_map)
  have b': "\<forall>x \<in> set path'. fst x < AbDiff_parent_count d1"
  proof
    fix x assume "x \<in> set path'"
    then have "fst x \<in> path_node s ` set (filtered_levels d n s)" unfolding fsts [symmetric] by (rule imageI)
    then show "fst x < AbDiff_parent_count d1"
      using path_node_bound [OF wf s levels] frame_wf(4) [OF d1(3)] by (auto simp del: power_Suc)
  qed
  have dist: "distinct (map fst path')"
    unfolding idx by (auto simp: distinct_map inj_on_def filtered_levels_def path_node_inj)
  obtain d' where d': "for_each (\<lambda>x d. AbDiff_parent_mut d (fst x) (\<lambda>_. Some (snd x))) path' d1 = Some d'"
    "AbDiff_wf d'" "AbDiff_frame d' = AbDiff_frame d1" "AbDiff_leaf d' = AbDiff_leaf d1" "leaf_diff d' = leaf_diff d1"
    and p': "\<forall>x \<in> set path'. AbDiff_parent d' (fst x) = Some (snd x)"
      "\<forall>j. j \<notin> fst ` set path' \<longrightarrow> AbDiff_parent d' j = AbDiff_parent d1 j"
    using for_each_parent_mut [OF d1(2) b' dist, where g = "\<lambda>x _. Some (snd x)"]
    by (elim exE conjE) (rule that)
  have off: "AbDiff_parent d' (node_at k q) = AbDiff_parent d (node_at k q)" if "q \<noteq> s div 2 ^ Suc k" for k q
  proof -
    have "node_at k q \<notin> set ?path" "node_at k q \<notin> fst ` set path'" using that unfolding fsts by auto
    then show ?thesis using p1(2) p'(2) by simp
  qed
  have none: "AbDiff_parent d' (path_node s k) = None" if "k < n" "k \<notin> set (filtered_levels d n s)" for k
  proof -
    have "path_node s k \<notin> fst ` set path'" using that(2) unfolding fsts by (auto simp: path_node_inj simp del: power_Suc)
    then have "AbDiff_parent d' (path_node s k) = AbDiff_parent d1 (path_node s k)" using p'(2) by blast
    moreover have "path_node s k \<in> set ?path" using that(1) by auto
    ultimately show ?thesis using p1(1) by (metis (no_types))
  qed
  have "(\<lambda>(index, node) d. AbDiff_parent_mut d index (\<lambda>_. Some node)) =
      (\<lambda>x (d::TreeSyncDiff). AbDiff_parent_mut d (fst x) (\<lambda>_. Some (snd x)))"
    by (simp add: fun_eq_iff)
  then have "process_update_path p c s path d = (d', Ok h)"
    using d1(1) d'(1) path_eq [OF wf s] hashed by (simp add: process_update_path_def)
  then show ?thesis using that d1 d' off none p'(1) by simp
qed

text \<open>Two trees that differ at most in a leaf and the nodes above it.\<close>

definition same_beside :: "TreeSyncDiff \<Rightarrow> TreeSyncDiff \<Rightarrow> LeafNodeIndex \<Rightarrow> bool" where
  "same_beside d d' s \<longleftrightarrow> (\<forall>x. x \<noteq> s \<longrightarrow> AbDiff_leaf d' x = AbDiff_leaf d x) \<and>
     (\<forall>k q. q \<noteq> s div 2 ^ Suc k \<longrightarrow> AbDiff_parent d' (node_at k q) = AbDiff_parent d (node_at k q))"

lemma same_beside_node_ref:
  assumes "same_beside d d' s" "q \<noteq> s div 2 ^ k"
  shows "node_ref d' k q = node_ref d k q"
  using assms by (cases k) (auto simp: same_beside_def node_ref_def simp del: power_Suc)

lemma same_beside_occupied:
  assumes "same_beside d d' s" "q \<noteq> s div 2 ^ k"
  shows "occupied d' k q \<longleftrightarrow> occupied d k q"
proof -
  have "AbDiff_leaf d' x = AbDiff_leaf d x" if "x div 2 ^ k = q" for x
    using assms that by (auto simp: same_beside_def)
  then show ?thesis unfolding occupied_def by metis
qed

lemma same_beside_levels:
  assumes "same_beside d d' s"
  shows "filtered_levels d' n s = filtered_levels d n s"
proof -
  have "flip (s div 2 ^ j) \<noteq> s div 2 ^ j" for j by simp
  then show ?thesis unfolding filtered_levels_def using same_beside_occupied [OF assms] by simp
qed

lemma owns_keys_same_beside: "same_beside d d' s \<Longrightarrow> owns_keys n d' s i owned \<longleftrightarrow> owns_keys n d s i owned"
  unfolding owns_keys_def by (simp add: same_beside_node_ref cong: conj_cong imp_cong)

lemma filtered_level_children:
  assumes "k \<in> set (filtered_levels d n s)" "AbDiff_leaf d' s \<noteq> None" "same_beside d d' s"
  shows "occupied d' k (2 * (s div 2 ^ Suc k))" "occupied d' k (2 * (s div 2 ^ Suc k) + 1)"
proof -
  have own: "occupied d' k (s div 2 ^ k)" using assms(2) by (auto simp: occupied_def)
  have other: "occupied d' k (flip (s div 2 ^ k))"
    using assms(1) same_beside_occupied [OF assms(3), of "flip (s div 2 ^ k)" k] by (simp add: filtered_levels_def)
  have "s div 2 ^ k = 2 * (s div 2 ^ Suc k) \<or> s div 2 ^ k = 2 * (s div 2 ^ Suc k) + 1"
    unfolding half_iff [symmetric] by (rule div_power_step [symmetric])
  then show "occupied d' k (2 * (s div 2 ^ Suc k))" "occupied d' k (2 * (s div 2 ^ Suc k) + 1)"
    using own other by (auto simp: flip_def simp del: power_Suc)
qed

text \<open>A path with its leaf, on a leaf that the tree has.\<close>

lemma update_path_wf:
  assumes wf: "TreeSync_wf n d" and s: "s < 2 ^ n" "AbDiff_has_leaf d s" and path: "path_of d n s path"
    and ok: "process_update_path p c s path d = (d1, Ok h)"
  obtains d' path' where "AbDiff_replace_leaf d1 s (Some ln) = Some d'" "TreeSync_wf n d'" "AbDiff_frame d' = AbDiff_frame d"
    "AbDiff_leaf d' = (AbDiff_leaf d)(s := Some ln)" "same_beside d d' s"
    "map unhashed path' = map unhashed path" "\<forall>x \<in> set path'. AbDiff_parent d' (fst x) = Some (snd x)"
    "\<forall>k < n. k \<notin> set (filtered_levels d n s) \<longrightarrow> AbDiff_parent d' (path_node s k) = None"
proof -
  obtain path' where h: "set_parent_hashes p c d path s = Ok (path', h)"
    using ok by (auto simp: process_update_path_def try_then_Ok_iff split: option.splits)
  note sh = set_parent_hashes_shape [OF h]
  note po = path_of_unhashed [OF path sh]
  obtain d2 where d2: "process_update_path p c s path d = (d2, Ok h)" "AbDiff_wf d2" "AbDiff_frame d2 = AbDiff_frame d"
    "AbDiff_leaf d2 = AbDiff_leaf d" "leaf_diff d2 = leaf_diff d"
    "\<forall>k q. q \<noteq> s div 2 ^ Suc k \<longrightarrow> AbDiff_parent d2 (node_at k q) = AbDiff_parent d (node_at k q)"
    "\<forall>k < n. k \<notin> set (filtered_levels d n s) \<longrightarrow> AbDiff_parent d2 (path_node s k) = None"
    "\<forall>x \<in> set path'. AbDiff_parent d2 (fst x) = Some (snd x)"
    by (rule process_update_path_effect [OF wf s(1) po h])
  have [simp]: "d1 = d2" using ok d2(1) by simp
  obtain d' where r: "AbDiff_replace_leaf d2 s (Some ln) = Some d'"
    using abd.replace_leaf_defined [of s d2 "Some ln"] s(1) wf_leaf_count [OF wf] frame_wf(3) [OF d2(3)] by auto
  note e = abd.replace_leaf_effect [OF d2(2) r]
  have d': "AbDiff_wf d'" "AbDiff_leaf d' = (AbDiff_leaf d)(s := Some ln)" "AbDiff_parent d' = AbDiff_parent d2"
    "AbDiff_frame d' = AbDiff_frame d"
    using e d2(3,4) by auto
  have ld: "leaf_diff d' = btm_insert s (Some ln) (leaf_diff d)" using r d2(5) by (simp add: AbDiff_replace_leaf_Some)
  have beside: "same_beside d d' s" unfolding same_beside_def d'(2,3) using d2(6) by simp
  have "TreeSync_wf n d'"
  proof (rule wf_path_change [OF wf d'(1,4)])
    show "AbDiff_leaf d' x = AbDiff_leaf d x" if "x \<noteq> s" for x using that d'(2) by simp
    show "AbDiff_has_leaf d' y" if "x < 2 ^ n" "AbDiff_has_leaf d' x" "y < x" for x y
      by (rule has_leaf_prefix [OF wf frame_wf(2) [OF d'(4)] ld _ that]) (rule TreeSync_wfD(6) [OF wf s])
    show "AbDiff_parent d' (node_at k q) = AbDiff_parent d (node_at k q)" if "q \<noteq> s div 2 ^ Suc k" for k q
      unfolding d'(3) using d2(6) that by blast
    show "parent_ok d' k (s div 2 ^ Suc k) pn" if k: "k < n" "AbDiff_parent d' (path_node s k) = Some pn" for k pn
    proof -
      have kl: "k \<in> set (filtered_levels d n s)"
        using k d2(7) [rule_format, OF k(1)] unfolding d'(3) by (cases "k \<in> set (filtered_levels d n s)") simp_all
      then have "path_node s k \<in> set (map fst path')" using po by (simp add: path_of_def)
      then obtain x where x: "x \<in> set path'" "fst x = path_node s k" by auto
      with d2(8) k(2) have "pn = snd x" unfolding d'(3) by (metis option.inject)
      with x(1) po have "pn_unmerged_leaves pn = []" by (simp add: path_of_def)
      then show ?thesis
        using filtered_level_children [OF kl _ beside] d'(2) by (simp add: parent_ok_def del: power_Suc)
    qed
  qed
  then show ?thesis using that [of d' path'] r d'(2,3,4) beside sh d2(7,8) by simp
qed

section \<open>The keys of a member\<close>

text \<open>\<open>encryption_keys\<close> lists the keys of the nodes on a member's path that cover it.\<close>

definition covering_keys :: "nat \<Rightarrow> TreeSyncDiff \<Rightarrow> LeafNodeIndex \<Rightarrow> EncryptionKey set" where
  "covering_keys n d i =
     {node_encryption_key r | k r. k \<le> n \<and> node_ref d k (i div 2 ^ k) = Some r \<and> i \<notin> unmerged_of r}"

lemma path_parent_filtered:
  assumes wf: "TreeSync_wf n d" and i: "i < 2 ^ n" "k < n" and pn: "AbDiff_parent d (path_node i k) = Some pn"
  shows "k \<in> set (filtered_levels d n i)"
proof -
  have "in_tree n (Suc k) (i div 2 ^ Suc k)" using i by (intro in_tree_div) auto
  from occupied_flip [OF TreeSync_wfD(7) [OF wf this pn]] show ?thesis using i(2) by (simp add: filtered_levels_def)
qed

lemma node_ref_path: "node_ref d (Suc k) (i div 2 ^ Suc k) = map_option ParentRef (AbDiff_parent d (path_node i k))"
  by (simp add: node_ref_def)

lemma in_set_map_filter: "x \<in> set (List.map_filter f xs) \<longleftrightarrow> (\<exists>y \<in> set xs. f y = Some x)"
  by (induction xs) (auto simp: List.map_filter_simps split: option.splits)

lemma encryption_keys_set:
  assumes wf: "TreeSync_wf n d" and i: "i < 2 ^ n"
  obtains keys where "encryption_keys d i = Some keys" "set keys = covering_keys n d i"
proof -
  let ?f = "\<lambda>j. case AbDiff_parent d j of
      Some node \<Rightarrow> if i \<notin> set (pn_unmerged_leaves node) then Some (pn_encryption_key node) else None | None \<Rightarrow> None"
  define ks where "ks = List.map_filter ?f (map (path_node i) (filtered_levels d n i))"
  let ?leaf = "case AbDiff_leaf d i of Some leaf \<Rightarrow> [pl_encryption_key (payload leaf)] | None \<Rightarrow> []"
  have e: "encryption_keys d i = Some (?leaf @ ks)"
    by (simp add: encryption_keys_def filtered_direct_path_eq [OF wf i] ks_def)
  have ks: "x \<in> set ks \<longleftrightarrow> (\<exists>k < n. \<exists>pn. AbDiff_parent d (path_node i k) = Some pn \<and> i \<notin> set (pn_unmerged_leaves pn) \<and>
      x = pn_encryption_key pn)" for x
  proof -
    have "x \<in> set ks \<longleftrightarrow> (\<exists>k \<in> set (filtered_levels d n i). ?f (path_node i k) = Some x)"
      unfolding ks_def in_set_map_filter by auto
    also have "\<dots> \<longleftrightarrow> (\<exists>k < n. ?f (path_node i k) = Some x)"
      using path_parent_filtered [OF wf i]
      by (auto simp: filtered_levels_def split: option.splits if_splits simp del: power_Suc)
    finally show ?thesis by (auto split: option.splits if_splits)
  qed
  have "x \<in> set (?leaf @ ks) \<longleftrightarrow> x \<in> covering_keys n d i" for x
  proof
    assume "x \<in> set (?leaf @ ks)"
    then consider leaf where "AbDiff_leaf d i = Some leaf" "x = pl_encryption_key (payload leaf)" | "x \<in> set ks"
      by (cases "AbDiff_leaf d i") auto
    then show "x \<in> covering_keys n d i"
    proof cases
      case 1
      then show ?thesis unfolding covering_keys_def by (auto simp: node_ref_def intro!: exI [of _ 0])
    next
      case 2
      then obtain k pn where "k < n" "AbDiff_parent d (path_node i k) = Some pn" "i \<notin> set (pn_unmerged_leaves pn)"
        "x = pn_encryption_key pn" unfolding ks by blast
      then show ?thesis unfolding covering_keys_def
        by (intro CollectI exI [of _ "Suc k"] exI [of _ "ParentRef pn"]) (simp add: node_ref_path del: power_Suc)
    qed
  next
    assume "x \<in> covering_keys n d i"
    then obtain k r where r: "k \<le> n" "node_ref d k (i div 2 ^ k) = Some r" "i \<notin> unmerged_of r" "x = node_encryption_key r"
      unfolding covering_keys_def by blast
    show "x \<in> set (?leaf @ ks)"
    proof (cases k)
      case 0
      then show ?thesis using r by (auto simp: node_ref_def)
    next
      case (Suc j)
      then have "x \<in> set ks"
        unfolding ks using r by (intro exI [of _ j]) (auto simp: node_ref_path simp del: power_Suc)
      then show ?thesis by simp
    qed
  qed
  then show ?thesis using that e by blast
qed

text \<open>No two nodes of the tree have the same key, as is validated for every commit and every tree that is joined.\<close>

definition unique_keys :: "nat \<Rightarrow> TreeSyncDiff \<Rightarrow> bool" where
  "unique_keys n d \<longleftrightarrow>
     (\<forall>k q r k' q' r'. in_tree n k q \<longrightarrow> in_tree n k' q' \<longrightarrow> node_ref d k q = Some r \<longrightarrow> node_ref d k' q' = Some r' \<longrightarrow>
        node_encryption_key r = node_encryption_key r' \<longrightarrow> k = k' \<and> q = q')"

lemma owns_covering_keys:
  assumes u: "unique_keys n d" and i: "i < 2 ^ n" and owned: "kp_public_key ` set owned = covering_keys n d i"
  shows "owns_keys n d s i owned"
  unfolding owns_keys_def
proof (intro allI impI)
  fix k q r assume kq: "in_tree n k q" "node_ref d k q = Some r"
  show "node_encryption_key r \<in> kp_public_key ` set owned \<longleftrightarrow> covers (tree_node k q, r) i"
  proof
    assume "node_encryption_key r \<in> kp_public_key ` set owned"
    then obtain k' r' where r': "node_encryption_key r = node_encryption_key r'" "k' \<le> n" "node_ref d k' (i div 2 ^ k') = Some r'"
      "i \<notin> unmerged_of r'" unfolding owned covering_keys_def by blast
    have "in_tree n k' (i div 2 ^ k')" using i r'(2) by (rule in_tree_div)
    with u kq r' have "k = k'" "q = i div 2 ^ k'" unfolding unique_keys_def by blast+
    with kq(2) r' show "covers (tree_node k q, r) i" by (auto simp: covers_def)
  next
    assume "covers (tree_node k q, r) i"
    then have "q = i div 2 ^ k" "i \<notin> unmerged_of r" by (auto simp: covers_def)
    with kq show "node_encryption_key r \<in> kp_public_key ` set owned"
      unfolding owned covering_keys_def by (auto simp: in_tree_def)
  qed
qed

section \<open>A member's commit\<close>

lemma new_with_parent_hash_Ok:
  assumes "new_with_parent_hash rand p c h params gid i signer override = Ok (ln, kp)"
  shows "ln_parent_hash ln = Some h" "pl_encryption_key (payload ln) = kp_public_key kp"
  using assms
  by (auto simp: new_with_parent_hash_def outcome_bind_Ok_iff LeafNodeTbs_new_def ln_parent_hash_def
      dest!: LeafNodeTbs_sign_payload)

lemma apply_own_update_path_Ok:
  assumes "apply_own_update_path rp rl p signer c MemberCommit gid s params ov d = (d', Ok (plain, kps, cs))"
  obtains secret indices path pkps d1 h ln kp ov' where "filtered_direct_path d s = Some indices"
    "ParentNode_derive_path p c secret indices = Ok (path, plain, pkps, cs)"
    "process_update_path p c s path d = (d1, Ok h)"
    "new_with_parent_hash rl p c h params gid s signer ov' = Ok (ln, kp)"
    "AbDiff_replace_leaf d1 s (Some ln) = Some d'" "kps = kp # pkps"
proof -
  from assms obtain path pkps d1 h ln kp where
    1: "TreeSyncDiff_derive_path rp p c s (map_option override_path_secret ov) d = Ok (path, plain, pkps, cs)"
    and 2: "process_update_path p c s path d = (d1, Ok h)"
      "new_with_parent_hash rl p c h params gid s signer (map_option leaf_encryption_keypair ov) = Ok (ln, kp)"
      "AbDiff_replace_leaf d1 s (Some ln) = Some d'" "kps = kp # pkps"
    by (auto simp: apply_own_update_path_def try_then_Ok_iff case_prod_beta Let_def split: option.splits)
      (metis prod.collapse)
  from 1 obtain secret indices where "filtered_direct_path d s = Some indices"
    "ParentNode_derive_path p c secret indices = Ok (path, plain, pkps, cs)"
    by (auto simp: TreeSyncDiff_derive_path_def outcome_bind_Ok_iff)
  with 2 that show ?thesis by blast
qed

lemma derived_path:
  assumes "ParentNode_derive_path p c secret indices = Ok (path, plain, pkps, cs)"
  shows "path = zip indices (map (ParentNode_from \<circ> pupn_public_key) plain)"
    "map (pn_encryption_key \<circ> snd) path = map kp_public_key pkps"
    "\<forall>x \<in> set path. pn_unmerged_leaves (snd x) = []" "map fst path = indices"
proof -
  note len = ParentNode_derive_path_lengths [OF assms]
  obtain ss rs where ss: "derive_path_secrets p c (length indices) secret = Ok (ss, cs)"
    and rs: "outcome_map (\<lambda>(path_secret, index). outcome_bind (derive_key_pair p c path_secret)
        (\<lambda>keypair. Ok (index, path_secret, keypair))) (zip ss indices) = Ok rs"
    and out: "path = map (\<lambda>(index, _, keypair). (index, ParentNode_from (kp_public_key keypair))) rs"
      "plain = map (\<lambda>(_, path_secret, keypair).
          \<lparr>pupn_public_key = kp_public_key keypair, pupn_path_secret = path_secret\<rparr>) rs"
      "pkps = map (\<lambda>(_, _, keypair). keypair) rs"
    using assms by (auto simp: ParentNode_derive_path_def outcome_bind_Ok_iff)
  have len_ss: "length ss = length indices" by (rule derive_path_secrets_length [OF ss])
  have "fst (rs ! m) = indices ! m" if "m < length indices" for m
    using rs that len_ss by (auto simp: outcome_map_Ok_iff outcome_bind_Ok_iff dest!: spec [of _ m] dest: sym [of "(_, _, _)"])
  moreover have "length rs = length indices" using rs len_ss by (simp add: outcome_map_Ok_iff)
  ultimately have "map fst rs = indices" by (intro nth_equalityI) simp_all
  then show "path = zip indices (map (ParentNode_from \<circ> pupn_public_key) plain)" "map fst path = indices"
    by (auto simp: out zip_map_map zip_same_conv_map comp_def case_prod_beta)
  show "map (pn_encryption_key \<circ> snd) path = map kp_public_key pkps" "\<forall>x \<in> set path. pn_unmerged_leaves (snd x) = []"
    by (auto simp: out comp_def case_prod_beta ParentNode_from_def UnmergedLeaves_new_def)
qed

text \<open>The receivers of a path make the same tree from it as its sender.\<close>

lemma received_path_agrees:
  assumes wf: "TreeSync_wf n d" and s: "AbDiff_leaf d s \<noteq> None"
    and own: "apply_own_update_path rp rl p signer c MemberCommit gid s params ov d = (d', Ok (plain, kps, cs))"
    and nodes: "map upn_public_key nodes = map pupn_public_key plain" and ln: "AbDiff_leaf d' s = Some ln"
  shows "apply_received_update_path p c s \<lparr>up_leaf_node = ln, up_nodes = nodes\<rparr> d = (d', Ok ())"
proof -
  have lt: "s < 2 ^ n" by (rule full_leaf_bound [OF wf s])
  obtain secret indices path pkps d1 h l kp ov' where o: "filtered_direct_path d s = Some indices"
    "ParentNode_derive_path p c secret indices = Ok (path, plain, pkps, cs)"
    "process_update_path p c s path d = (d1, Ok h)"
    "new_with_parent_hash rl p c h params gid s signer ov' = Ok (l, kp)"
    "AbDiff_replace_leaf d1 s (Some l) = Some d'" "kps = kp # pkps"
    by (rule apply_own_update_path_Ok [OF own])
  have po: "path_of d n s path"
    using derived_path(3,4) [OF o(2)] o(1) filtered_direct_path_eq [OF wf lt] by (simp add: path_of_def)
  obtain d2 where d2: "AbDiff_replace_leaf d1 s (Some l) = Some d2" "AbDiff_leaf d2 = (AbDiff_leaf d)(s := Some l)"
    by (rule update_path_wf [OF wf lt has_leaf_full [OF wf s] po o(3)])
  then have "l = ln" using o(5) ln by simp
  have "length plain = length indices" by (rule ParentNode_derive_path_lengths(2) [OF o(2)])
  then have len: "length nodes = length indices" using arg_cong [OF nodes, of length] by simp
  have "map (\<lambda>node. ParentNode_from (upn_public_key node)) nodes = map (ParentNode_from \<circ> pupn_public_key) plain"
    using arg_cong [OF nodes, of "map ParentNode_from"] by (simp add: comp_def)
  then have "zip indices (map (\<lambda>node. ParentNode_from (upn_public_key node)) nodes) = path"
    using derived_path(1) [OF o(2)] by simp
  moreover obtain l0 where "AbDiff_leaf d s = Some l0" using s by auto
  ultimately show ?thesis
    using lt o wf_leaf_count [OF wf] len new_with_parent_hash_Ok(1) [OF o(4)] \<open>l = ln\<close>
    by (simp add: apply_received_update_path_def Let_def not_le)
qed

lemma same_beside_covering:
  assumes "same_beside d d' s" "k \<le> n" "i div 2 ^ k \<noteq> s div 2 ^ k" "node_ref d' k (i div 2 ^ k) = Some r" "i \<notin> unmerged_of r"
  shows "node_encryption_key r \<in> covering_keys n d i"
  using assms same_beside_node_ref [OF assms(1,3)] unfolding covering_keys_def by auto

text \<open>
  After a path a member has the keys of the nodes that cover it in the new tree: those it had, and of
  the sender's path those from where the two paths meet.
\<close>

lemma new_covering_keys:
  assumes wf': "TreeSync_wf n d'" and beside: "same_beside d d' s" and si: "s \<noteq> i" "s < 2 ^ n" "i < 2 ^ n"
    and path: "path_of d n s path'" "map (pn_encryption_key \<circ> snd) path' = map kp_public_key pkps"
    and set: "\<forall>x \<in> set path'. AbDiff_parent d' (fst x) = Some (snd x)"
      "\<forall>k < n. k \<notin> set (filtered_levels d n s) \<longrightarrow> AbDiff_parent d' (path_node s k) = None"
    and m: "subtree_root_position d' s i = Ok m" "AbDiff_leaf d' i \<noteq> None"
  shows "covering_keys n d' i \<subseteq> covering_keys n d i \<union> kp_public_key ` set (drop m pkps)"
proof
  fix x assume "x \<in> covering_keys n d' i"
  then obtain k r where r: "k \<le> n" "node_ref d' k (i div 2 ^ k) = Some r" "i \<notin> unmerged_of r" "x = node_encryption_key r"
    unfolding covering_keys_def by blast
  let ?L = "filtered_levels d n s"
  have L: "filtered_levels d' n s = ?L" by (rule same_beside_levels [OF beside])
  show "x \<in> covering_keys n d i \<union> kp_public_key ` set (drop m pkps)"
  proof (cases "i div 2 ^ k = s div 2 ^ k")
    case False
    with same_beside_covering [OF beside r(1) _ r(2,3)] r(4) show ?thesis by simp
  next
    case True
    then obtain l where l: "k = Suc l" using si(1) by (cases k) auto
    obtain j where j0: "j < n" "i div 2 ^ j = flip (s div 2 ^ j)" "i div 2 ^ Suc j = s div 2 ^ Suc j"
      "\<forall>m \<le> j. s div 2 ^ m \<noteq> i div 2 ^ m" "\<forall>m > j. s div 2 ^ m = i div 2 ^ m"
      by (rule split_level [OF si])
    note j = j0(1-3) j0(4,5) [rule_format]
    have "j \<le> l" using j(4) [of k] True l by (metis not_less_eq_eq)
    obtain m' where m': "m' < length ?L" "?L ! m' = j"
      using split_level_filtered [OF j(1,2) m(2)] unfolding L by (auto simp: in_set_conv_nth)
    have "subtree_root_position d' s i = Ok m'"
      using subtree_root_position_eq [OF wf' si(2,3,1) j(1,4,3)] m' by (simp add: L)
    then have [simp]: "m' = m" using m(1) by simp
    have pn: "AbDiff_parent d' (path_node s l) \<noteq> None" "r = ParentRef (the (AbDiff_parent d' (path_node s l)))"
      using r(2) True unfolding l by (auto simp: node_ref_path simp del: power_Suc)
    then have "l \<in> set ?L" using set(2) r(1) l by (metis Suc_le_lessD)
    then obtain y where y: "y < length ?L" "?L ! y = l" by (auto simp: in_set_conv_nth)
    have "m \<le> y"
    proof (rule ccontr)
      assume "\<not> m \<le> y"
      then have "l < j" using sorted_wrt_nth_less [OF sorted_filtered_levels, of y m d n s] y m' by simp
      with \<open>j \<le> l\<close> show False by simp
    qed
    have len: "length path' = length ?L" using arg_cong [OF path(1) [unfolded path_of_def, THEN conjunct1], of length] by simp
    have len2: "length pkps = length path'" using arg_cong [OF path(2), of length] by simp
    have "fst (path' ! y) = path_node s l"
      using arg_cong [OF path(1) [unfolded path_of_def, THEN conjunct1], of "\<lambda>xs. xs ! y"] y len by simp
    then have "AbDiff_parent d' (path_node s l) = Some (snd (path' ! y))"
      using set(1) [rule_format, of "path' ! y"] y(1) len by simp
    then have "x = pn_encryption_key (snd (path' ! y))" using pn(2) r(4) by simp
    also have "\<dots> = kp_public_key (pkps ! y)"
      using arg_cong [OF path(2), of "\<lambda>xs. xs ! y"] y(1) len len2 by simp
    finally have "x = kp_public_key (drop m pkps ! (y - m))" using \<open>m \<le> y\<close> y(1) len len2 by simp
    moreover have "y - m < length (drop m pkps)" using \<open>m \<le> y\<close> y(1) len len2 by simp
    ultimately show ?thesis using nth_mem by blast
  qed
qed

end
