(* ===== verification/CommitAgreement.thy ===== *)
theory CommitAgreement
  imports UpdatePaths
begin

text \<open>
  A member's commit with a path, from the committer to the other members: the committer succeeds, and
  everyone ends with the same tree and the same commit secret.
\<close>

section \<open>The committer succeeds\<close>

text \<open>The documented behaviour of a provider that supports the ciphersuite: nothing it computes fails.\<close>

definition tree_provider_total :: "'a tree_provider_scheme \<Rightarrow> bool" where
  "tree_provider_total p \<longleftrightarrow>
     expand_total p \<and>
     (\<forall>cfg ikm. \<exists>kp. crypto_derive_hpke_keypair p cfg ikm = Ok kp) \<and>
     (\<forall>h x. \<exists>y. crypto_hash p h x = Ok y) \<and>
     (\<forall>cfg pk info aad pt. \<exists>ct. crypto_hpke_seal p cfg pk info aad pt = Ok ct) \<and>
     (\<forall>x. \<exists>y. tls_ParentHashInput p x = Ok y) \<and> (\<forall>x. \<exists>y. tls_TreeHashInput p x = Ok y) \<and>
     (\<forall>x. \<exists>y. tls_SignContent p x = Ok y) \<and> (\<forall>x. \<exists>y. tls_EncryptContext p x = Ok y) \<and>
     (\<forall>x. \<exists>y. tls_LeafNodePayload p x = Ok y) \<and> (\<forall>x. \<exists>y. tls_TreePosition p x = Ok y)"

lemma outcome_map_total: "(\<And>x. x \<in> set xs \<Longrightarrow> \<exists>y. f x = Ok y) \<Longrightarrow> \<exists>ys. outcome_map f xs = Ok ys"
  by (induction xs) (auto simp: outcome_bind_Ok_iff)

lemma compute_tree_hash_total:
  assumes p: "tree_provider_total p" and n: "n < 31"
  shows "in_tree n k q \<Longrightarrow> \<exists>h. compute_tree_hash p c d (tree_node k q) ex = Ok h"
proof (induction k arbitrary: q)
  case 0
  have h: "\<exists>h. TreeHashInput_hash p c x = Ok h" for x
    using p unfolding tree_provider_total_def TreeHashInput_hash_def outcome_bind_Ok_iff map_err_Ok_iff by metis
  show ?case using h by (simp add: TreeSyncLeafNode_compute_tree_hash_def)
next
  case (Suc k)
  have h: "\<exists>h. TreeHashInput_hash p c x = Ok h" for x
    using p unfolding tree_provider_total_def TreeHashInput_hash_def outcome_bind_Ok_iff map_err_Ok_iff by metis
  note b = in_tree_bound [OF Suc.prems n]
  obtain l r where "compute_tree_hash p c d (tree_node k (2 * q)) ex = Ok l"
    "compute_tree_hash p c d (tree_node k (2 * q + 1)) ex = Ok r"
    using Suc.IH in_tree_children [OF Suc.prems] by blast
  then show ?case
    using b h by (auto simp: left_node_at right_node_at TreeSyncParentNode_compute_tree_hash_def Let_def split: option.split)
qed

lemma compute_parent_hash_total: "tree_provider_total p \<Longrightarrow> \<exists>h. compute_parent_hash p c pn x = Ok h"
  unfolding tree_provider_total_def compute_parent_hash_def ParentHashInput_hash_def outcome_bind_Ok_iff map_err_Ok_iff
  by metis

lemma set_parent_hashes_loop_total:
  assumes p: "tree_provider_total p" and n: "n < 31"
    and "\<forall>x \<in> set xs. \<exists>k q. in_tree n k q \<and> snd x = tree_node k q"
  shows "\<exists>r. set_parent_hashes_loop p c d xs h = Ok r"
  using assms(3)
proof (induction xs arbitrary: h)
  case (Cons x xs)
  obtain i pn cp where x: "x = ((i, pn), cp)" by (metis prod.collapse)
  from Cons.prems x obtain k q where "in_tree n k q" "cp = tree_node k q" by auto
  then obtain t where t: "compute_tree_hash p c d cp {} = Ok t" using compute_tree_hash_total [OF p n] by blast
  obtain h' where h': "compute_parent_hash p c (set_parent_hash h pn) t = Ok h'" using compute_parent_hash_total [OF p] by blast
  have "\<exists>r. set_parent_hashes_loop p c d xs h' = Ok r" using Cons.prems by (intro Cons.IH) simp
  then obtain r where "set_parent_hashes_loop p c d xs h' = Ok r" by (elim exE)
  then show ?case using t h' by (simp add: x Let_def case_prod_beta)
qed simp

lemma set_parent_hashes_total:
  assumes p: "tree_provider_total p" and wf: "TreeSync_wf n d" and s: "s < 2 ^ n" and path: "path_of d n s path"
  shows "\<exists>path' h. set_parent_hashes p c d path s = Ok (path', h)"
proof (cases "path = []")
  case False
  let ?L = "filtered_levels d n s"
  have len: "length path = length ?L"
    using arg_cong [OF path [unfolded path_of_def, THEN conjunct1], of length] by simp
  with False have "0 < n" by (cases n) (auto simp: filtered_levels_def)
  note cp = filtered_copath_eq [OF wf s this]
  have "\<exists>k q. in_tree n k q \<and> snd x = tree_node k q"
    if x: "x \<in> set (zip (rev path) (rev (map (copath_node s) ?L)))" for x
  proof -
    have "snd x \<in> set (map (copath_node s) ?L)" using x by (metis in_set_zipE prod.collapse set_rev)
    then obtain j where "j \<in> set ?L" "snd x = copath_node s j" by auto
    moreover from this have "j < n" by (simp add: filtered_levels_def)
    ultimately show ?thesis using copath_in_tree [OF s] by blast
  qed
  then obtain r where "set_parent_hashes_loop p c d (zip (rev path) (rev (map (copath_node s) ?L))) [] = Ok r"
    using set_parent_hashes_loop_total [OF p wf_depth [OF wf]] by blast
  then show ?thesis using False cp len by (simp add: set_parent_hashes_def case_prod_beta)
qed (simp add: set_parent_hashes_def)

lemma derive_path_total:
  assumes p: "tree_provider_total p"
  shows "\<exists>r. ParentNode_derive_path p c secret indices = Ok r"
proof -
  have e: "expand_total p" using p by (simp add: tree_provider_total_def)
  have kdf: "\<exists>k. Secret_kdf_expand_label x p c label ctx (hash_length c) = Ok k" for x label ctx
    using expand_total_Ok [OF e, of "hash_length c" x c label ctx] hash_length_bounds [of c] by auto
  have "\<exists>r. derive_path_secrets p c m x = Ok r" for m x
  proof (induction m arbitrary: x)
    case (Suc m)
    obtain y where "derive_path_secret p c x = Ok y"
      using kdf [of x "''path''" "[]"] by (auto simp: derive_path_secret_def)
    with Suc [of y] show ?case by (auto simp: case_prod_beta)
  qed simp
  then obtain ss e where ss: "derive_path_secrets p c (length indices) secret = Ok (ss, e)" by (metis prod.collapse)
  have pair: "\<exists>kp. derive_key_pair p c x = Ok kp" for x
  proof -
    obtain y where y: "Secret_kdf_expand_label x p c ''node'' [] (hash_length c) = Ok y"
      using kdf [of x "''node''" "[]"] by (elim exE)
    obtain kp where "crypto_derive_hpke_keypair p (hpke_config c) (Secret_as_slice y) = Ok kp"
      using p unfolding tree_provider_total_def by blast
    with y show ?thesis by (simp add: derive_key_pair_def case_prod_beta)
  qed
  have "\<exists>rs. outcome_map (\<lambda>(path_secret, index). outcome_bind (derive_key_pair p c path_secret)
      (\<lambda>keypair. Ok (index, path_secret, keypair))) (zip ss indices) = Ok rs"
  proof (rule outcome_map_total)
    fix x
    obtain kp where "derive_key_pair p c (fst x) = Ok kp" using pair by blast
    then show "\<exists>y. (case x of (path_secret, index) \<Rightarrow> outcome_bind (derive_key_pair p c path_secret)
        (\<lambda>keypair. Ok (index, path_secret, keypair))) = Ok y"
      by (simp add: case_prod_beta)
  qed
  then show ?thesis using ss by (auto simp: ParentNode_derive_path_def)
qed

lemma encrypt_path_total:
  assumes p: "tree_provider_total p" and wf: "TreeSync_wf n d" and s: "s < 2 ^ n"
    and len: "length plain = length (filtered_levels d n s)"
  shows "\<exists>nodes. encrypt_path p c plain ctx ex s d = Ok nodes"
proof -
  have enc: "\<exists>ct. PathSecret_encrypt p c pk ctx x = Ok ct" for pk x
    using p
    unfolding tree_provider_total_def PathSecret_encrypt_def encrypt_with_label_def map_err_Ok_iff outcome_bind_Ok_iff
    by metis
  have "\<exists>y. PlainUpdatePathNode_encrypt p c r ctx node = Ok y" for r node
    using outcome_map_total [of r "\<lambda>pk. PathSecret_encrypt p c pk ctx (pupn_path_secret node)"] enc
    by (auto simp: PlainUpdatePathNode_encrypt_def)
  then show ?thesis
    using len filtered_copath_resolutions_eq [OF wf s]
    by (auto simp: encrypt_path_def Let_def intro!: outcome_map_total)
qed

lemma new_with_parent_hash_total:
  assumes p: "tree_provider_total p" and "\<forall>m. \<exists>b. rand m = Ok b" "\<forall>m. \<exists>b. signer m = Ok b"
  shows "\<exists>r. new_with_parent_hash rand p c h params gid s signer override = Ok r"
proof -
  obtain b where b: "rand (hash_length c) = Ok b" using assms(2) by blast
  obtain kp where "crypto_derive_hpke_keypair p (hpke_config c) b = Ok kp"
    using p unfolding tree_provider_total_def by blast
  with b have "\<exists>kp. EncryptionKeyPair_random rand p c = Ok kp"
    by (auto simp: EncryptionKeyPair_random_def Secret_random_def case_prod_beta)
  then have kp: "\<exists>kp. (case override of Some kp \<Rightarrow> Ok kp | None \<Rightarrow> EncryptionKeyPair_random rand p c) = Ok kp"
    by (cases override) auto
  have "\<exists>ln. LeafNodeTbs_sign p signer \<lparr>tbs_payload = pl, tree_info_tbs = CommitTbs pos\<rparr> = Ok ln" for pl pos
  proof -
    obtain x y where xy: "tls_LeafNodePayload p pl = Ok x" "tls_TreePosition p pos = Ok y"
      using p unfolding tree_provider_total_def by blast
    obtain z where z: "tls_SignContent p (SignContent_new LEAF_NODE_SIGNATURE_LABEL (x @ y)) = Ok z"
      using p unfolding tree_provider_total_def by blast
    obtain sig where "signer z = Ok sig" using assms(3) by blast
    with xy z show ?thesis by (simp add: LeafNodeTbs_sign_def Signable_sign_def LeafNodeTbs_unsigned_payload_def)
  qed
  then show ?thesis using kp by (fastforce simp: new_with_parent_hash_def LeafNodeTbs_new_def outcome_bind_Ok_iff)
qed

lemma own_commit_total:
  assumes p: "tree_provider_total p" and rand: "\<forall>m. \<exists>b. rp m = Ok b" "\<forall>m. \<exists>b. rl m = Ok b"
    and sign: "\<forall>m. \<exists>b. signer m = Ok b"
    and wf: "TreeSync_wf n d" and s: "AbDiff_leaf d s \<noteq> None"
  shows "\<exists>d' plain kps cs nodes.
    apply_own_update_path rp rl p signer c MemberCommit gid s params ov d = (d', Ok (plain, kps, cs)) \<and>
    encrypt_path p c plain ctx ex s d' = Ok nodes"
proof -
  have lt: "s < 2 ^ n" by (rule full_leaf_bound [OF wf s])
  note fdp = filtered_direct_path_eq [OF wf lt]
  obtain b where "rp (hash_length c) = Ok b" using rand by blast
  then have "\<exists>secret. (case map_option override_path_secret ov of Some x \<Rightarrow> Ok x
      | None \<Rightarrow> map_err LibraryCryptoError (Secret_random c rp)) = Ok secret"
    by (cases ov) (simp_all add: Secret_random_def)
  then obtain secret where secret: "(case map_option override_path_secret ov of Some x \<Rightarrow> Ok x
      | None \<Rightarrow> map_err LibraryCryptoError (Secret_random c rp)) = Ok secret" by blast
  obtain path plain pkps cs where der:
    "ParentNode_derive_path p c secret (map (path_node s) (filtered_levels d n s)) = Ok (path, plain, pkps, cs)"
    using derive_path_total [OF p] by (metis prod.collapse)
  have po: "path_of d n s path" using derived_path(3,4) [OF der] by (simp add: path_of_def)
  obtain path' h where h: "set_parent_hashes p c d path s = Ok (path', h)"
    using set_parent_hashes_total [OF p wf lt po] by blast
  obtain d1 where d1: "process_update_path p c s path d = (d1, Ok h)"
    by (rule process_update_path_effect [OF wf lt path_of_unhashed [OF po set_parent_hashes_shape [OF h]] h])
  obtain ln kp where ln: "new_with_parent_hash rl p c h params gid s signer (map_option leaf_encryption_keypair ov) = Ok (ln, kp)"
    using new_with_parent_hash_total [OF p rand(2) sign, of c h params gid s "map_option leaf_encryption_keypair ov"]
    by auto
  obtain d' where d': "AbDiff_replace_leaf d1 s (Some ln) = Some d'" "TreeSync_wf n d'" "same_beside d d' s"
    by (rule update_path_wf [OF wf lt has_leaf_full [OF wf s] po d1])
  have "length plain = length (filtered_levels d' n s)"
    using ParentNode_derive_path_lengths(2) [OF der] same_beside_levels [OF d'(3)] by simp
  then obtain nodes where "encrypt_path p c plain ctx ex s d' = Ok nodes"
    using encrypt_path_total [OF p d'(2) lt] by blast
  moreover have "TreeSyncDiff_derive_path rp p c s (map_option override_path_secret ov) d = Ok (path, plain, pkps, cs)"
    using secret fdp der by (simp add: TreeSyncDiff_derive_path_def)
  then have "apply_own_update_path rp rl p signer c MemberCommit gid s params ov d = (d', Ok (plain, kp # pkps, cs))"
    using d1 ln d'(1) by (simp add: apply_own_update_path_def)
  ultimately show ?thesis by blast
qed

text \<open>
  (C2) Committing with a path succeeds for every member of a well-formed tree: if the provider, the
  signer and the random source do not fail, the path is derived, applied and encrypted, and neither an
  error is returned nor an assertion of the tree code violated.
\<close>

theorem member_commit_succeeds:
  assumes p: "tree_provider_total p" and rand: "\<forall>m. \<exists>b. rp m = Ok b" "\<forall>m. \<exists>b. rl m = Ok b"
    and sign: "\<forall>m. \<exists>b. signer m = Ok b"
    and wf: "TreeSync_wf n d" and s: "AbDiff_leaf d s \<noteq> None"
  shows "\<exists>d' plain kps cs nodes.
    apply_own_update_path rp rl p signer c MemberCommit gid s params ov d = (d', Ok (plain, kps, cs)) \<and>
    encrypt_path p c plain ctx ex s d' = Ok nodes"
  by (rule own_commit_total [OF assms])

section \<open>Agreement\<close>

lemma own_commit_received:
  assumes wf: "TreeSync_wf n d" and full: "AbDiff_leaf d s \<noteq> None"
    and own: "apply_own_update_path rp rl p signer c MemberCommit gid s params ov d = (d', Ok (plain, kps, cs))"
    and enc: "encrypt_path p c plain ctx ex s d' = Ok nodes"
  shows "TreeSync_wf n d'"
    and "\<exists>ln. AbDiff_leaf d' s = Some ln \<and> apply_received_update_path p c s \<lparr>up_leaf_node = ln, up_nodes = nodes\<rparr> d = (d', Ok ())"
proof -
  have lt: "s < 2 ^ n" by (rule full_leaf_bound [OF wf full])
  obtain secret indices path pkps d1 h ln kp ov' where o: "filtered_direct_path d s = Some indices"
    "ParentNode_derive_path p c secret indices = Ok (path, plain, pkps, cs)"
    "process_update_path p c s path d = (d1, Ok h)" "AbDiff_replace_leaf d1 s (Some ln) = Some d'"
    by (rule apply_own_update_path_Ok [OF own])
  have "path_of d n s path"
    using derived_path(3,4) [OF o(2)] o(1) filtered_direct_path_eq [OF wf lt] by (simp add: path_of_def)
  then obtain d2 where d2: "AbDiff_replace_leaf d1 s (Some ln) = Some d2" "TreeSync_wf n d2" "AbDiff_leaf d2 = (AbDiff_leaf d)(s := Some ln)"
    by (rule update_path_wf [OF wf lt has_leaf_full [OF wf full] _ o(3)])
  then show wf': "TreeSync_wf n d'" using o(4) by simp
  have "map upn_public_key nodes = map pupn_public_key plain"
    using encrypt_path_Ok(3) [OF enc filtered_copath_resolutions_eq [OF wf' lt]] by simp
  from received_path_agrees [OF wf full own this]
  show "\<exists>ln. AbDiff_leaf d' s = Some ln \<and> apply_received_update_path p c s \<lparr>up_leaf_node = ln, up_nodes = nodes\<rparr> d = (d', Ok ())"
    using d2(1,3) o(4) by simp
qed

text \<open>
  (C1) When a member commits with a path, every other member that is not newly added processes it to
  the same tree as the committer and derives the same commit secret from the ciphertext that is meant
  for it. The tree is well-formed again, and with the key pairs it had and those it got from the path
  the member has a key for every node that covers it, so that it can process the next commit. This
  assumes that no two nodes share a key, that the member starts with the keys of the nodes that cover
  it, and that HPKE opens what it sealed.
\<close>

theorem member_commit_agreement:
  assumes wf: "TreeSync_wf n d" and full: "AbDiff_leaf d s \<noteq> None" "AbDiff_leaf d i \<noteq> None" and si: "s \<noteq> i" "i \<notin> ex"
    and keys: "unique_keys n d" "encryption_keys d i = Some keys" "kp_public_key ` set owned = set keys"
    and hpke: "\<forall>kp \<in> set owned. hpke_opens p c kp"
    and own: "apply_own_update_path rp rl p signer c MemberCommit gid s params ov d = (d', Ok (plain, kps, cs))"
    and enc: "encrypt_path p c plain ctx ex s d' = Ok nodes"
  shows "TreeSync_wf n d' \<and>
    (\<exists>ln. AbDiff_leaf d' s = Some ln \<and>
       apply_received_update_path p c s \<lparr>up_leaf_node = ln, up_nodes = nodes\<rparr> d = (d', Ok ())) \<and>
    (\<exists>received keys'.
       decrypt_path p c \<lparr>dpp_update_path = nodes, dpp_sender_leaf_index = s, dpp_exclusion_list = ex, dpp_group_context = ctx\<rparr>
         owned i d' = Ok (received, cs) \<and>
       encryption_keys d' i = Some keys' \<and> set keys' \<subseteq> kp_public_key ` set (owned @ received))"
proof -
  have lt: "s < 2 ^ n" "i < 2 ^ n" using full_leaf_bound [OF wf] full by auto
  obtain secret indices path pkps d1 h ln kp ov' where o: "filtered_direct_path d s = Some indices"
    "ParentNode_derive_path p c secret indices = Ok (path, plain, pkps, cs)"
    "process_update_path p c s path d = (d1, Ok h)" "AbDiff_replace_leaf d1 s (Some ln) = Some d'"
    by (rule apply_own_update_path_Ok [OF own])
  have idx: "indices = map (path_node s) (filtered_levels d n s)" using o(1) filtered_direct_path_eq [OF wf lt(1)] by simp
  have po: "path_of d n s path" using derived_path(3,4) [OF o(2)] idx by (simp add: path_of_def)
  obtain d2 path' where d2: "AbDiff_replace_leaf d1 s (Some ln) = Some d2" "TreeSync_wf n d2" "AbDiff_frame d2 = AbDiff_frame d"
    "AbDiff_leaf d2 = (AbDiff_leaf d)(s := Some ln)" "same_beside d d2 s"
    "map unhashed path' = map unhashed path" "\<forall>x \<in> set path'. AbDiff_parent d2 (fst x) = Some (snd x)"
    "\<forall>k < n. k \<notin> set (filtered_levels d n s) \<longrightarrow> AbDiff_parent d2 (path_node s k) = None"
    by (rule update_path_wf [OF wf lt(1) has_leaf_full [OF wf full(1)] po o(3)])
  have [simp]: "d2 = d'" using d2(1) o(4) by simp
  have full': "AbDiff_leaf d' s \<noteq> None" "AbDiff_leaf d' i \<noteq> None" using d2(4) full si(1) by auto
  have cov: "kp_public_key ` set owned = covering_keys n d i"
    using encryption_keys_set [OF wf lt(2)] keys(2,3) by (metis option.inject)
  have "owns_keys n d' s i owned"
    using owns_covering_keys [OF keys(1) lt(2) cov] owns_keys_same_beside [OF d2(5)] by simp
  moreover have "filtered_direct_path d' s = Some indices"
    using filtered_direct_path_eq [OF _ lt(1)] d2(2) same_beside_levels [OF d2(5)] idx by simp
  ultimately obtain m where m: "subtree_root_position d' s i = Ok m"
    "decrypt_path p c \<lparr>dpp_update_path = nodes, dpp_sender_leaf_index = s, dpp_exclusion_list = ex, dpp_group_context = ctx\<rparr>
      owned i d' = Ok (drop m pkps, cs)"
    using path_delivery [OF d2(2)] full' si hpke o(2) enc by (metis \<open>d2 = d'\<close>)
  have "map (pn_encryption_key \<circ> snd) path' = map (pn_encryption_key \<circ> snd) path"
    using arg_cong [OF d2(6), of "map (pn_encryption_key \<circ> snd)"]
    by (simp add: unhashed_def comp_def case_prod_beta set_parent_hash_def)
  then have "map (pn_encryption_key \<circ> snd) path' = map kp_public_key pkps" using derived_path(2) [OF o(2)] by simp
  from new_covering_keys [OF d2(2,5) si(1) lt path_of_unhashed [OF po d2(6)] this d2(7,8)] m(1) full'(2)
  have "covering_keys n d' i \<subseteq> kp_public_key ` set (owned @ drop m pkps)" using cov by (auto simp: image_Un)
  moreover obtain keys' where "encryption_keys d' i = Some keys'" "set keys' = covering_keys n d' i"
    using encryption_keys_set [OF d2(2) lt(2)] by auto
  ultimately show ?thesis using own_commit_received [OF wf full(1) own enc] m(2) by auto
qed


section \<open>Witnesses\<close>

definition sample_tree_provider :: tree_provider where
  "sample_tree_provider =
     leaf_provider.extend sample_leaf_provider
       \<lparr>tls_ParentHashInput = (\<lambda>x. Ok (phi_public_key x)), tls_TreeHashInput = (\<lambda>x. Ok [])\<rparr>"

lemma sample_tree_provider_total: "tree_provider_total sample_tree_provider"
  by (simp add: tree_provider_total_def expand_total_def sample_tree_provider_def sample_leaf_provider_def zero_provider_def
      leaf_provider_defs)

definition sample_member :: "bytes \<Rightarrow> LeafNode" where
  "sample_member key = new_placeholder\<lparr>payload := (payload new_placeholder)\<lparr>pl_encryption_key := key\<rparr>\<rparr>"

definition two_members :: "(LeafNode option, ParentNode option) ABinaryTree" where
  "two_members =
     \<lparr>leaf_nodes = [Some (sample_member [1]), Some (sample_member [2])], parent_nodes = [None],
      default_leaf = None, default_parent = None\<rparr>"

lemma two_members_wf:
  obtains d where "ABinaryTree_empty_diff two_members = Some d" "TreeSync_wf 1 d"
    "AbDiff_leaf d = (\<lambda>i. if i < 2 then [Some (sample_member [1]), Some (sample_member [2])] ! i else None)"
    "AbDiff_parent d = (\<lambda>_. None)"
  using blank_parents_wf [of 1 "[Some (sample_member [1]), Some (sample_member [2])]" two_members]
  by (auto simp: two_members_def)

theorem member_commit_succeeds_witness:
  "\<exists>d. ABinaryTree_empty_diff two_members = Some d \<and>
    (\<exists>d' plain kps cs nodes.
      apply_own_update_path (\<lambda>m. Ok (replicate m 1)) (\<lambda>m. Ok (replicate m 2)) sample_tree_provider (\<lambda>m. Ok (7 # m)) suite1
        MemberCommit [9] 0 sample_update_params None d = (d', Ok (plain, kps, cs)) \<and>
      encrypt_path sample_tree_provider suite1 plain [8] {} 0 d' = Ok nodes)"
proof -
  obtain d where d: "ABinaryTree_empty_diff two_members = Some d" "TreeSync_wf 1 d" "AbDiff_leaf d 0 \<noteq> None"
    by (rule two_members_wf) simp
  from member_commit_succeeds [OF sample_tree_provider_total _ _ _ d(2,3)] d(1) show ?thesis by auto
qed

theorem member_commit_agreement_witness:
  "\<exists>d d' plain kps cs nodes ln received. ABinaryTree_empty_diff two_members = Some d \<and>
    apply_own_update_path (\<lambda>m. Ok (replicate m 1)) (\<lambda>m. Ok (replicate m 2)) sample_tree_provider (\<lambda>m. Ok (7 # m)) suite1
      MemberCommit [9] 0 sample_update_params None d = (d', Ok (plain, kps, cs)) \<and>
    encrypt_path sample_tree_provider suite1 plain [8] {} 0 d' = Ok nodes \<and>
    apply_received_update_path sample_tree_provider suite1 0 \<lparr>up_leaf_node = ln, up_nodes = nodes\<rparr> d = (d', Ok ()) \<and>
    decrypt_path sample_tree_provider suite1
      \<lparr>dpp_update_path = nodes, dpp_sender_leaf_index = 0, dpp_exclusion_list = {}, dpp_group_context = [8]\<rparr>
      [\<lparr>kp_public_key = [2], kp_private_key = [2]\<rparr>] 1 d' = Ok (received, cs)"
proof -
  obtain d where d: "ABinaryTree_empty_diff two_members = Some d" "TreeSync_wf 1 d"
    "AbDiff_leaf d = (\<lambda>i. if i < 2 then [Some (sample_member [1]), Some (sample_member [2])] ! i else None)"
    "AbDiff_parent d = (\<lambda>_. None)"
    by (rule two_members_wf)
  have full: "AbDiff_leaf d 0 \<noteq> None" "AbDiff_leaf d 1 \<noteq> None" by (simp_all add: d(3))
  obtain d' plain kps cs nodes where own:
    "apply_own_update_path (\<lambda>m. Ok (replicate m 1)) (\<lambda>m. Ok (replicate m 2)) sample_tree_provider (\<lambda>m. Ok (7 # m)) suite1
      MemberCommit [9] 0 sample_update_params None d = (d', Ok (plain, kps, cs))"
    and enc: "encrypt_path sample_tree_provider suite1 plain [8] {} 0 d' = Ok nodes"
    using own_commit_total [OF sample_tree_provider_total _ _ _ d(2) full(1), of "\<lambda>m. Ok (replicate m 1)"
        "\<lambda>m. Ok (replicate m 2)" "\<lambda>m. Ok (7 # m)" suite1 "[9]" sample_update_params None "[8]" "{}"] by auto
  have ref: "node_ref d k q = (if k = 0 then map_option LeafRef (AbDiff_leaf d q) else None)" for k q
    by (cases k) (simp_all add: node_ref_def d(4))
  have uk: "unique_keys 1 d"
    unfolding unique_keys_def ref by (auto simp: d(3) in_tree_def sample_member_def less_2_cases_iff split: if_splits)
  obtain keys where keys: "encryption_keys d 1 = Some keys" "set keys = covering_keys 1 d 1"
    using encryption_keys_set [OF d(2), of 1] by auto
  have "covering_keys 1 d 1 = {[2]}" unfolding covering_keys_def ref by (auto simp: d(3) sample_member_def split: if_splits)
  then have "kp_public_key ` set [\<lparr>kp_public_key = [2], kp_private_key = [2]\<rparr>] = set keys" using keys(2) by simp
  from member_commit_agreement [OF d(2) full _ _ uk keys(1) this _ own enc] d(1) own enc show ?thesis
    by (auto simp: hpke_opens_def sample_tree_provider_def sample_leaf_provider_def zero_provider_def leaf_provider_defs)
qed

end
