(* ===== verification/ApplyProposals.thy ===== *)
theory ApplyProposals
  imports Proposals CommitAgreement
begin

text \<open>
  Applying the proposals of a commit to the tree and the context of a group
  (\<open>group/public_group/diff/apply_proposals.rs\<close>, \<open>group/public_group/diff.rs\<close>).

  The flag \<open>self_removed\<close>, which the code sets inside its loops, is computed from the proposals the
  loops have gone through.
\<close>

section \<open>The diff of a group\<close>

record PublicGroupDiff =
  pgd_diff :: TreeSyncDiff
  pgd_group_context :: GroupContext
  pgd_interim_transcript_hash :: bytes
  pgd_confirmation_tag :: bytes

record ApplyProposalsValues =
  path_required :: bool
  self_removed :: bool
  invitation_list :: "(LeafNodeIndex \<times> KeyPackage) list"
  presharedkeys :: "PreSharedKeyId list"
  external_init_proposal_option :: "bytes option"
  apv_extensions :: "Extensions option"

definition exclusion_list :: "ApplyProposalsValues \<Rightarrow> LeafNodeIndex set" where
  "exclusion_list v = fst ` set (invitation_list v)"

section \<open>Applying proposals\<close>

text \<open>The bodies of the loops over updates, removals, removals by the member itself, and Adds.\<close>

definition apply_update :: "QueuedProposal \<Rightarrow> TreeSyncDiff \<Rightarrow> TreeSyncDiff \<times> (unit, LibraryError) outcome" where
  "apply_update qp d =
     (case proposal qp of
        UpdateProposal leaf_node \<Rightarrow>
          (case sender qp of
             Member sender_index \<Rightarrow>
               (case update_leaf leaf_node sender_index d of Some d' \<Rightarrow> (d', Ok ()) | None \<Rightarrow> (d, Panic))
           | _ \<Rightarrow> (d, Err (LibraryCustom ''Update proposal from non-member'')))
      | _ \<Rightarrow> (d, Ok ()))"

definition apply_remove :: "QueuedProposal \<Rightarrow> TreeSyncDiff \<Rightarrow> TreeSyncDiff \<times> (unit, LibraryError) outcome" where
  "apply_remove qp d =
     (case proposal qp of
        RemoveProposal removed \<Rightarrow> (case blank_leaf removed d of Some d' \<Rightarrow> (d', Ok ()) | None \<Rightarrow> (d, Panic))
      | _ \<Rightarrow> (d, Ok ()))"

definition apply_self_remove :: "QueuedProposal \<Rightarrow> TreeSyncDiff \<Rightarrow> TreeSyncDiff \<times> (unit, LibraryError) outcome" where
  "apply_self_remove qp d =
     (case proposal qp of
        SelfRemoveProposal \<Rightarrow>
          (case sender qp of
             Member removed \<Rightarrow> (case blank_leaf removed d of Some d' \<Rightarrow> (d', Ok ()) | None \<Rightarrow> (d, Panic))
           | _ \<Rightarrow> (d, Err (LibraryCustom ''SelfRemove proposal from non-member'')))
      | _ \<Rightarrow> (d, Ok ()))"

fun apply_adds ::
    "KeyPackage list \<Rightarrow> TreeSyncDiff \<Rightarrow> TreeSyncDiff \<times> ((LeafNodeIndex \<times> KeyPackage) list, LibraryError) outcome" where
  "apply_adds [] d = (d, Ok [])"
| "apply_adds (kp # kps) d =
     (case add_leaf (kp_leaf_node (kp_payload kp)) d of
        (d', Ok leaf_index) \<Rightarrow> try_then (apply_adds kps d') (\<lambda>d'' invited. (d'', Ok ((leaf_index, kp) # invited)))
      | (d', Err _) \<Rightarrow> (d', Err (LibraryCustom ''Tree full: cannot add more members''))
      | (d', Panic) \<Rightarrow> (d', Panic))"

definition apply_to_tree ::
    "ProposalQueue \<Rightarrow> TreeSyncDiff \<Rightarrow> TreeSyncDiff \<times> ((LeafNodeIndex \<times> KeyPackage) list, LibraryError) outcome" where
  "apply_to_tree q d =
     try_then (for_each_try apply_update (filtered_by_type PUpdate q) d) (\<lambda>d _.
     try_then (for_each_try apply_remove (filtered_by_type PRemove q) d) (\<lambda>d _.
     try_then (for_each_try apply_self_remove (filtered_by_type PSelfRemove q) d) (\<lambda>d _.
     try_then
       (apply_adds (List.map_filter (\<lambda>qp. case proposal qp of AddProposal kp \<Rightarrow> Some kp | _ \<Rightarrow> None) (filtered_by_type PAdd q)) d)
       (\<lambda>d invited. case trim_tree d of Some d' \<Rightarrow> (d', Ok invited) | None \<Rightarrow> (d, Panic)))))"

definition apply_proposals ::
    "ProposalQueue \<Rightarrow> LeafNodeIndex option \<Rightarrow> PublicGroupDiff \<Rightarrow> PublicGroupDiff \<times> (ApplyProposalsValues, LibraryError) outcome" where
  "apply_proposals q own g =
     (case apply_to_tree q (pgd_diff g) of
        (d, r) \<Rightarrow>
          (g\<lparr>pgd_diff := d\<rparr>,
           outcome_bind r (\<lambda>invited. Ok
             \<lparr>path_required =
                list_ex (\<lambda>qp. is_path_required (proposal_type (proposal qp))) (queued_proposals q) \<or> ProposalQueue_is_empty q,
              self_removed =
                (case own of
                   Some i \<Rightarrow>
                     list_ex (\<lambda>qp. proposal qp = RemoveProposal i) (filtered_by_type PRemove q) \<or>
                     list_ex (\<lambda>qp. sender qp = Member i) (filtered_by_type PSelfRemove q)
                 | None \<Rightarrow> False),
              invitation_list = invited,
              presharedkeys =
                List.map_filter (\<lambda>qp. case proposal qp of PreSharedKeyProposal i \<Rightarrow> Some i | _ \<Rightarrow> None) (filtered_by_type PPreSharedKey q),
              external_init_proposal_option =
                (case filtered_by_type PExternalInit q of
                   qp # _ \<Rightarrow> (case proposal qp of ExternalInitProposal kem \<Rightarrow> Some kem | _ \<Rightarrow> None)
                 | [] \<Rightarrow> None),
              apv_extensions =
                (case List.map_filter (\<lambda>qp. case proposal qp of GroupContextExtensionProposal es \<Rightarrow> Some es | _ \<Rightarrow> None)
                   (filtered_by_type PGroupContextExtensions q) of
                   es # _ \<Rightarrow> Some es | [] \<Rightarrow> None)\<rparr>)))"

section \<open>Application data and the context\<close>

datatype ApplyAppDataUpdateError = MissingAppDataUpdates | SuperfluousAppDataUpdates | AaduLibraryError LibraryError

type_synonym AppDataUpdates = "(ComponentId, bytes option) btree_map"

definition apply_app_data_update_proposals ::
    "PublicGroupDiff \<Rightarrow> Extensions option \<Rightarrow> ProposalQueue \<Rightarrow> AppDataUpdates option \<Rightarrow>
     (Extensions option, ApplyAppDataUpdateError) outcome" where
  "apply_app_data_update_proposals g updated q app_data_dict_updates =
     (case (list_ex (\<lambda>qp. proposal_type (proposal qp) = PAppDataUpdate) (queued_proposals q), app_data_dict_updates) of
        (False, None) \<Rightarrow> Ok updated
      | (True, None) \<Rightarrow> Err MissingAppDataUpdates
      | (False, Some _) \<Rightarrow> Err SuperfluousAppDataUpdates
      | (True, Some updates) \<Rightarrow>
          (let dictionary0 = (case Extensions_app_data_dictionary (gc_extensions (pgd_group_context g)) of Some d \<Rightarrow> d | None \<Rightarrow> []);
               dictionary = foldl (\<lambda>dict (i, data). case data of
                   Some b \<Rightarrow> fst (AppDataDictionary_insert i b dict)
                 | None \<Rightarrow> fst (AppDataDictionary_remove i dict)) dictionary0 updates;
               extensions0 = (case updated of Some es \<Rightarrow> es | None \<Rightarrow> gc_extensions (pgd_group_context g)) in
           case Extensions_add_or_replace GroupContext_validate (AppDataDictionary dictionary) extensions0 of
             (es, Ok _) \<Rightarrow> Ok (Some es)
           | (_, Err _) \<Rightarrow> Err (AaduLibraryError (LibraryCustom ''Failed to update AppDataDictionary extension''))
           | (_, Panic) \<Rightarrow> Panic))"

definition update_group_context ::
    "'a tree_provider_scheme \<Rightarrow> Extensions option \<Rightarrow> PublicGroupDiff \<Rightarrow> PublicGroupDiff \<times> (unit, LibraryError) outcome" where
  "update_group_context p extensions g =
     (case compute_tree_hashes p (gc_ciphersuite (pgd_group_context g)) (pgd_diff g) of
        Ok h \<Rightarrow>
          (case increment_epoch (update_tree_hash h (pgd_group_context g)) of
             Some context \<Rightarrow>
               (g\<lparr>pgd_group_context := (case extensions of Some es \<Rightarrow> context\<lparr>gc_extensions := es\<rparr> | None \<Rightarrow> context)\<rparr>, Ok ())
           | None \<Rightarrow> (g, Panic))
      | Err e \<Rightarrow> (g, Err e)
      | Panic \<Rightarrow> (g, Panic))"

section \<open>Leaves that are set one after the other\<close>

lemma filtered_by_type_eq: "filtered_by_type t q = filter (is_proposal t) (queued_proposals q)"
proof -
  have "List.map_filter f (filter (\<lambda>r. case f r of Some qp \<Rightarrow> proposal_type (proposal qp) = t | None \<Rightarrow> False) rs) =
      filter (is_proposal t) (List.map_filter f rs)" for f and rs :: "ProposalRef list"
    by (induction rs) (auto simp: map_filter_simps is_proposal_def split: option.splits)
  then show ?thesis by (simp add: filtered_by_type_def queued_proposals_def)
qed

definition set_all :: "('i \<times> 'v) list \<Rightarrow> ('i \<Rightarrow> 'v) \<Rightarrow> 'i \<Rightarrow> 'v" where
  "set_all xs f = foldl (\<lambda>g (i, v). g(i := v)) f xs"

lemma set_all_append: "set_all (xs @ ys) f = set_all ys (set_all xs f)"
  by (simp add: set_all_def)

lemma set_all_at: "set_all xs f x = (case filter (\<lambda>(i, v). i = x) xs of [] \<Rightarrow> f x | y # ys \<Rightarrow> snd (last (y # ys)))"
proof (induction xs rule: rev_induct)
  case (snoc z zs)
  then show ?case by (cases z) (auto simp: set_all_def split: list.splits)
qed (simp add: set_all_def)

text \<open>A loop whose body sets one leaf.\<close>

lemma set_leaf_keeps_has:
  assumes wf: "TreeSync_wf n d" and i: "i < 2 ^ n" "AbDiff_has_leaf d i"
  obtains d' where "set_leaf l i d = Some d'" "TreeSync_wf n d'" "original_tree d' = original_tree d"
    "AbDiff_leaf d' = (AbDiff_leaf d)(i := l)" "\<forall>y. AbDiff_has_leaf d y \<longrightarrow> AbDiff_has_leaf d' y"
proof -
  obtain d' where d': "set_leaf l i d = Some d'" "TreeSync_wf n d'" "AbDiff_frame d' = AbDiff_frame d" "AbDiff_leaf d' = (AbDiff_leaf d)(i := l)"
    by (rule set_leaf_wf [OF assms, of l]) (rule that)
  have "leaf_diff d' = btm_insert i l (leaf_diff d)" using set_leaf_effect [OF wf i(1), of l] d'(1) by auto
  then show thesis using that d' frame_wf(2) [OF d'(3)] has_leaf_insert [OF wf] by blast
qed

lemma for_each_set_leaf:
  assumes "TreeSync_wf n d" "list_all (\<lambda>(i, l). i < 2 ^ n \<and> AbDiff_has_leaf d i) (map s xs)"
    and f: "\<forall>x \<in> set xs. \<forall>d. f x d = (case set_leaf (snd (s x)) (fst (s x)) d of Some d' \<Rightarrow> (d', Ok ()) | None \<Rightarrow> (d, Panic))"
  shows "\<exists>d'. for_each_try f xs d = (d', Ok ()) \<and> TreeSync_wf n d' \<and> original_tree d' = original_tree d \<and>
    AbDiff_leaf d' = set_all (map s xs) (AbDiff_leaf d) \<and> (\<forall>y. AbDiff_has_leaf d y \<longrightarrow> AbDiff_has_leaf d' y)"
  using assms
proof (induction xs arbitrary: d)
  case (Cons x xs)
  obtain i l where s: "s x = (i, l)" by fastforce
  then have i: "i < 2 ^ n" "AbDiff_has_leaf d i" using Cons.prems(2) by simp_all
  obtain d1 where d1: "set_leaf l i d = Some d1" "TreeSync_wf n d1" "original_tree d1 = original_tree d"
    "AbDiff_leaf d1 = (AbDiff_leaf d)(i := l)" "\<forall>y. AbDiff_has_leaf d y \<longrightarrow> AbDiff_has_leaf d1 y"
    by (rule set_leaf_keeps_has [OF Cons.prems(1) i, of l])
  have "list_all (\<lambda>(i, l). i < 2 ^ n \<and> AbDiff_has_leaf d1 i) (map s xs)"
    using Cons.prems(2) d1(5) by (auto simp: list_all_iff)
  from Cons.IH [OF d1(2) this] Cons.prems(3) obtain d' where d': "for_each_try f xs d1 = (d', Ok ())" "TreeSync_wf n d'"
    "original_tree d' = original_tree d1" "AbDiff_leaf d' = set_all (map s xs) (AbDiff_leaf d1)"
    "\<forall>y. AbDiff_has_leaf d1 y \<longrightarrow> AbDiff_has_leaf d' y" by auto
  have "f x d = (d1, Ok ())" using Cons.prems(3) s d1(1) by simp
  with d' d1 s show ?case by (intro exI [of _ d']) (simp add: set_all_def)
qed (simp add: set_all_def)

section \<open>Adding members\<close>

definition members :: "TreeSyncDiff \<Rightarrow> LeafNodeIndex set" where
  "members d = {x. AbDiff_leaf d x \<noteq> None}"

lemma members_bound: "TreeSync_wf n d \<Longrightarrow> members d \<subseteq> {..<2 ^ n}"
  using full_leaf_bound by (auto simp: members_def)

lemma full_below_free:
  assumes wf: "TreeSync_wf n d" and "free_leaf_index d = 2 ^ n"
  shows "card (members d) = 2 ^ n"
proof -
  have "members d = {..<2 ^ n}"
    using members_bound [OF wf] free_leaf_index_spec(3) [OF wf] assms(2) by (auto simp: members_def)
  then show ?thesis by simp
qed

definition invited_leaf :: "(LeafNodeIndex \<times> KeyPackage) list \<Rightarrow> (LeafNodeIndex \<Rightarrow> LeafNode option) \<Rightarrow> LeafNodeIndex \<Rightarrow> LeafNode option" where
  "invited_leaf invited f x = (case map_of invited x of Some kp \<Rightarrow> Some (kp_leaf_node (kp_payload kp)) | None \<Rightarrow> f x)"

lemma add_leaf_step:
  assumes wf: "TreeSync_wf n d" and u: "unshrunk n d" and c: "card (members d) < 2 ^ 29"
  obtains m d' where "add_leaf l d = (d', Ok (free_leaf_index d))" "TreeSync_wf m d'" "unshrunk m d'"
    "AbDiff_leaf d' = (AbDiff_leaf d)(free_leaf_index d := Some l)" "card (members d') = card (members d) + 1"
proof -
  let ?i = "free_leaf_index d"
  define m where "m = (if ?i < 2 ^ n then n else Suc n)"
  have "m < 30"
  proof (cases "?i < 2 ^ n")
    case True
    then show ?thesis using wf by (simp add: m_def TreeSync_wf_def)
  next
    case False
    then have "?i = 2 ^ n" using free_leaf_index_spec(1) [OF wf] by simp
    then have "(2 :: nat) ^ n < 2 ^ 29" using full_below_free [OF wf] c by simp
    then have "n < 29" by (rule power_less_imp_less_exp [rotated]) simp
    then show ?thesis by (simp add: m_def)
  qed
  then obtain d' where d': "add_leaf l d = (d', Ok ?i)" "TreeSync_wf m d'" "original_tree d' = original_tree d"
    "AbDiff_leaf d' = (AbDiff_leaf d)(?i := Some l)"
    using add_leaf_wf [OF wf refl _ m_def, of l] u by metis
  have "unshrunk m d'" using u d'(3) unfolding unshrunk_def m_def by (auto intro: order.trans)
  moreover have "members d' = insert ?i (members d)" "?i \<notin> members d"
    using free_leaf_index_spec(2) [OF wf] by (auto simp: members_def d'(4))
  then have "card (members d') = card (members d) + 1"
    using finite_subset [OF members_bound [OF wf]] by simp
  ultimately show thesis using that d' by blast
qed

lemma apply_adds_wf:
  assumes "TreeSync_wf n d" "unshrunk n d" "card (members d) + length kps \<le> 2 ^ 29"
  shows "\<exists>m d' invited. apply_adds kps d = (d', Ok invited) \<and> TreeSync_wf m d' \<and> map snd invited = kps \<and>
    distinct (map fst invited) \<and> fst ` set invited \<inter> members d = {} \<and> AbDiff_leaf d' = invited_leaf invited (AbDiff_leaf d)"
  using assms
proof (induction kps arbitrary: n d)
  case Nil
  then show ?case by (auto simp: invited_leaf_def)
next
  case (Cons kp kps)
  let ?i = "free_leaf_index d" and ?l = "kp_leaf_node (kp_payload kp)"
  obtain m d1 where d1: "add_leaf ?l d = (d1, Ok ?i)" "TreeSync_wf m d1" "unshrunk m d1"
    "AbDiff_leaf d1 = (AbDiff_leaf d)(?i := Some ?l)" "card (members d1) = card (members d) + 1"
    by (rule add_leaf_step [OF Cons.prems(1,2), of ?l]) (use Cons.prems(3) in simp, rule that)
  obtain m' d' invited where d': "apply_adds kps d1 = (d', Ok invited)" "TreeSync_wf m' d'" "map snd invited = kps"
    "distinct (map fst invited)" "fst ` set invited \<inter> members d1 = {}" "AbDiff_leaf d' = invited_leaf invited (AbDiff_leaf d1)"
    using Cons.IH [OF d1(2,3)] d1(5) Cons.prems(3) by auto
  have free: "AbDiff_leaf d ?i = None" by (rule free_leaf_index_spec(2) [OF Cons.prems(1)])
  have m1: "members d1 = insert ?i (members d)" by (auto simp: members_def d1(4))
  have n: "map_of invited ?i = None" using d'(5) m1 by (auto simp: map_of_eq_None_iff)
  have "AbDiff_leaf d' = invited_leaf ((?i, kp) # invited) (AbDiff_leaf d)"
    using n by (auto simp: d'(6) invited_leaf_def d1(4) split: option.split)
  then show ?case using d' d1(1) m1 free
    by (intro exI [of _ m'] exI [of _ d'] exI [of _ "(?i, kp) # invited"]) (auto simp: members_def)
qed

section \<open>The members after a commit\<close>

text \<open>Validated proposals: updates and removals concern members.\<close>

definition applicable :: "TreeSyncDiff \<Rightarrow> QueuedProposal \<Rightarrow> bool" where
  "applicable d qp \<longleftrightarrow> (case proposal qp of
     UpdateProposal _ \<Rightarrow> \<exists>i \<in> members d. sender qp = Member i
   | RemoveProposal i \<Rightarrow> i \<in> members d
   | SelfRemoveProposal \<Rightarrow> \<exists>i \<in> members d. sender qp = Member i
   | _ \<Rightarrow> True)"

definition removed_leaves :: "QueuedProposal list \<Rightarrow> LeafNodeIndex set" where
  "removed_leaves qps =
     {i. \<exists>qp \<in> set qps. proposal qp = RemoveProposal i \<or> proposal qp = SelfRemoveProposal \<and> sender qp = Member i}"

definition updates_of :: "LeafNodeIndex \<Rightarrow> QueuedProposal list \<Rightarrow> LeafNode list" where
  "updates_of i qps = List.map_filter (\<lambda>qp. case proposal qp of
     UpdateProposal l \<Rightarrow> if sender qp = Member i then Some l else None | _ \<Rightarrow> None) qps"

definition leaf_after :: "QueuedProposal list \<Rightarrow> (LeafNodeIndex \<Rightarrow> LeafNode option) \<Rightarrow> LeafNodeIndex \<Rightarrow> LeafNode option" where
  "leaf_after qps f i =
     (if i \<in> removed_leaves qps then None
      else if updates_of i qps = [] then f i
      else Some (last (updates_of i qps)))"

definition leaf_change :: "QueuedProposal \<Rightarrow> LeafNodeIndex \<times> LeafNode option" where
  "leaf_change qp = (case proposal qp of
     UpdateProposal l \<Rightarrow> (the (Sender_as_member (sender qp)), Some l)
   | RemoveProposal i \<Rightarrow> (i, None)
   | _ \<Rightarrow> (the (Sender_as_member (sender qp)), None))"

lemma change_ops:
  assumes "applicable e qp"
  shows "is_proposal PUpdate qp \<Longrightarrow>
      apply_update qp d = (case set_leaf (snd (leaf_change qp)) (fst (leaf_change qp)) d of Some d' \<Rightarrow> (d', Ok ()) | None \<Rightarrow> (d, Panic))"
    "is_proposal PRemove qp \<Longrightarrow>
      apply_remove qp d = (case set_leaf (snd (leaf_change qp)) (fst (leaf_change qp)) d of Some d' \<Rightarrow> (d', Ok ()) | None \<Rightarrow> (d, Panic))"
    "is_proposal PSelfRemove qp \<Longrightarrow>
      apply_self_remove qp d = (case set_leaf (snd (leaf_change qp)) (fst (leaf_change qp)) d of Some d' \<Rightarrow> (d', Ok ()) | None \<Rightarrow> (d, Panic))"
  using assms
  by (auto simp: applicable_def proposal_types apply_update_def apply_remove_def apply_self_remove_def leaf_change_def set_leaf_ops)

lemma change_member:
  assumes "applicable d qp" "is_proposal PUpdate qp \<or> is_proposal PRemove qp \<or> is_proposal PSelfRemove qp"
  shows "fst (leaf_change qp) \<in> members d"
  using assms by (auto simp: applicable_def proposal_types leaf_change_def)

lemma set_all_updates:
  "list_all (applicable d) qps \<Longrightarrow>
   set_all (map leaf_change (filter (is_proposal PUpdate) qps)) f i =
     (if updates_of i qps = [] then f i else Some (last (updates_of i qps)))"
proof (induction qps rule: rev_induct)
  case (snoc qp qps)
  then show ?case
    by (cases "proposal qp")
      (auto simp: set_all_append set_all_def updates_of_def map_filter_append map_filter_simps is_proposal_def leaf_change_def applicable_def)
qed (simp add: set_all_def updates_of_def map_filter_simps)

lemma set_all_blank:
  "\<forall>x \<in> set xs. snd x = None \<Longrightarrow> set_all xs f i = (if i \<in> fst ` set xs then None else f i)"
  by (induction xs rule: rev_induct) (auto simp: set_all_def split: prod.split)

lemma set_all_changes:
  assumes "list_all (applicable d) qps"
  shows "set_all (map leaf_change (filter (is_proposal PUpdate) qps @ filter (is_proposal PRemove) qps @ filter (is_proposal PSelfRemove) qps)) f =
    leaf_after qps f"
proof
  fix i
  let ?R = "map leaf_change (filter (is_proposal PRemove) qps @ filter (is_proposal PSelfRemove) qps)"
  have "i \<in> fst ` set ?R \<longleftrightarrow> i \<in> removed_leaves qps"
    using assms by (force simp: list_all_iff applicable_def removed_leaves_def leaf_change_def proposal_types)
  moreover have "\<forall>x \<in> set ?R. snd x = None" by (auto simp: leaf_change_def proposal_types)
  ultimately show "set_all (map leaf_change (filter (is_proposal PUpdate) qps @ filter (is_proposal PRemove) qps @ filter (is_proposal PSelfRemove) qps)) f i =
      leaf_after qps f i"
    using set_all_updates [OF assms, of f i] set_all_blank [of ?R _ i]
    by (simp only: map_append [of _ "filter (is_proposal PUpdate) qps"] set_all_append leaf_after_def)
qed

lemma updates_of_nonempty:
  "updates_of i qps \<noteq> [] \<Longrightarrow> \<exists>qp \<in> set qps. (\<exists>l. proposal qp = UpdateProposal l) \<and> sender qp = Member i"
proof (induction qps)
  case (Cons qp qps)
  then show ?case by (cases "proposal qp") (auto simp: updates_of_def map_filter_simps split: if_splits)
qed (simp add: updates_of_def map_filter_simps)

lemma members_leaf_after:
  assumes "list_all (applicable d) qps" "AbDiff_leaf d' = leaf_after qps (AbDiff_leaf d)"
  shows "members d' \<subseteq> members d"
proof
  fix i assume i: "i \<in> members d'"
  show "i \<in> members d"
  proof (cases "updates_of i qps = []")
    case True
    then show ?thesis using i assms(2) by (auto simp: members_def leaf_after_def split: if_splits)
  next
    case False
    then obtain qp l where "qp \<in> set qps" "proposal qp = UpdateProposal l" "sender qp = Member i"
      using updates_of_nonempty by blast
    then show ?thesis using assms(1) by (auto simp: list_all_iff applicable_def)
  qed
qed

text \<open>The loops over the proposals that change a leaf.\<close>

lemma apply_changes_wf:
  assumes wf: "TreeSync_wf n d" and app: "list_all (applicable d) qps"
  obtains d1 d2 d3 where "for_each_try apply_update (filter (is_proposal PUpdate) qps) d = (d1, Ok ())"
    "for_each_try apply_remove (filter (is_proposal PRemove) qps) d1 = (d2, Ok ())"
    "for_each_try apply_self_remove (filter (is_proposal PSelfRemove) qps) d2 = (d3, Ok ())"
    "TreeSync_wf n d3" "original_tree d3 = original_tree d" "AbDiff_leaf d3 = leaf_after qps (AbDiff_leaf d)"
proof -
  let ?U = "filter (is_proposal PUpdate) qps" and ?R = "filter (is_proposal PRemove) qps" and ?S = "filter (is_proposal PSelfRemove) qps"
  have a: "applicable d qp" if "qp \<in> set qps" for qp using app that by (simp add: list_all_iff)
  have ok: "list_all (\<lambda>(i, l). i < 2 ^ n \<and> AbDiff_has_leaf e i) (map leaf_change (filter (is_proposal t) qps))"
    if e: "\<forall>y. AbDiff_has_leaf d y \<longrightarrow> AbDiff_has_leaf e y" and t: "t \<in> {PUpdate, PRemove, PSelfRemove}" for e t
  proof -
    have "fst (leaf_change qp) \<in> members d" if "qp \<in> set (filter (is_proposal t) qps)" for qp
      using change_member [OF a, of qp] that t by auto
    then show ?thesis using e members_bound [OF wf] has_leaf_full [OF wf] by (fastforce simp: list_all_iff members_def)
  qed
  obtain d1 where d1: "for_each_try apply_update ?U d = (d1, Ok ())" "TreeSync_wf n d1" "original_tree d1 = original_tree d"
    "AbDiff_leaf d1 = set_all (map leaf_change ?U) (AbDiff_leaf d)" "\<forall>y. AbDiff_has_leaf d y \<longrightarrow> AbDiff_has_leaf d1 y"
    using for_each_set_leaf [OF wf ok [of d PUpdate], of apply_update] change_ops(1) [OF a] by auto
  obtain d2 where d2: "for_each_try apply_remove ?R d1 = (d2, Ok ())" "TreeSync_wf n d2" "original_tree d2 = original_tree d1"
    "AbDiff_leaf d2 = set_all (map leaf_change ?R) (AbDiff_leaf d1)" "\<forall>y. AbDiff_has_leaf d y \<longrightarrow> AbDiff_has_leaf d2 y"
    using for_each_set_leaf [OF d1(2) ok [OF d1(5), of PRemove], of apply_remove] change_ops(2) [OF a] d1(5) by auto
  obtain d3 where d3: "for_each_try apply_self_remove ?S d2 = (d3, Ok ())" "TreeSync_wf n d3" "original_tree d3 = original_tree d2"
    "AbDiff_leaf d3 = set_all (map leaf_change ?S) (AbDiff_leaf d2)"
    using for_each_set_leaf [OF d2(2) ok [OF d2(5), of PSelfRemove], of apply_self_remove] change_ops(3) [OF a] by auto
  have "AbDiff_leaf d3 = leaf_after qps (AbDiff_leaf d)"
    using set_all_changes [OF app, of "AbDiff_leaf d"] by (simp add: set_all_append d1(4) d2(4) d3(4))
  then show thesis using that d1 d2 d3 by simp
qed

abbreviation added_packages :: "ProposalQueue \<Rightarrow> KeyPackage list" where
  "added_packages q \<equiv> List.map_filter (\<lambda>qp. case proposal qp of AddProposal kp \<Rightarrow> Some kp | _ \<Rightarrow> None) (queued_proposals q)"

lemma added_packages_eq:
  "List.map_filter (\<lambda>qp. case proposal qp of AddProposal kp \<Rightarrow> Some kp | _ \<Rightarrow> None) (filter (is_proposal PAdd) qps) =
   List.map_filter (\<lambda>qp. case proposal qp of AddProposal kp \<Rightarrow> Some kp | _ \<Rightarrow> None) qps"
  by (induction qps) (auto simp: map_filter_simps is_proposal_def split: Proposal.split)

lemma removed_leaves_ex:
  "list_ex (\<lambda>qp. proposal qp = RemoveProposal i) (filter (is_proposal PRemove) qps) \<or>
   list_ex (\<lambda>qp. sender qp = Member i) (filter (is_proposal PSelfRemove) qps) \<longleftrightarrow> i \<in> removed_leaves qps"
  unfolding list_ex_iff set_filter removed_leaves_def proposal_types by blast

lemma apply_proposals_effect:
  assumes wf: "TreeSync_wf n (pgd_diff g)" and u: "unshrunk n (pgd_diff g)"
    and app: "list_all (applicable (pgd_diff g)) (queued_proposals q)"
    and room: "card (members (pgd_diff g)) + length (added_packages q) \<le> 2 ^ 29"
  obtains m g' v where "apply_proposals q own g = (g', Ok v)" "TreeSync_wf m (pgd_diff g')"
    "m = 0 \<or> (\<exists>x \<in> members (pgd_diff g'). 2 ^ (m - 1) \<le> x)"
    "map snd (invitation_list v) = added_packages q" "distinct (map fst (invitation_list v))"
    "\<forall>i \<in> exclusion_list v. leaf_after (queued_proposals q) (AbDiff_leaf (pgd_diff g)) i = None"
    "AbDiff_leaf (pgd_diff g') =
      invited_leaf (invitation_list v) (leaf_after (queued_proposals q) (AbDiff_leaf (pgd_diff g)))"
    "self_removed v \<longleftrightarrow> (\<exists>i. own = Some i \<and> i \<in> removed_leaves (queued_proposals q))"
proof -
  let ?d = "pgd_diff g" and ?qps = "queued_proposals q"
  obtain d1 d2 d3 where c: "for_each_try apply_update (filter (is_proposal PUpdate) ?qps) ?d = (d1, Ok ())"
    "for_each_try apply_remove (filter (is_proposal PRemove) ?qps) d1 = (d2, Ok ())"
    "for_each_try apply_self_remove (filter (is_proposal PSelfRemove) ?qps) d2 = (d3, Ok ())"
    "TreeSync_wf n d3" "original_tree d3 = original_tree ?d" "AbDiff_leaf d3 = leaf_after ?qps (AbDiff_leaf ?d)"
    by (rule apply_changes_wf [OF wf app])
  have "card (members d3) \<le> card (members ?d)"
    by (rule card_mono [OF finite_subset [OF members_bound [OF wf]] members_leaf_after [OF app c(6)]]) simp
  then obtain m d4 invited where d4: "apply_adds (added_packages q) d3 = (d4, Ok invited)" "TreeSync_wf m d4"
    "map snd invited = added_packages q" "distinct (map fst invited)" "fst ` set invited \<inter> members d3 = {}"
    "AbDiff_leaf d4 = invited_leaf invited (AbDiff_leaf d3)"
    using apply_adds_wf [OF c(4), of "added_packages q"] u c(5) room by (auto simp: unshrunk_def)
  obtain m' d5 where d5: "trim_tree d4 = Some d5" "TreeSync_wf m' d5" "AbDiff_leaf d5 = AbDiff_leaf d4"
    "m' = 0 \<or> (\<exists>x \<ge> 2 ^ (m' - 1). AbDiff_leaf d4 x \<noteq> None)" by (rule trim_tree_wf [OF d4(2)])
  have t: "apply_to_tree q ?d = (d5, Ok invited)"
    by (simp add: apply_to_tree_def filtered_by_type_eq c(1-3) added_packages_eq d4(1) d5(1))
  have "self_removed v \<longleftrightarrow> (\<exists>i. own = Some i \<and> i \<in> removed_leaves ?qps)" if "snd (apply_proposals q own g) = Ok v" for v
    using that by (auto simp: apply_proposals_def t filtered_by_type_eq removed_leaves_ex split: option.splits)
  moreover obtain g' v where g: "apply_proposals q own g = (g', Ok v)" "pgd_diff g' = d5" "invitation_list v = invited"
    by (simp add: apply_proposals_def t)
  moreover have "\<forall>i \<in> exclusion_list v. leaf_after ?qps (AbDiff_leaf ?d) i = None"
    using d4(5) by (auto simp: exclusion_list_def g(3) members_def c(6))
  ultimately show thesis using d4(3,4,6) d5(2-4) c(6)
    by (intro that [OF g(1), of m']) (auto simp: members_def)
qed

text \<open>
  (C5) Applying validated proposals to a well-formed tree that was not shrunk before succeeds and gives
  a well-formed tree without an empty right half. A member that was removed is not in it, a member
  that sent updates has the leaf of its last one, every other member is as before, and each Add has
  a leaf of its own that no member had.
\<close>

theorem apply_proposals_members:
  assumes wf: "TreeSync_wf n (pgd_diff g)" and u: "unshrunk n (pgd_diff g)"
    and app: "list_all (applicable (pgd_diff g)) (queued_proposals q)"
    and room: "card (members (pgd_diff g)) + length (added_packages q) \<le> 2 ^ 29"
  shows "\<exists>m g' v. apply_proposals q own g = (g', Ok v) \<and> TreeSync_wf m (pgd_diff g') \<and>
    (m = 0 \<or> (\<exists>x \<in> members (pgd_diff g'). 2 ^ (m - 1) \<le> x)) \<and>
    map snd (invitation_list v) = added_packages q \<and> distinct (map fst (invitation_list v)) \<and>
    (\<forall>i \<in> exclusion_list v. leaf_after (queued_proposals q) (AbDiff_leaf (pgd_diff g)) i = None) \<and>
    AbDiff_leaf (pgd_diff g') =
      invited_leaf (invitation_list v) (leaf_after (queued_proposals q) (AbDiff_leaf (pgd_diff g))) \<and>
    (self_removed v \<longleftrightarrow> (\<exists>i. own = Some i \<and> i \<in> removed_leaves (queued_proposals q)))"
  by (rule apply_proposals_effect [OF assms, of own]) (intro exI conjI, assumption+)

definition removal_queue :: "LeafNodeIndex list \<Rightarrow> ProposalQueue" where
  "removal_queue leaves =
     \<lparr>proposal_references = map (\<lambda>i. [of_nat i]) leaves,
      pq_proposals = (\<lambda>r. Some
        \<lparr>proposal = RemoveProposal (unat (hd r)), proposal_reference = r, sender = Member 0, proposal_or_ref_type = ProposalByReference\<rparr>)\<rparr>"

lemma removal_queue_proposals:
  assumes "\<forall>i \<in> set leaves. i < 256"
  shows "map proposal (queued_proposals (removal_queue leaves)) = map RemoveProposal leaves"
  using assms by (induction leaves)
    (simp_all add: removal_queue_def queued_proposals_def map_filter_simps unat_of_nat take_bit_eq_mod)

lemma removals_only:
  assumes "map proposal qps = map RemoveProposal leaves"
  shows "removed_leaves qps = set leaves" "list_all (applicable d) qps \<longleftrightarrow> set leaves \<subseteq> members d"
    "updates_of i qps = []"
    "List.map_filter (\<lambda>qp. case proposal qp of AddProposal kp \<Rightarrow> Some kp | _ \<Rightarrow> None) qps = []"
proof -
  have "proposal ` set qps = RemoveProposal ` set leaves" using arg_cong [OF assms, of set] by simp
  then have f: "\<And>qp. qp \<in> set qps \<Longrightarrow> \<exists>i \<in> set leaves. proposal qp = RemoveProposal i"
    and b: "\<And>i. i \<in> set leaves \<Longrightarrow> \<exists>qp \<in> set qps. proposal qp = RemoveProposal i" by (blast, force)
  show "removed_leaves qps = set leaves" using f b by (fastforce simp: removed_leaves_def)
  show "list_all (applicable d) qps \<longleftrightarrow> set leaves \<subseteq> members d"
    using f b by (fastforce simp: list_all_iff applicable_def)
  show "updates_of i qps = []" "List.map_filter (\<lambda>qp. case proposal qp of AddProposal kp \<Rightarrow> Some kp | _ \<Rightarrow> None) qps = []"
    using f by (fastforce simp: updates_of_def List.map_filter_def filter_empty_conv)+
qed

definition sample_group :: "TreeSyncDiff \<Rightarrow> PublicGroupDiff" where
  "sample_group d =
     \<lparr>pgd_diff = d, pgd_group_context = GroupContext_new suite1 [9] 0 [] [] [],
      pgd_interim_transcript_hash = [], pgd_confirmation_tag = []\<rparr>"

lemma sample_group_diff: "pgd_diff (sample_group d) = d"
  by (simp add: sample_group_def)

theorem apply_proposals_members_witness:
  "\<exists>d g' v. ABinaryTree_empty_diff two_members = Some d \<and> AbDiff_leaf d 1 \<noteq> None \<and>
     apply_proposals (removal_queue [1]) (Some 0) (sample_group d) = (g', Ok v) \<and>
     AbDiff_leaf (pgd_diff g') 0 = Some (sample_member [1]) \<and> AbDiff_leaf (pgd_diff g') 1 = None \<and> \<not> self_removed v"
proof -
  obtain d where d: "ABinaryTree_empty_diff two_members = Some d" "TreeSync_wf 1 d" "unshrunk 1 d"
    "AbDiff_leaf d = (\<lambda>i. if i < 2 then [Some (sample_member [1]), Some (sample_member [2])] ! i else None)"
    using blank_parents_wf [of 1 "[Some (sample_member [1]), Some (sample_member [2])]" two_members]
    by (auto simp: two_members_def)
  have "\<forall>i \<in> set [1::nat]. i < 256" by simp
  note r = removals_only [OF removal_queue_proposals [OF this]]
  have m: "members d = {0, 1}" by (auto simp: members_def d(4) less_2_cases_iff split: if_splits)
  have l: "leaf_after (queued_proposals (removal_queue [1])) (AbDiff_leaf d) = (AbDiff_leaf d)(1 := None)"
    by (simp add: leaf_after_def r fun_eq_iff del: One_nat_def)
  obtain g' v where g': "apply_proposals (removal_queue [1]) (Some 0) (sample_group d) = (g', Ok v)"
    "invitation_list v = []" "AbDiff_leaf (pgd_diff g') = invited_leaf (invitation_list v) ((AbDiff_leaf d)(1 := None))"
    "\<not> self_removed v"
    using apply_proposals_members [of 1 "sample_group d" "removal_queue [1]" "Some 0"]
    by (simp add: sample_group_diff d(2,3) m r l del: One_nat_def) metis
  then have "AbDiff_leaf (pgd_diff g') = (AbDiff_leaf d)(1 := None)" by (simp add: invited_leaf_def fun_eq_iff)
  then show ?thesis using d(1,4) g'(1,4) by (intro exI [of _ d] exI [of _ g'] exI [of _ v]) simp
qed

section \<open>Members that an external commit brings back\<close>

lemma insert_leaf_leaves:
  assumes wf: "AbDiff_wf d" and n: "diff_size d = depth_size n" "n < 30" and i: "i < 2 ^ n"
  obtains d' where "insert_leaf l i d = Some d'" "AbDiff_leaf d' = (AbDiff_leaf d)(i := Some l)"
proof -
  obtain d1 where d1: "AbDiff_replace_leaf d i (Some l) = Some d1"
    using abd.replace_leaf_defined [of i d "Some l"] i n by (auto simp: AbDiff_leaf_count_def)
  have e: "AbDiff_wf d1" "AbDiff_leaf d1 = (AbDiff_leaf d)(i := Some l)" "diff_size d1 = depth_size n"
    using abd.replace_leaf_effect [OF wf d1] n(1) by (auto simp: AbDiff_frame_def)
  let ?path = "map (path_node i) [0..<n]"
  have path: "AbDiff_direct_path d1 i = Some ?path"
    using i n(2) by (simp add: AbDiff_direct_path_def e(3) direct_path_depth_size)
  have "\<forall>j \<in> set ?path. j < AbDiff_parent_count d1"
    using parent_in_tree_bound [OF in_tree_div [OF i]] by (auto simp: AbDiff_parent_count_def e(3) simp del: power_Suc)
  from for_each_parent_mut_all [OF e(1) this distinct_path, where f = "map_option (add_unmerged_leaf i)"]
  show thesis using that d1 path e(2) by (auto simp: insert_leaf_def)
qed

lemma add_leaf_regrows:
  assumes wf: "TreeSync_wf n d" and full: "\<forall>i < 2 ^ n. AbDiff_leaf d i \<noteq> None" and n: "n < 29"
  obtains d' where "add_leaf l d = (d', Ok (2 ^ n))"
    "\<forall>i. 2 ^ n < i \<longrightarrow> i < 2 ^ Suc n \<longrightarrow> AbDiff_leaf d' i = ABinaryTree_leaf_by_index (original_tree d) i"
proof -
  note w = TreeSync_wfD [OF wf] and f = free_leaf_index_spec [OF wf]
  have i: "free_leaf_index d = 2 ^ n" using f(1,2) full le_neq_implies_less by blast
  let ?d = "d\<lparr>diff_size := depth_size (Suc n)\<rparr>"
  have g: "grow_to (2 ^ n) d = (?d, Ok ())" using grow_to_eq [OF wf, of "2 ^ n"] n by simp
  have wf': "AbDiff_wf ?d" using AbDiff_grow_tree_wf [OF w(1)] AbDiff_grow_tree_eq [OF w(3,2)] n by simp
  obtain d' where d': "insert_leaf l (2 ^ n) ?d = Some d'" "AbDiff_leaf d' = (AbDiff_leaf ?d)(2 ^ n := Some l)"
    by (rule insert_leaf_leaves [OF wf', of "Suc n" "2 ^ n" l]) (use n in auto)
  have "AbDiff_leaf ?d i = ABinaryTree_leaf_by_index (original_tree d) i" if "2 ^ n < i" "i < 2 ^ Suc n" for i
  proof -
    have "i \<notin> fst ` set (leaf_diff d)" using AbDiff_wfD(5) [OF w(1), of i] that(1) w(3) by (auto simp: AbDiff_leaf_count_def)
    then have "btm_get (leaf_diff d) i = None" by (auto simp: btm_get_def map_of_eq_None_iff)
    then show ?thesis using that(2) by (simp add: AbDiff_leaf_def AbDiff_leaf_count_def del: power_Suc)
  qed
  then show thesis using that [of d'] d' g by (simp add: add_leaf_unfold i del: power_Suc)
qed

lemma trim_to_left_half:
  assumes wf: "TreeSync_wf m d" and full: "\<forall>i. AbDiff_leaf d i \<noteq> None \<longleftrightarrow> i < 2 ^ n"
  obtains d' where "trim_tree d = Some d'" "TreeSync_wf n d'" "AbDiff_leaf d' = AbDiff_leaf d" "original_tree d' = original_tree d"
proof -
  obtain k d' where d': "trim_tree d = Some d'" "TreeSync_wf k d'" "AbDiff_leaf d' = AbDiff_leaf d" "original_tree d' = original_tree d"
    "k = 0 \<or> (\<exists>x \<ge> 2 ^ (k - 1). AbDiff_leaf d x \<noteq> None)" by (rule trim_tree_wf [OF wf])
  have "2 ^ n - 1 < (2::nat) ^ k" using full_leaf_bound [OF d'(2), of "2 ^ n - 1"] full [rule_format, of "2 ^ n - 1"] d'(3) by simp
  then have "(2::nat) ^ n \<le> 2 ^ k" by linarith
  then have "n \<le> k" by simp
  moreover have "k \<le> n"
  proof (cases "k = 0")
    case False
    then obtain x :: nat where "2 ^ (k - 1) \<le> x" "x < 2 ^ n" using d'(5) full by auto
    then have "(2::nat) ^ (k - 1) < 2 ^ n" by linarith
    then show ?thesis using False by simp
  qed simp
  ultimately show thesis using that d' by simp
qed

text \<open>
  (C23) Suppose the left half of a tree is full, and the proposals of an external commit remove every
  member of the right half. The proposals blank these leaves and trim the tree to its left half. The
  leaf of the joiner then makes the tree grow again, and this brings back the leaf that every removed
  member but the first had before the commit.
\<close>

theorem removed_member_returns:
  assumes wf: "TreeSync_wf (Suc n) (pgd_diff g)" and fresh: "leaf_diff (pgd_diff g) = []"
    and app: "list_all (applicable (pgd_diff g)) (queued_proposals q)" and adds: "added_packages q = []"
    and left: "\<forall>i < 2 ^ n. i \<in> members (pgd_diff g)"
    and gone: "removed_leaves (queued_proposals q) = {i \<in> members (pgd_diff g). 2 ^ n \<le> i}"
  shows "\<exists>g' v d'. apply_proposals q own g = (g', Ok v) \<and>
    (\<forall>i \<in> removed_leaves (queued_proposals q). AbDiff_leaf (pgd_diff g') i = None) \<and>
    add_leaf joiner (pgd_diff g') = (d', Ok (2 ^ n)) \<and>
    (\<forall>i \<in> removed_leaves (queued_proposals q). i \<noteq> 2 ^ n \<longrightarrow>
      AbDiff_leaf d' i = AbDiff_leaf (pgd_diff g) i \<and> AbDiff_leaf d' i \<noteq> None)"
proof -
  let ?d = "pgd_diff g" and ?qps = "queued_proposals q"
  obtain d1 d2 d3 where c: "for_each_try apply_update (filter (is_proposal PUpdate) ?qps) ?d = (d1, Ok ())"
    "for_each_try apply_remove (filter (is_proposal PRemove) ?qps) d1 = (d2, Ok ())"
    "for_each_try apply_self_remove (filter (is_proposal PSelfRemove) ?qps) d2 = (d3, Ok ())"
    "TreeSync_wf (Suc n) d3" "original_tree d3 = original_tree ?d" "AbDiff_leaf d3 = leaf_after ?qps (AbDiff_leaf ?d)"
    by (rule apply_changes_wf [OF wf app])
  have "AbDiff_leaf d3 i \<noteq> None \<longleftrightarrow> i < 2 ^ n" for i
  proof (cases "i < 2 ^ n")
    case True
    then have "AbDiff_leaf ?d i \<noteq> None" "i \<notin> removed_leaves ?qps" using left gone by (auto simp: members_def)
    then show ?thesis using True by (simp add: c(6) leaf_after_def)
  next
    case False
    then show ?thesis using members_leaf_after [OF app c(6)] gone by (auto simp: members_def c(6) leaf_after_def)
  qed
  then have full: "\<forall>i. AbDiff_leaf d3 i \<noteq> None \<longleftrightarrow> i < 2 ^ n" by blast
  obtain d4 where d4: "trim_tree d3 = Some d4" "TreeSync_wf n d4" "AbDiff_leaf d4 = AbDiff_leaf d3" "original_tree d4 = original_tree ?d"
    by (rule trim_to_left_half [OF c(4) full]) (simp add: c(5))
  have n: "n < 29" using TreeSync_wfD(2) [OF wf] by simp
  obtain d5 where d5: "add_leaf joiner d4 = (d5, Ok (2 ^ n))"
    "\<forall>i. 2 ^ n < i \<longrightarrow> i < 2 ^ Suc n \<longrightarrow> AbDiff_leaf d5 i = ABinaryTree_leaf_by_index (original_tree d4) i"
    by (rule add_leaf_regrows [OF d4(2) _ n, of joiner]) (use full d4(3) in simp_all)
  have returned: "AbDiff_leaf d5 i = AbDiff_leaf ?d i \<and> AbDiff_leaf d5 i \<noteq> None" if "i \<in> removed_leaves ?qps" "i \<noteq> 2 ^ n" for i
  proof -
    have i: "i \<in> members ?d" "2 ^ n < i" "i < 2 ^ Suc n" using that gone members_bound [OF wf] by auto
    then have "AbDiff_leaf ?d i = ABinaryTree_leaf_by_index (original_tree ?d) i"
      using TreeSync_wfD(3) [OF wf] by (simp add: AbDiff_leaf_def fresh btm_get_def AbDiff_leaf_count_def del: power_Suc)
    then show ?thesis using d5(2) [rule_format, OF i(2,3)] d4(4) i(1) by (simp add: members_def)
  qed
  have t: "apply_to_tree q ?d = (d4, Ok [])"
    using adds by (simp add: apply_to_tree_def filtered_by_type_eq c(1-3) added_packages_eq d4(1))
  have "AbDiff_leaf d4 i = None" if "i \<in> removed_leaves ?qps" for i using that by (simp add: d4(3) c(6) leaf_after_def)
  then show ?thesis using t returned d5(1) by (simp add: apply_proposals_def) metis
qed

definition four_members :: "(LeafNode option, ParentNode option) ABinaryTree" where
  "four_members =
     \<lparr>leaf_nodes = map (\<lambda>k. Some (sample_member [k])) [1, 2, 3, 4], parent_nodes = [None, None, None],
      default_leaf = None, default_parent = None\<rparr>"

theorem removed_member_returns_witness:
  "\<exists>d g' v d'. ABinaryTree_empty_diff four_members = Some d \<and>
     apply_proposals (removal_queue [2, 3]) (Some 0) (sample_group d) = (g', Ok v) \<and>
     AbDiff_leaf (pgd_diff g') 3 = None \<and>
     add_leaf new_placeholder (pgd_diff g') = (d', Ok 2) \<and> AbDiff_leaf d' 3 = Some (sample_member [4])"
proof -
  obtain d where d: "ABinaryTree_empty_diff four_members = Some d" "TreeSync_wf 2 d"
    "AbDiff_leaf d = (\<lambda>i. if i < 4 then map (\<lambda>k. Some (sample_member [k])) [1, 2, 3, 4] ! i else None)"
    using blank_parents_wf [of 2 "map (\<lambda>k. Some (sample_member [k])) [1, 2, 3, 4]" four_members]
    by (auto simp: four_members_def numeral_3_eq_3)
  have f: "leaf_diff d = []" using d(1) by (auto simp: ABinaryTree_empty_diff_def split: bind_splits)
  have "\<forall>i \<in> set [2::nat, 3]. i < 256" by simp
  note r = removals_only [OF removal_queue_proposals [OF this]]
  have i: "i < 4 \<longleftrightarrow> i = 0 \<or> i = 1 \<or> i = 2 \<or> i = 3" for i :: nat by auto
  have m: "members d = {0, 1, 2, 3}" by (auto simp: members_def d(3) i split: if_splits)
  have "{i \<in> members d. 2 ^ 1 \<le> i} = {2, 3}" "\<forall>i < 2 ^ 1. i \<in> members d" by (auto simp: m less_2_cases_iff)
  then have "\<exists>g' v d'. apply_proposals (removal_queue [2, 3]) (Some 0) (sample_group d) = (g', Ok v) \<and>
      (\<forall>i \<in> {2, 3}. AbDiff_leaf (pgd_diff g') i = None) \<and> add_leaf new_placeholder (pgd_diff g') = (d', Ok 2) \<and>
      (\<forall>i \<in> {2, 3}. i \<noteq> 2 \<longrightarrow> AbDiff_leaf d' i = AbDiff_leaf d i \<and> AbDiff_leaf d' i \<noteq> None)"
    using removed_member_returns [of 1 "sample_group d" "removal_queue [2, 3]" "Some 0" new_placeholder] d(2)
    by (simp add: sample_group_diff f m r numeral_2_eq_2 [symmetric])
  then show ?thesis using d(1,3) by (elim exE conjE) (intro exI conjI, assumption+, auto)
qed

end
