(* ===== verification/Validation.thy ===== *)
theory Validation
  imports ApplyProposals
begin

text \<open>
  Validation of the proposals of a commit by a group
  (\<open>group/public_group/validation.rs\<close>, \<open>group/public_group/staged_commit.rs\<close>).

  The sets of keys and leaves that the code collects are sets. The time against which lifetimes are
  checked is an argument. The switch that turns off the check of lifetimes can be set in tests only
  and is left out. Of the authenticated content of a commit the model has the epoch, the body and
  the sender.
\<close>

section \<open>Groups and errors\<close>

record PublicGroup =
  pg_treesync :: TreeSync
  pg_proposal_store :: ProposalStore
  pg_group_context :: GroupContext
  pg_interim_transcript_hash :: bytes
  pg_confirmation_tag :: bytes

definition PublicGroup_empty_diff :: "PublicGroup \<Rightarrow> PublicGroupDiff option" where
  "PublicGroup_empty_diff g = do {
     d \<leftarrow> TreeSync_empty_diff (pg_treesync g);
     Some \<lparr>pgd_diff = d, pgd_group_context = pg_group_context g,
       pgd_interim_transcript_hash = pg_interim_transcript_hash g, pgd_confirmation_tag = pg_confirmation_tag g\<rparr> }"

definition full_leaves :: "TreeSync \<Rightarrow> (LeafNodeIndex \<times> LeafNode) list" where
  "full_leaves t = List.map_filter (\<lambda>(i, l). map_option (Pair i) l) (ABinaryTree_leaves (ts_tree t))"

definition is_leaf_in_tree :: "LeafNodeIndex \<Rightarrow> TreeSync \<Rightarrow> bool option" where
  "is_leaf_in_tree leaf_index t = do {
     sz \<leftarrow> ABinaryTree_tree_size (ts_tree t);
     is_node_in_tree (Leaf leaf_index) sz }"

record Commit =
  commit_proposals :: "ProposalOrRef list"
  commit_path :: "UpdatePath option"

datatype ProposalValidationError =
    PveLibraryError LibraryError | UnknownMember | DuplicateSignatureKey | DuplicateEncryptionKey | DuplicateInitKey
  | InitEncryptionKeyCollision | DuplicateMemberRemoval | UnknownMemberRemoval | UpdateFromNonMember
  | CommitterIncludedOwnUpdate | InsufficientCapabilities | InvalidAddProposalCiphersuiteOrVersion | PvePsk PskError
  | UnsupportedProposalType | PveLeafNodeValidation LeafNodeValidationError | ExternalInitProposalInRegularCommit

datatype ExternalCommitValidationError =
    EcvLibraryError LibraryError | NoExternalInitProposals | MultipleExternalInitProposals | InvalidInlineProposals
  | MultipleRemoveProposals | InvalidRemoveProposal | NoPath | ReferencedProposal | UnsupportedGroupContextExtensions

datatype AppDataUpdateValidationError =
    IncorrectOrder | CannotUpdateDictionaryDirectly | MoreThanOneRemovePerComponentId
  | CombinedRemoveAndUpdateOperations | CannotRemoveNonexistentComponent

datatype GroupContextExtensionsProposalValidationError =
    TooManyGCEProposals | GceLibraryError LibraryError | ExtensionNotSupportedByAllMembers | ChangedImmutableMetadata
  | RequiredExtensionNotSupportedByAllMembers | ExtensionNotInRequiredCapabilities | GceInvalidExtensionType ExtensionType

text \<open>A loop of checks that stops at the first error.\<close>

fun try_for_each :: "('a \<Rightarrow> (unit, 'e) outcome) \<Rightarrow> 'a list \<Rightarrow> (unit, 'e) outcome" where
  "try_for_each f [] = Ok ()"
| "try_for_each f (x # xs) = outcome_bind (f x) (\<lambda>_. try_for_each f xs)"

text \<open>The iterators of a queue over the removals, the updates with their senders, and the keys.\<close>

abbreviation removed_of :: "ProposalQueue \<Rightarrow> LeafNodeIndex list" where
  "removed_of q \<equiv> List.map_filter (\<lambda>qp. case proposal qp of RemoveProposal i \<Rightarrow> Some i | _ \<Rightarrow> None) (queued_proposals q)"

abbreviation updated_of :: "ProposalQueue \<Rightarrow> (LeafNode \<times> Sender) list" where
  "updated_of q \<equiv> List.map_filter (\<lambda>qp. case proposal qp of UpdateProposal l \<Rightarrow> Some (l, sender qp) | _ \<Rightarrow> None) (queued_proposals q)"

abbreviation psks_of :: "ProposalQueue \<Rightarrow> PreSharedKeyId list" where
  "psks_of q \<equiv> List.map_filter (\<lambda>qp. case proposal qp of PreSharedKeyProposal i \<Rightarrow> Some i | _ \<Rightarrow> None) (queued_proposals q)"

section \<open>Leaf nodes\<close>

definition group_check_extension_support ::
    "ExtensionType list \<Rightarrow> PublicGroup \<Rightarrow> (unit, LeafNodeValidationError) outcome" where
  "group_check_extension_support extensions g =
     try_for_each (\<lambda>(_, leaf). check_extension_support leaf extensions) (full_leaves (pg_treesync g))"

definition validate_leaf_node_capabilities :: "LeafNode \<Rightarrow> PublicGroup \<Rightarrow> (unit, LeafNodeValidationError) outcome" where
  "validate_leaf_node_capabilities leaf_node g =
     (let capabilities = pl_capabilities (payload leaf_node); context = pg_group_context g in
      outcome_bind (validate_locally leaf_node) (\<lambda>_.
      if VerifiableCiphersuite_from (gc_ciphersuite context) \<notin> set (cap_ciphersuites capabilities) \<or>
         gc_protocol_version context \<notin> set (cap_versions capabilities)
      then Err CiphersuiteNotInCapabilities
      else outcome_bind
        (case Extensions_required_capabilities (gc_extensions context) of
           Some required \<Rightarrow> supports_required_capabilities capabilities required
         | None \<Rightarrow> Ok ()) (\<lambda>_.
      if \<not> list_all (\<lambda>(_, node).
           contains_credential (pl_capabilities (payload node)) (credential_type (pl_credential (payload leaf_node))))
           (full_leaves (pg_treesync g))
      then Err UnsupportedCredentials
      else if \<not> list_all (\<lambda>(_, node). contains_credential capabilities (credential_type (pl_credential (payload node))))
           (full_leaves (pg_treesync g))
      then Err UnsupportedCredentials
      else Ok ())))"

definition validate_leaf_node :: "SystemTime \<Rightarrow> LeafNode \<Rightarrow> PublicGroup \<Rightarrow> (unit, LeafNodeValidationError) outcome" where
  "validate_leaf_node now leaf_node g =
     outcome_bind (validate_leaf_node_capabilities leaf_node g) (\<lambda>_.
       case life_time leaf_node of
         Some lifetime \<Rightarrow> map_err LifetimeInvalid (validate_with_time lifetime now)
       | None \<Rightarrow> Ok ())"

section \<open>Proposals\<close>

definition validate_proposal_type_support :: "ProposalQueue \<Rightarrow> PublicGroup \<Rightarrow> (unit, ProposalValidationError) outcome" where
  "validate_proposal_type_support q g =
     (let signature_keys = set (List.map_filter
            (\<lambda>i. map_option (\<lambda>l. pl_signature_key (payload l)) (ABinaryTree_leaf (ts_tree (pg_treesync g)) i)) (removed_of q));
          leaves = filter (\<lambda>(_, l). pl_signature_key (payload l) \<notin> signature_keys) (full_leaves (pg_treesync g)) in
      case leaves of
        [] \<Rightarrow> Ok ()
      | (_, first_leaf) # rest \<Rightarrow>
          (let capabilities_intersection =
             foldl (\<lambda>s (_, l). s \<inter> set (cap_proposals (pl_capabilities (payload l))))
               (set (cap_proposals (pl_capabilities (payload first_leaf)))) rest in
           try_for_each (\<lambda>qp.
               if \<not> ProposalType_is_default (proposal_type (proposal qp)) \<and> proposal_type (proposal qp) \<notin> capabilities_intersection
               then Err UnsupportedProposalType else Ok ())
             (queued_proposals q)))"

text \<open>
  The loops that insert keys one by one. An error is given for a key of another set, or for one that
  was inserted before.
\<close>

fun insert_keys :: "'e \<Rightarrow> bytes set \<Rightarrow> 'e \<Rightarrow> bytes list \<Rightarrow> bytes set \<Rightarrow> (bytes set, 'e) outcome" where
  "insert_keys collision others duplicate [] keys = Ok keys"
| "insert_keys collision others duplicate (k # ks) keys =
     (if k \<in> others then Err collision
      else if k \<in> keys then Err duplicate
      else insert_keys collision others duplicate ks (insert k keys))"

definition validate_key_uniqueness ::
    "ProposalQueue \<Rightarrow> Commit option \<Rightarrow> PublicGroup \<Rightarrow> (unit, ProposalValidationError) outcome" where
  "validate_key_uniqueness q commit g =
     (let remaining = filter (\<lambda>(i, _). i \<notin> set (removed_of q)) (full_leaves (pg_treesync g));
          adds = added_packages q;
          signature_keys = map (\<lambda>kp. pl_signature_key (payload (kp_leaf_node (kp_payload kp)))) adds;
          encryption_keys =
            map (\<lambda>kp. pl_encryption_key (payload (kp_leaf_node (kp_payload kp)))) adds @
            map (\<lambda>(l, _). pl_encryption_key (payload l)) (updated_of q) @
            (case Option.bind commit commit_path of Some path \<Rightarrow> [pl_encryption_key (payload (up_leaf_node path))] | None \<Rightarrow> []) @
            (case Option.bind commit commit_path of Some path \<Rightarrow> map upn_public_key (up_nodes path) | None \<Rightarrow> []);
          init_keys = map (\<lambda>kp. kp_init_key (kp_payload kp)) adds in
      outcome_bind (insert_keys DuplicateSignatureKey {} DuplicateSignatureKey signature_keys
        (set (map (\<lambda>(_, l). pl_signature_key (payload l)) remaining))) (\<lambda>_.
      outcome_bind (insert_keys InitEncryptionKeyCollision {} DuplicateEncryptionKey encryption_keys
        (set (map (\<lambda>(_, l). pl_encryption_key (payload l)) remaining))) (\<lambda>encryption_key_set.
      outcome_bind (insert_keys InitEncryptionKeyCollision encryption_key_set DuplicateInitKey init_keys {}) (\<lambda>_.
      Ok ()))))"

definition validate_capabilities :: "ProposalQueue \<Rightarrow> PublicGroup \<Rightarrow> (unit, ProposalValidationError) outcome" where
  "validate_capabilities q g =
     try_for_each (\<lambda>l. map_err (\<lambda>_. InsufficientCapabilities) (validate_leaf_node_capabilities l g))
       (List.map_filter (\<lambda>qp. case proposal qp of
            AddProposal kp \<Rightarrow> Some (kp_leaf_node (kp_payload kp))
          | UpdateProposal l \<Rightarrow> Some l
          | _ \<Rightarrow> None) (queued_proposals q))"

definition validate_add_proposals ::
    "SystemTime \<Rightarrow> ProposalQueue \<Rightarrow> PublicGroup \<Rightarrow> (unit, ProposalValidationError) outcome" where
  "validate_add_proposals now q g =
     try_for_each (\<lambda>kp.
         if kp_ciphersuite (kp_payload kp) \<noteq> gc_ciphersuite (pg_group_context g) \<or>
            kp_protocol_version (kp_payload kp) \<noteq> gc_protocol_version (pg_group_context g)
         then Err InvalidAddProposalCiphersuiteOrVersion
         else if \<not> list_all (\<lambda>e. supports_extension (kp_leaf_node (kp_payload kp)) (extension_type e)) (gc_extensions (pg_group_context g))
         then Err InsufficientCapabilities
         else map_err PveLeafNodeValidation (validate_leaf_node now (kp_leaf_node (kp_payload kp)) g))
       (added_packages q)"

fun remove_loop ::
    "TreeSync \<Rightarrow> LeafNodeIndex set \<Rightarrow> LeafNodeIndex set \<Rightarrow> LeafNodeIndex list \<Rightarrow> (unit, ProposalValidationError) outcome" where
  "remove_loop t updates_set removes_set [] = Ok ()"
| "remove_loop t updates_set removes_set (removed # rs) =
     outcome_bind (or_panic (is_leaf_in_tree removed t)) (\<lambda>in_tree.
       if \<not> in_tree then Err UnknownMemberRemoval
       else if removed \<in> removes_set then Err DuplicateMemberRemoval
       else if removed \<in> updates_set then Err DuplicateMemberRemoval
       else if ABinaryTree_leaf (ts_tree t) removed = None then Err UnknownMemberRemoval
       else remove_loop t updates_set (insert removed removes_set) rs)"

definition validate_remove_proposals :: "ProposalQueue \<Rightarrow> PublicGroup \<Rightarrow> (unit, ProposalValidationError) outcome" where
  "validate_remove_proposals q g =
     outcome_bind (outcome_map (\<lambda>(_, s). ok_or (Sender_as_member s) UpdateFromNonMember) (updated_of q)) (\<lambda>updates.
       remove_loop (pg_treesync g) (set updates) {} (removed_of q))"

definition validate_update_proposals ::
    "SystemTime \<Rightarrow> ProposalQueue \<Rightarrow> LeafNodeIndex \<Rightarrow> PublicGroup \<Rightarrow> (unit, ProposalValidationError) outcome" where
  "validate_update_proposals now q committer g =
     try_for_each (\<lambda>(leaf_node, s).
         case s of
           Member sender_index \<Rightarrow>
             if committer = sender_index then Err CommitterIncludedOwnUpdate
             else outcome_bind (map_err PveLeafNodeValidation (validate_leaf_node now leaf_node g)) (\<lambda>_.
               if \<not> list_all (\<lambda>e. supports_extension leaf_node (extension_type e)) (gc_extensions (pg_group_context g))
               then Err (PveLeafNodeValidation UnsupportedExtensions) else Ok ())
         | _ \<Rightarrow> Err UpdateFromNonMember)
       (updated_of q)"

definition validate_pre_shared_key_proposals :: "ProposalQueue \<Rightarrow> PublicGroup \<Rightarrow> (unit, ProposalValidationError) outcome" where
  "validate_pre_shared_key_proposals q g =
     try_for_each (\<lambda>i. map_err PvePsk (validate_in_proposal (gc_ciphersuite (pg_group_context g)) i)) (psks_of q)"

definition validate_external_commit :: "ProposalQueue \<Rightarrow> (unit, ExternalCommitValidationError) outcome" where
  "validate_external_commit q =
     (let count_external_init_proposals = length (filtered_by_type PExternalInit q) in
      if count_external_init_proposals = 0 then Err NoExternalInitProposals
      else if count_external_init_proposals > 1 then Err MultipleExternalInitProposals
      else if list_ex (\<lambda>qp. proposal_or_ref_type qp = ProposalByValue \<and>
          \<not> (case proposal qp of
               ExternalInitProposal _ \<Rightarrow> True | RemoveProposal _ \<Rightarrow> True | PreSharedKeyProposal _ \<Rightarrow> True
             | CustomProposal _ _ \<Rightarrow> True | AppDataUpdateProposal _ _ \<Rightarrow> True | _ \<Rightarrow> False)) (queued_proposals q)
      then Err InvalidInlineProposals
      else Ok ())"

definition validate_group_context_extensions_proposal ::
    "ProposalQueue \<Rightarrow> PublicGroup \<Rightarrow> (unit, GroupContextExtensionsProposalValidationError) outcome" where
  "validate_group_context_extensions_proposal q g =
     (case filtered_by_type PGroupContextExtensions q of
        [] \<Rightarrow> Ok ()
      | qp # rest \<Rightarrow>
          outcome_bind
            (case proposal qp of
               GroupContextExtensionProposal es \<Rightarrow>
                 outcome_bind
                   (case Extensions_required_capabilities es of
                      Some required \<Rightarrow>
                        outcome_bind (map_err (\<lambda>_. RequiredExtensionNotSupportedByAllMembers)
                          (group_check_extension_support (extension_types required) g)) (\<lambda>_. Ok (extension_types required))
                    | None \<Rightarrow> Ok []) (\<lambda>required.
                 if \<not> list_all (\<lambda>t. ExtensionType_is_default t \<or> t \<in> set required) (map extension_type es)
                 then Err ExtensionNotInRequiredCapabilities else Ok ())
             | _ \<Rightarrow> Err (GceLibraryError (LibraryCustom ''found non-gce proposal when filtered for gce proposals'')))
            (\<lambda>_. if rest \<noteq> [] then Err TooManyGCEProposals else Ok ()))"

text \<open>The last loop of the check of changes of application data, with the component it remembers.\<close>

fun app_data_update_loop ::
    "Extensions option \<Rightarrow> ComponentId option \<Rightarrow> (ComponentId \<times> AppDataUpdateOperation) list \<Rightarrow> (unit, AppDataUpdateValidationError) outcome" where
  "app_data_update_loop gce latest [] = Ok ()"
| "app_data_update_loop gce latest ((component, operation) # ps) =
     (if latest = Some component then Err CombinedRemoveAndUpdateOperations
      else case operation of
        UpdateData _ \<Rightarrow> app_data_update_loop gce latest ps
      | RemoveData \<Rightarrow>
          (case gce of
             None \<Rightarrow> Ok ()
           | Some es \<Rightarrow>
               (case Extensions_app_data_dictionary es of
                  None \<Rightarrow> Ok ()
                | Some dictionary \<Rightarrow>
                    if AppDataDictionary_get dictionary component = None then Err CannotRemoveNonexistentComponent
                    else app_data_update_loop gce (Some component) ps)))"

definition validate_app_data_update_proposals_and_group_context ::
    "ProposalQueue \<Rightarrow> PublicGroup \<Rightarrow> (unit, AppDataUpdateValidationError) outcome" where
  "validate_app_data_update_proposals_and_group_context q g =
     (if app_data_update_proposals q = [] then Ok ()
      else
        let gce = (case List.map_filter (\<lambda>qp. case proposal qp of GroupContextExtensionProposal es \<Rightarrow> Some es | _ \<Rightarrow> None)
              (filtered_by_type PGroupContextExtensions q) of es # _ \<Rightarrow> Some es | [] \<Rightarrow> None) in
        if PGroupContextExtensions \<in> set (dropWhile (\<lambda>t. t \<noteq> PAppDataUpdate)
             (map (\<lambda>qp. proposal_type (proposal qp)) (queued_proposals q)))
        then Err IncorrectOrder
        else if (case gce of
             Some es \<Rightarrow>
               (case Extensions_required_capabilities es of Some required \<Rightarrow> PAppDataUpdate \<in> set (proposal_types required) | None \<Rightarrow> False) \<and>
               Extensions_app_data_dictionary es \<noteq> Extensions_app_data_dictionary (gc_extensions (pg_group_context g))
           | None \<Rightarrow> False)
        then Err CannotUpdateDictionaryDirectly
        else app_data_update_loop gce None
          (List.map_filter (\<lambda>qp. case proposal qp of AppDataUpdateProposal i operation \<Rightarrow> Some (i, operation) | _ \<Rightarrow> None)
            (app_data_update_proposals q)))"

section \<open>Commits\<close>

datatype FramedContentBody = ApplicationBody bytes | ProposalBody Proposal | CommitBody Commit

datatype StageCommitError =
    ScLibraryError LibraryError | EpochMismatch | OwnCommitMismatch | WrongPlaintextContentType
  | PathLeafNodeVerificationFailure | RequiredPathNotFound | ConfirmationTagMissing | ConfirmationTagMismatch
  | AttemptedSelfRemoval | MissingProposal | OwnKeyNotFound | ScInconsistentSenderIndex | SenderTypeExternal
  | SenderTypeNewMemberProposal | TooManyNewMembers | ScProposalValidation ProposalValidationError | ScPskError PskError
  | ExternalCommitValidation ExternalCommitValidationError | ScUpdatePathError ApplyUpdatePathError | MissingDecryptionKey
  | VerifiedUpdatePathError UpdatePathError | ScGroupContextExtensions GroupContextExtensionsProposalValidationError
  | ScAppDataUpdateValidation AppDataUpdateValidationError | ScLeafNodeValidation LeafNodeValidationError
  | ScApplyAppDataUpdate ApplyAppDataUpdateError | ScDuplicatePskId PreSharedKeyId

definition leftmost_free_index :: "QueuedProposal list \<Rightarrow> PublicGroup \<Rightarrow> (LeafNodeIndex, LibraryError) outcome" where
  "leftmost_free_index qps g =
     outcome_bind (or_panic (TreeSync_free_leaf_index (pg_treesync g))) (\<lambda>free_leaf_index.
       Ok (foldl min free_leaf_index (List.map_filter (\<lambda>qp. case (proposal qp, sender qp) of
           (RemoveProposal removed, _) \<Rightarrow> Some removed
         | (SelfRemoveProposal, Member s) \<Rightarrow> Some s
         | _ \<Rightarrow> None) qps)))"

definition validate_no_external_init_proposals :: "ProposalQueue \<Rightarrow> (unit, ProposalValidationError) outcome" where
  "validate_no_external_init_proposals q =
     try_for_each (\<lambda>qp. if proposal_type (proposal qp) = PExternalInit then Err ExternalInitProposalInRegularCommit else Ok ())
       (queued_proposals q)"

text \<open>The checks of an external commit before its queue is built.\<close>

definition external_commit_checks :: "Commit \<Rightarrow> PublicGroup \<Rightarrow> (unit, ExternalCommitValidationError) outcome" where
  "external_commit_checks commit g =
     (case commit_path commit of
        None \<Rightarrow> Err NoPath
      | Some path \<Rightarrow>
          if \<not> contains_extensions (pl_capabilities (payload (up_leaf_node path))) (gc_extensions (pg_group_context g))
          then Err UnsupportedGroupContextExtensions
          else if list_ex (\<lambda>por. case por of
              PorReference r \<Rightarrow> \<not> list_ex (\<lambda>qp. proposal_reference qp = r \<and> proposal_type (proposal qp) = PSelfRemove) (pg_proposal_store g)
            | PorProposal _ \<Rightarrow> False) (commit_proposals commit)
          then Err ReferencedProposal
          else if length (filter (\<lambda>por. case por of PorProposal (RemoveProposal _) \<Rightarrow> True | _ \<Rightarrow> False) (commit_proposals commit)) > 1
          then Err MultipleExternalInitProposals
          else Ok ())"

definition validate_commit ::
    "proposal_codec \<Rightarrow> 'a provider_scheme \<Rightarrow> SystemTime \<Rightarrow> GroupEpoch \<Rightarrow> FramedContentBody \<Rightarrow> Sender \<Rightarrow> PublicGroup \<Rightarrow>
     (Commit \<times> ProposalQueue \<times> LeafNodeIndex, StageCommitError) outcome" where
  "validate_commit tls p now epoch body s g =
     (if epoch \<noteq> gc_epoch (pg_group_context g) then Err EpochMismatch
      else case body of
        CommitBody commit \<Rightarrow>
          outcome_bind (if s = NewMemberCommit then map_err ExternalCommitValidation (external_commit_checks commit g) else Ok ()) (\<lambda>_.
          outcome_bind
            (map_err (\<lambda>e. case e of
                 FcpLibraryError e \<Rightarrow> ScLibraryError e
               | FcpProposalNotFound \<Rightarrow> MissingProposal
               | SelfRemoval \<Rightarrow> AttemptedSelfRemoval
               | DuplicatePskId i \<Rightarrow> ScDuplicatePskId i)
              (from_committed_proposals tls (gc_ciphersuite (pg_group_context g)) p (commit_proposals commit) (pg_proposal_store g) s)) (\<lambda>q.
          outcome_bind
            (case commit_path commit of
               Some path \<Rightarrow>
                 outcome_bind (map_err ScLeafNodeValidation (validate_leaf_node now (up_leaf_node path) g)) (\<lambda>_.
                 if \<not> contains_extensions (pl_capabilities (payload (up_leaf_node path))) (gc_extensions (pg_group_context g))
                 then Err (ScLeafNodeValidation UnsupportedExtensions) else Ok ())
             | None \<Rightarrow> Ok ()) (\<lambda>_.
          outcome_bind (map_err ScProposalValidation (validate_key_uniqueness q (Some commit) g)) (\<lambda>_.
          outcome_bind (map_err ScProposalValidation (validate_add_proposals now q g)) (\<lambda>_.
          outcome_bind (map_err ScProposalValidation (validate_capabilities q g)) (\<lambda>_.
          outcome_bind (map_err ScProposalValidation (validate_remove_proposals q g)) (\<lambda>_.
          outcome_bind (map_err ScProposalValidation (validate_proposal_type_support q g)) (\<lambda>_.
          outcome_bind (map_err ScGroupContextExtensions (validate_group_context_extensions_proposal q g)) (\<lambda>_.
          outcome_bind (map_err ScAppDataUpdateValidation (validate_app_data_update_proposals_and_group_context q g)) (\<lambda>_.
          outcome_bind (map_err ScProposalValidation (validate_pre_shared_key_proposals q g)) (\<lambda>_.
          outcome_bind
            (case s of
               Member committer_leaf_index \<Rightarrow>
                 outcome_bind (map_err ScProposalValidation (validate_update_proposals now q committer_leaf_index g)) (\<lambda>_.
                 outcome_bind (map_err ScProposalValidation (validate_no_external_init_proposals q)) (\<lambda>_.
                 Ok committer_leaf_index))
             | ExternalSenderIndex _ \<Rightarrow> Err SenderTypeExternal
             | NewMemberProposal \<Rightarrow> Err SenderTypeNewMemberProposal
             | NewMemberCommit \<Rightarrow>
                 outcome_bind (map_err ExternalCommitValidation (validate_external_commit q)) (\<lambda>_.
                 map_err ScLibraryError (leftmost_free_index (queued_proposals q) g))) (\<lambda>sender_index.
          Ok (commit, q, sender_index)))))))))))))
      | _ \<Rightarrow> Err WrongPlaintextContentType)"

section \<open>What the loops accept\<close>

lemma try_for_each_Ok_iff: "try_for_each f xs = Ok () \<longleftrightarrow> (\<forall>x \<in> set xs. f x = Ok ())"
  by (induction xs) (auto simp: outcome_bind_Ok_iff)

lemma insert_keys_Ok_iff:
  "insert_keys collision others duplicate ks keys = Ok keys' \<longleftrightarrow>
     distinct ks \<and> set ks \<inter> (others \<union> keys) = {} \<and> keys' = keys \<union> set ks"
  by (induction ks arbitrary: keys) auto

lemma proposal_case_Some:
  "(case pr of AddProposal x \<Rightarrow> add x | _ \<Rightarrow> None) = Some y \<longleftrightarrow> (\<exists>x. pr = AddProposal x \<and> add x = Some y)"
  "(case pr of UpdateProposal l \<Rightarrow> update l | _ \<Rightarrow> None) = Some z \<longleftrightarrow> (\<exists>l. pr = UpdateProposal l \<and> update l = Some z)"
  "(case pr of RemoveProposal i \<Rightarrow> remove i | _ \<Rightarrow> None) = Some w \<longleftrightarrow> (\<exists>i. pr = RemoveProposal i \<and> remove i = Some w)"
  by (cases pr; simp)+

lemma in_iterators:
  "kp \<in> set (added_packages q) \<longleftrightarrow> (\<exists>qp \<in> set (queued_proposals q). proposal qp = AddProposal kp)"
  "(l, s) \<in> set (updated_of q) \<longleftrightarrow> (\<exists>qp \<in> set (queued_proposals q). proposal qp = UpdateProposal l \<and> sender qp = s)"
  "i \<in> set (removed_of q) \<longleftrightarrow> (\<exists>qp \<in> set (queued_proposals q). proposal qp = RemoveProposal i)"
  by (auto simp: in_set_map_filter proposal_case_Some)

text \<open>A group whose tree is well-formed, read through its empty diff.\<close>

lemma empty_diff_Some:
  "ABinaryTree_empty_diff t = Some d \<Longrightarrow> original_tree d = t \<and> ABinaryTree_tree_size t = Some (diff_size d)"
  by (auto simp: ABinaryTree_empty_diff_def split: bind_splits)

lemma group_tree:
  assumes e: "PublicGroup_empty_diff g = Some gd" and wf: "TreeSync_wf n (pgd_diff gd)"
  shows "AbDiff_leaf (pgd_diff gd) = ABinaryTree_leaf (ts_tree (pg_treesync g))" "unshrunk n (pgd_diff gd)"
    "set (full_leaves (pg_treesync g)) = {(i, l). AbDiff_leaf (pgd_diff gd) i = Some l}"
    "is_leaf_in_tree i (pg_treesync g) = (if i < 2 ^ 31 then Some (i < 2 ^ n) else None)"
proof -
  let ?t = "ts_tree (pg_treesync g)" and ?d = "pgd_diff gd"
  have d: "ABinaryTree_empty_diff ?t = Some ?d"
    using e by (auto simp: PublicGroup_empty_diff_def TreeSync_empty_diff_def split: bind_splits)
  then have o: "original_tree ?d = ?t" and sz: "ABinaryTree_tree_size ?t = Some (depth_size n)"
    using empty_diff_Some [OF d] TreeSync_wfD(3) [OF wf] by simp_all
  have t: "ABinaryTree_wf ?t" "default_leaf ?t = None"
    using AbDiff_wfD(1) [OF TreeSync_wfD(1) [OF wf]] TreeSync_wfD(4) [OF wf] by (simp_all add: o)
  show leaf: "AbDiff_leaf ?d = ABinaryTree_leaf ?t" using ABinaryTree_empty_diff_effect [OF t(1)] d by auto
  have "length (leaf_nodes ?t) \<le> TreeSize_leaf_count (depth_size n)"
    by (rule ABinaryTree_tree_size_full [OF t(1)]) (simp add: sz)
  then show "unshrunk n ?d" by (simp add: unshrunk_def o)
  have "length (leaf_nodes ?t) < 2 ^ 32" using t(1) by (simp add: ABinaryTree_wf_def MAX_TREE_SIZE_def)
  then have "ABinaryTree_leaves ?t = enumerate 0 (leaf_nodes ?t)"
    by (auto simp: ABinaryTree_leaves_def as_u32_def in_set_enumerate_eq intro!: map_idI)
  moreover have "(\<exists>x \<in> set (enumerate 0 ls). (case x of (i, l) \<Rightarrow> map_option (Pair i) l) = Some y) \<longleftrightarrow>
      fst y < length ls \<and> ls ! fst y = Some (snd y)" for ls :: "LeafNode option list" and y
    by (cases y) (auto simp: in_set_enumerate_eq Bex_def split: prod.splits)
  ultimately show "set (full_leaves (pg_treesync g)) = {(i, l). AbDiff_leaf ?d i = Some l}"
    using t(2) by (auto simp: full_leaves_def in_set_map_filter leaf ABinaryTree_leaf_def vec_get_def split: if_splits)
  have "i * 2 < depth_size n \<longleftrightarrow> i < 2 ^ n" by (auto simp: depth_size_def)
  then show "is_leaf_in_tree i (pg_treesync g) = (if i < 2 ^ 31 then Some (i < 2 ^ n) else None)"
    by (auto simp: is_leaf_in_tree_def sz is_node_in_tree_def LeafNodeIndex_to_tree_index_def u32_mul_def)
qed

section \<open>Removals\<close>

lemma member_in_tree:
  assumes "PublicGroup_empty_diff g = Some gd" "TreeSync_wf n (pgd_diff gd)" "i \<in> members (pgd_diff gd)"
  shows "is_leaf_in_tree i (pg_treesync g) = Some True"
proof -
  have "i < 2 ^ n" "(2::nat) ^ n < 2 ^ 31" using members_bound [OF assms(2)] assms(3) TreeSync_wfD(2) [OF assms(2)]
      power_strict_increasing [of n 31 "2::nat"] by auto
  then show ?thesis using group_tree(4) [OF assms(1,2), of i] by simp
qed

lemma remove_loop_Cons:
  assumes e: "PublicGroup_empty_diff g = Some gd" and wf: "TreeSync_wf n (pgd_diff gd)"
  shows "remove_loop (pg_treesync g) U R (r # rs) =
    (if 2 ^ 31 \<le> r then Panic
     else if r \<in> members (pgd_diff gd) then
       if r \<in> U \<union> R then Err DuplicateMemberRemoval else remove_loop (pg_treesync g) U (insert r R) rs
     else if r < 2 ^ n \<and> r \<in> U \<union> R then Err DuplicateMemberRemoval else Err UnknownMemberRemoval)"
  using member_in_tree [OF e wf, of r] group_tree(1,4) [OF e wf] members_bound [OF wf]
  by (auto simp: members_def)

lemma remove_loop_outcomes:
  assumes e: "PublicGroup_empty_diff g = Some gd" and wf: "TreeSync_wf n (pgd_diff gd)"
  shows "remove_loop (pg_treesync g) U R rs = Ok () \<longleftrightarrow>
      distinct rs \<and> set rs \<subseteq> members (pgd_diff gd) \<and> set rs \<inter> (U \<union> R) = {}"
    and "remove_loop (pg_treesync g) U R rs = Panic \<longleftrightarrow>
      \<not> list_all (\<lambda>i. i < 2 ^ 31) rs \<and> distinct (takeWhile (\<lambda>i. i < 2 ^ 31) rs) \<and>
      set (takeWhile (\<lambda>i. i < 2 ^ 31) rs) \<subseteq> members (pgd_diff gd) \<and> set (takeWhile (\<lambda>i. i < 2 ^ 31) rs) \<inter> (U \<union> R) = {}"
proof -
  have m: "i < 2 ^ 31" if "i \<in> members (pgd_diff gd)" for i
    using member_in_tree [OF e wf that] group_tree(4) [OF e wf, of i] by (simp split: if_splits)
  show "remove_loop (pg_treesync g) U R rs = Ok () \<longleftrightarrow>
      distinct rs \<and> set rs \<subseteq> members (pgd_diff gd) \<and> set rs \<inter> (U \<union> R) = {}"
  proof (induction rs arbitrary: R)
    case (Cons r rs)
    then show ?case using m [of r] by (auto simp: remove_loop_Cons [OF e wf] simp del: remove_loop.simps(2) split: if_splits)
  qed simp
  show "remove_loop (pg_treesync g) U R rs = Panic \<longleftrightarrow>
      \<not> list_all (\<lambda>i. i < 2 ^ 31) rs \<and> distinct (takeWhile (\<lambda>i. i < 2 ^ 31) rs) \<and>
      set (takeWhile (\<lambda>i. i < 2 ^ 31) rs) \<subseteq> members (pgd_diff gd) \<and> set (takeWhile (\<lambda>i. i < 2 ^ 31) rs) \<inter> (U \<union> R) = {}"
  proof (induction rs arbitrary: R)
    case (Cons r rs)
    then show ?case using m [of r] by (auto simp: remove_loop_Cons [OF e wf] simp del: remove_loop.simps(2) split: if_splits)
  qed simp
qed

lemma update_senders:
  "outcome_map (\<lambda>(_, s). ok_or (Sender_as_member s) e) us =
     (if \<forall>(_, s) \<in> set us. \<exists>i. s = Member i then Ok (map (\<lambda>(_, s). the (Sender_as_member s)) us) else Err e)"
proof (induction us)
  case (Cons u us)
  then show ?case by (cases u; cases "snd u") auto
qed simp

lemma update_sender_set:
  assumes "\<forall>(_, s) \<in> set us. \<exists>i. s = Member i"
  shows "i \<in> set (map (\<lambda>(_, s). the (Sender_as_member s)) us) \<longleftrightarrow> (\<exists>l. (l, Member i) \<in> set us)"
  using assms by (induction us) auto

text \<open>
  (C24) Removals are accepted exactly if no member is removed twice, every removed leaf is that of a
  member, every update is from a member, and no updated member is removed. In a debug build the
  check panics exactly if a removal names a leaf of at least \<open>2 ^ 31\<close> after acceptable ones, as
  the position of the leaf in the tree is then out of range.
\<close>

theorem removals_accepted:
  assumes e: "PublicGroup_empty_diff g = Some gd" and wf: "TreeSync_wf n (pgd_diff gd)"
  shows "(validate_remove_proposals q g = Ok () \<longleftrightarrow>
      (\<forall>(_, s) \<in> set (updated_of q). \<exists>i. s = Member i \<and> i \<notin> set (removed_of q)) \<and>
      distinct (removed_of q) \<and> set (removed_of q) \<subseteq> members (pgd_diff gd)) \<and>
    (validate_remove_proposals q g = Panic \<longleftrightarrow>
      (\<exists>i \<in> set (removed_of q). 2 ^ 31 \<le> i) \<and> (\<forall>(_, s) \<in> set (updated_of q). \<exists>i. s = Member i) \<and>
      (let accepted = takeWhile (\<lambda>i. i < 2 ^ 31) (removed_of q) in
        distinct accepted \<and> set accepted \<subseteq> members (pgd_diff gd) \<and>
        (\<forall>i \<in> set accepted. \<forall>(_, s) \<in> set (updated_of q). s \<noteq> Member i)))"
proof (cases "\<forall>(_, s) \<in> set (updated_of q). \<exists>i. s = Member i")
  case True
  let ?U = "set (map (\<lambda>(_, s). the (Sender_as_member s)) (updated_of q))"
  have v: "validate_remove_proposals q g = remove_loop (pg_treesync g) ?U {} (removed_of q)"
    using True by (simp add: validate_remove_proposals_def update_senders)
  have U: "set rs \<inter> (?U \<union> {}) = {} \<longleftrightarrow> (\<forall>i \<in> set rs. \<forall>(_, s) \<in> set (updated_of q). s \<noteq> Member i)" for rs
    unfolding disjoint_iff Un_empty_right update_sender_set [OF True] by fast
  have "(\<forall>(_, s) \<in> set (updated_of q). \<exists>i. s = Member i \<and> i \<notin> set (removed_of q)) \<longleftrightarrow>
      (\<forall>i \<in> set (removed_of q). \<forall>(_, s) \<in> set (updated_of q). s \<noteq> Member i)"
    using True by fastforce
  then show ?thesis
    using True unfolding v remove_loop_outcomes [OF e wf] U Let_def by (auto simp: list_all_iff not_less)
next
  case False
  have "validate_remove_proposals q g = Err UpdateFromNonMember"
    unfolding validate_remove_proposals_def update_senders if_not_P [OF False] by simp
  moreover from False have "\<not> (\<forall>(_, s) \<in> set (updated_of q). \<exists>i. s = Member i \<and> i \<notin> set (removed_of q))" by blast
  ultimately show ?thesis using False by simp
qed

definition sample_public_group :: "(LeafNode option, ParentNode option) ABinaryTree \<Rightarrow> PublicGroup" where
  "sample_public_group t =
     \<lparr>pg_treesync = \<lparr>ts_tree = t, ts_tree_hash = []\<rparr>, pg_proposal_store = [],
      pg_group_context = GroupContext_new suite1 [9] 0 [] [] [], pg_interim_transcript_hash = [], pg_confirmation_tag = []\<rparr>"

lemma sample_public_group_diff:
  "ABinaryTree_empty_diff t = Some d \<Longrightarrow> PublicGroup_empty_diff (sample_public_group t) = Some (sample_group d)"
  by (simp add: PublicGroup_empty_diff_def TreeSync_empty_diff_def sample_public_group_def sample_group_def)

lemma removal_iterators:
  assumes "\<forall>i \<in> set leaves. i < 256"
  shows "removed_of (removal_queue leaves) = leaves" "updated_of (removal_queue leaves) = []"
  using assms by (induction leaves)
    (simp_all add: removal_queue_def queued_proposals_def map_filter_simps unat_of_nat take_bit_eq_mod)

theorem removals_accepted_witness:
  "validate_remove_proposals (removal_queue [1]) (sample_public_group two_members) = Ok () \<and>
   validate_remove_proposals (removal_queue [1, 1]) (sample_public_group two_members) \<noteq> Ok ()"
proof -
  obtain d where d: "ABinaryTree_empty_diff two_members = Some d" "TreeSync_wf 1 d" "AbDiff_leaf d 1 \<noteq> None"
    by (rule two_members_wf) simp
  have "TreeSync_wf 1 (pgd_diff (sample_group d))" using d(2) by (simp add: sample_group_diff)
  note r = removals_accepted [OF sample_public_group_diff [OF d(1)] this]
  show ?thesis
    using r [of "removal_queue [1]"] r [of "removal_queue [1, 1]"] d(3)
    by (simp add: removal_iterators sample_group_diff members_def)
qed

section \<open>Changes of application data\<close>

abbreviation extensions_proposal :: "ProposalQueue \<Rightarrow> Extensions option" where
  "extensions_proposal q \<equiv>
     (case List.map_filter (\<lambda>qp. case proposal qp of GroupContextExtensionProposal es \<Rightarrow> Some es | _ \<Rightarrow> None)
        (filtered_by_type PGroupContextExtensions q) of es # _ \<Rightarrow> Some es | [] \<Rightarrow> None)"

definition data_change :: "QueuedProposal \<Rightarrow> (ComponentId \<times> AppDataUpdateOperation) option" where
  "data_change qp = (case proposal qp of AppDataUpdateProposal i operation \<Rightarrow> Some (i, operation) | _ \<Rightarrow> None)"

definition data_changes :: "ProposalQueue \<Rightarrow> (ComponentId \<times> AppDataUpdateOperation) list" where
  "data_changes q = List.map_filter data_change (queued_proposals q)"

fun change_key :: "ComponentId \<times> AppDataUpdateOperation \<Rightarrow> nat" where
  "change_key (i, operation) = app_data_update_key (AppDataUpdateProposal i operation)"

lemma change_key_le:
  "change_key (i, x) \<le> change_key (j, y) \<Longrightarrow> i \<le> j \<and> (i = j \<longrightarrow> y = RemoveData \<longrightarrow> x = RemoveData)"
  by (auto simp: word_le_nat_alt split: AppDataUpdateOperation.splits)

lemma app_data_update_loop_unchecked:
  assumes "gce = None \<or> (\<exists>es. gce = Some es \<and> Extensions_app_data_dictionary es = None)"
  shows "app_data_update_loop gce None ps = Ok ()"
  using assms by (induction ps) (auto split: AppDataUpdateOperation.splits)

lemma app_data_update_loop_Ok_iff:
  assumes dict: "Extensions_app_data_dictionary es = Some dict"
    and "sorted (map change_key ps)" "\<forall>j. latest = Some j \<longrightarrow> (\<forall>(i, _) \<in> set ps. j \<le> i)"
  shows "app_data_update_loop (Some es) latest ps = Ok () \<longleftrightarrow>
    (\<forall>j. latest = Some j \<longrightarrow> j \<notin> fst ` set ps) \<and>
    (\<forall>i. (i, RemoveData) \<in> set ps \<longrightarrow> AppDataDictionary_get dict i \<noteq> None \<and> length (filter (\<lambda>(j, _). j = i) ps) = 1)"
  using assms(2,3)
proof (induction ps arbitrary: latest)
  case (Cons x ps)
  obtain i operation where x: "x = (i, operation)" by (cases x)
  have le: "i \<le> j \<and> (i = j \<longrightarrow> y = RemoveData \<longrightarrow> operation = RemoveData)" if "(j, y) \<in> set ps" for j y
    using Cons.prems(1) that by (intro change_key_le) (auto simp: x)
  have ih: "app_data_update_loop (Some es) l ps = Ok () \<longleftrightarrow>
      (\<forall>j. l = Some j \<longrightarrow> j \<notin> fst ` set ps) \<and>
      (\<forall>i. (i, RemoveData) \<in> set ps \<longrightarrow> AppDataDictionary_get dict i \<noteq> None \<and> length (filter (\<lambda>(j, _). j = i) ps) = 1)"
    if "l = latest \<or> l = Some i" for l
    using that Cons.prems le by (intro Cons.IH) (auto simp: x)
  have j: "j \<notin> fst ` set ps" if "latest = Some j" "j \<noteq> i" for j using Cons.prems(2) le that by (fastforce simp: x)
  show ?case
  proof (cases operation)
    case (UpdateData b)
    then have "(i, RemoveData) \<notin> set ps" using le by blast
    then show ?thesis using ih [of latest] j by (auto simp: x UpdateData)
  next
    case RemoveData
    have "length (filter (\<lambda>(j, _). j = i) ps) = 0 \<longleftrightarrow> i \<notin> fst ` set ps" by (force simp: filter_empty_conv)
    moreover have "(i, RemoveData) \<in> set ps \<Longrightarrow> i \<in> fst ` set ps" by force
    ultimately show ?thesis using ih [of "Some i"] j by (auto simp: x RemoveData dict)
  qed
qed simp

lemma app_data_update_loop_accepts:
  assumes "sorted (map change_key ps)" "set ps = set cs" "\<And>P. length (filter P ps) = length (filter P cs)"
  shows "app_data_update_loop e None ps = Ok () \<longleftrightarrow>
    (\<forall>es dict i. e = Some es \<longrightarrow> Extensions_app_data_dictionary es = Some dict \<longrightarrow> (i, RemoveData) \<in> set cs \<longrightarrow>
      AppDataDictionary_get dict i \<noteq> None \<and> length (filter (\<lambda>(j, _). j = i) cs) = 1)"
proof (cases "\<exists>es dict. e = Some es \<and> Extensions_app_data_dictionary es = Some dict")
  case True
  then obtain es dict where d: "e = Some es" "Extensions_app_data_dictionary es = Some dict" by blast
  from app_data_update_loop_Ok_iff [OF d(2) assms(1), of None] show ?thesis unfolding assms(2,3) by (simp add: d)
next
  case False
  then have "e = None \<or> (\<exists>es. e = Some es \<and> Extensions_app_data_dictionary es = None)" by (cases e) auto
  from app_data_update_loop_unchecked [OF this] False show ?thesis by blast
qed

lemma sorted_changes:
  defines "ps q \<equiv> List.map_filter data_change (app_data_update_proposals q)"
  shows "sorted (map change_key (ps q))" "set (ps q) = set (data_changes q)"
    "length (filter P (ps q)) = length (filter P (data_changes q))"
    "app_data_update_proposals q = [] \<longleftrightarrow> data_changes q = []"
proof -
  let ?is = "\<lambda>qp. case proposal qp of AppDataUpdateProposal _ _ \<Rightarrow> True | _ \<Rightarrow> False"
  let ?qps = "filter ?is (queued_proposals q)" and ?k = "\<lambda>qp. app_data_update_key (proposal qp)"
  have f: "List.map_filter data_change xs = map (the \<circ> data_change) (filter ?is xs)" for xs
    by (induction xs) (auto simp: map_filter_simps data_change_def split: Proposal.splits)
  have p: "ps q = map (the \<circ> data_change) (sort_key ?k ?qps)"
    unfolding ps_def f by (simp add: app_data_update_proposals_def filter_sort)
  have c: "data_changes q = map (the \<circ> data_change) ?qps" by (simp add: data_changes_def f)
  have "map change_key (ps q) = map ?k (sort_key ?k ?qps)"
  proof -
    have "change_key (the (data_change qp)) = ?k qp" if "?is qp" for qp
      using that by (simp add: data_change_def split: Proposal.splits)
    then show ?thesis unfolding p map_map by (intro map_cong refl) simp
  qed
  then show "sorted (map change_key (ps q))" by simp
  show "set (ps q) = set (data_changes q)" unfolding p c by simp
  show "length (filter P (ps q)) = length (filter P (data_changes q))" 
    unfolding p c filter_map length_map filter_sort length_sort by (rule refl)
  show "app_data_update_proposals q = [] \<longleftrightarrow> data_changes q = []"
    unfolding c app_data_update_proposals_def length_0_conv [symmetric] length_map length_sort by (rule refl)
qed

text \<open>
  (C25) What the check of changes of application data accepts. That the component of a removal is in
  the dictionary, and that no other change is about the same component, is only checked if the
  commit also proposes extensions that have a dictionary. A commit without such a proposal may
  remove the data of a component that has none, and remove and update the same component.
\<close>

theorem app_data_update_validation:
  "validate_app_data_update_proposals_and_group_context q g = Ok () \<longleftrightarrow>
     data_changes q = [] \<or>
     PGroupContextExtensions \<notin> set (dropWhile (\<lambda>t. t \<noteq> PAppDataUpdate) (map (\<lambda>qp. proposal_type (proposal qp)) (queued_proposals q))) \<and>
     (\<forall>es. extensions_proposal q = Some es \<longrightarrow>
       (Extensions_app_data_dictionary es = Extensions_app_data_dictionary (gc_extensions (pg_group_context g)) \<or>
        (\<forall>required. Extensions_required_capabilities es = Some required \<longrightarrow> PAppDataUpdate \<notin> set (proposal_types required))) \<and>
       (\<forall>dict i. Extensions_app_data_dictionary es = Some dict \<longrightarrow> (i, RemoveData) \<in> set (data_changes q) \<longrightarrow>
         AppDataDictionary_get dict i \<noteq> None \<and> length (filter (\<lambda>(j, _). j = i) (data_changes q)) = 1))"
proof -
  let ?ps = "List.map_filter data_change (app_data_update_proposals q)"
  note s = sorted_changes [where q = q]
  note l = app_data_update_loop_accepts [OF s(1,2,3)]
  have f: "data_change = (\<lambda>qp. case proposal qp of AppDataUpdateProposal i operation \<Rightarrow> Some (i, operation) | _ \<Rightarrow> None)"
    by (simp add: data_change_def fun_eq_iff)
  show ?thesis
    unfolding validate_app_data_update_proposals_and_group_context_def s(4) Let_def f [symmetric]
    by (cases "extensions_proposal q") (simp_all add: l split: option.splits, blast+)
qed

definition data_queue :: "(ComponentId \<times> AppDataUpdateOperation) list \<Rightarrow> ProposalQueue" where
  "data_queue changes =
     \<lparr>proposal_references = map (\<lambda>i. [of_nat i]) [0..<length changes],
      pq_proposals = (\<lambda>r. Some
        \<lparr>proposal = (case changes ! unat (hd r) of (i, operation) \<Rightarrow> AppDataUpdateProposal i operation),
         proposal_reference = r, sender = Member 0, proposal_or_ref_type = ProposalByReference\<rparr>)\<rparr>"

theorem app_data_update_validation_witness:
  "validate_app_data_update_proposals_and_group_context (data_queue [(7, RemoveData), (7, UpdateData [1])])
     (sample_public_group two_members) = Ok ()"
proof -
  let ?q = "data_queue [(7, RemoveData), (7, UpdateData [1])]"
  have q: "map proposal (queued_proposals ?q) = [AppDataUpdateProposal 7 RemoveData, AppDataUpdateProposal 7 (UpdateData [1])]"
    by (simp add: data_queue_def queued_proposals_def map_filter_simps upt_rec)
  then obtain x y where xy: "queued_proposals ?q = [x, y]" "proposal x = AppDataUpdateProposal 7 RemoveData"
    "proposal y = AppDataUpdateProposal 7 (UpdateData [1])" by (auto simp: Cons_eq_map_conv map_eq_Cons_conv)
  have "extensions_proposal ?q = None" by (simp add: filtered_by_type_eq xy is_proposal_def map_filter_simps)
  then show ?thesis unfolding app_data_update_validation by (simp add: xy)
qed

section \<open>Keys of the members\<close>

abbreviation leaf_key :: "LeafNode \<Rightarrow> EncryptionKey" where
  "leaf_key l \<equiv> pl_encryption_key (payload l)"

definition distinct_leaf_keys :: "TreeSyncDiff \<Rightarrow> bool" where
  "distinct_leaf_keys d \<longleftrightarrow>
     (\<forall>i j l l'. AbDiff_leaf d i = Some l \<longrightarrow> AbDiff_leaf d j = Some l' \<longrightarrow> leaf_key l = leaf_key l' \<longrightarrow> i = j)"

definition leaf_keys :: "TreeSyncDiff \<Rightarrow> EncryptionKey set" where
  "leaf_keys d = {leaf_key l | i l. AbDiff_leaf d i = Some l}"

definition path_keys :: "UpdatePath \<Rightarrow> EncryptionKey list" where
  "path_keys path = leaf_key (up_leaf_node path) # map upn_public_key (up_nodes path)"

text \<open>Where the leaf of a member comes from after proposals were applied.\<close>

lemma leaf_origin:
  assumes "invited_leaf invited (leaf_after (queued_proposals q) f) i = Some l" "map snd invited = added_packages q"
  obtains (added) kp where "(i, kp) \<in> set invited" "l = kp_leaf_node (kp_payload kp)" "kp \<in> set (added_packages q)"
  | (updated) "(l, Member i) \<in> set (updated_of q)"
  | (kept) "f i = Some l" "i \<notin> set (removed_of q)"
proof (cases "map_of invited i")
  case None
  then have l: "leaf_after (queued_proposals q) f i = Some l" using assms(1) by (simp add: invited_leaf_def)
  then have r: "i \<notin> removed_leaves (queued_proposals q)" by (auto simp: leaf_after_def)
  show ?thesis
  proof (cases "updates_of i (queued_proposals q) = []")
    case True
    have "i \<notin> set (removed_of q)"
      using r by (auto simp: removed_leaves_def in_iterators)
    then show ?thesis using kept l r True by (simp add: leaf_after_def)
  next
    case False
    then have "l \<in> set (updates_of i (queued_proposals q))" using l r last_in_set [OF False] by (simp add: leaf_after_def)
    then have "(l, Member i) \<in> set (updated_of q)"
      by (auto simp: updates_of_def in_set_map_filter proposal_case_Some split: if_splits)
    then show ?thesis by (rule updated)
  qed
next
  case (Some kp)
  then have "(i, kp) \<in> set invited" by (rule map_of_SomeD)
  moreover from this have "kp \<in> set (map snd invited)" by force
  ultimately show ?thesis using added [of kp] Some assms by (simp add: invited_leaf_def)
qed

lemma disjoint_single_valued:
  assumes "\<And>k i j. (k, i) \<in> A \<Longrightarrow> (k, j) \<in> A \<Longrightarrow> i = j" "\<And>k i j. (k, i) \<in> U \<Longrightarrow> (k, j) \<in> U \<Longrightarrow> i = j"
    "\<And>k i j. (k, i) \<in> R \<Longrightarrow> (k, j) \<in> R \<Longrightarrow> i = j" "\<And>k i. (k, i) \<in> A \<Longrightarrow> k \<in> AK" "\<And>k i. (k, i) \<in> U \<Longrightarrow> k \<in> UK"
    "\<And>k i. (k, i) \<in> R \<Longrightarrow> k \<notin> AK" "\<And>k i. (k, i) \<in> R \<Longrightarrow> k \<notin> UK" "AK \<inter> UK = {}"
    "(k, i) \<in> A \<union> U \<union> R" "(k, j) \<in> A \<union> U \<union> R"
  shows "i = j"
  using assms by blast

lemma keys_after:
  assumes old: "\<And>i j l l'. f i = Some l \<Longrightarrow> f j = Some l' \<Longrightarrow> leaf_key l = leaf_key l' \<Longrightarrow> i = j"
    and new: "distinct (map (\<lambda>kp. leaf_key (kp_leaf_node (kp_payload kp))) (added_packages q) @ map (\<lambda>(l, _). leaf_key l) (updated_of q) @ others)"
    and fresh: "\<And>i l. f i = Some l \<Longrightarrow> i \<notin> set (removed_of q) \<Longrightarrow>
      leaf_key l \<notin> set (map (\<lambda>kp. leaf_key (kp_leaf_node (kp_payload kp))) (added_packages q) @ map (\<lambda>(l, _). leaf_key l) (updated_of q) @ others)"
    and inv: "map snd invited = added_packages q"
    and i: "invited_leaf invited (leaf_after (queued_proposals q) f) i = Some l"
    and j: "invited_leaf invited (leaf_after (queued_proposals q) f) j = Some l'"
    and k: "leaf_key l = leaf_key l'"
  shows "i = j"
proof -
  let ?ak = "\<lambda>kp. leaf_key (kp_leaf_node (kp_payload kp))" and ?uk = "\<lambda>(l, _). leaf_key l"
  let ?AK = "set (map ?ak (added_packages q))" and ?UK = "set (map ?uk (updated_of q))"
  let ?A = "(\<lambda>(i, kp). (?ak kp, i)) ` set invited"
  let ?U = "{(leaf_key l, i) | l i. (l, Member i) \<in> set (updated_of q)}"
  let ?O = "{(leaf_key l, i) | l i. f i = Some l \<and> i \<notin> set (removed_of q)}"
  have mem: "(leaf_key l, i) \<in> ?A \<union> ?U \<union> ?O" if "invited_leaf invited (leaf_after (queued_proposals q) f) i = Some l" for i l
    using that inv by (cases rule: leaf_origin) force+
  have "map (\<lambda>x. ?ak (snd x)) invited = map ?ak (added_packages q)" by (simp flip: inv)
  then have d: "inj_on (\<lambda>x. ?ak (snd x)) (set invited)" "inj_on ?uk (set (updated_of q))"
    using new by (auto simp: distinct_map dest: arg_cong [of _ _ distinct])
  have dis: "?AK \<inter> ?UK = {}" using new unfolding distinct_append set_append by blast
  have A: "i = j" if "(k, i) \<in> ?A" "(k, j) \<in> ?A" for k i j using that inj_onD [OF d(1)] by fastforce
  have U: "i = j" if "(k, i) \<in> ?U" "(k, j) \<in> ?U" for k i j using that inj_onD [OF d(2)] by fastforce
  have AK: "k \<in> ?AK" if "(k, i) \<in> ?A" for k i using that by (force simp flip: inv)
  have UK: "k \<in> ?UK" if "(k, i) \<in> ?U" for k i using that by force
  have OK: "k \<notin> ?AK" "k \<notin> ?UK" if "(k, i) \<in> ?O" for k i using that fresh unfolding set_append by blast+
  have O': "i = j" if "(k, i) \<in> ?O" "(k, j) \<in> ?O" for k i j using that old by auto
  have "(leaf_key l, j) \<in> ?A \<union> ?U \<union> ?O" using mem [OF j] k by (simp only:)
  from disjoint_single_valued [OF A U O' AK UK OK dis mem [OF i] this] show ?thesis .
qed

abbreviation new_keys :: "ProposalQueue \<Rightarrow> Commit \<Rightarrow> EncryptionKey list" where
  "new_keys q commit \<equiv>
     map (\<lambda>kp. leaf_key (kp_leaf_node (kp_payload kp))) (added_packages q) @ map (\<lambda>(l, _). leaf_key l) (updated_of q) @
     (case commit_path commit of Some path \<Rightarrow> path_keys path | None \<Rightarrow> [])"

lemma key_uniqueness:
  assumes e: "PublicGroup_empty_diff g = Some gd" and wf: "TreeSync_wf n (pgd_diff gd)"
    and v: "validate_key_uniqueness q (Some commit) g = Ok ()"
  shows "distinct (new_keys q commit)"
    and "AbDiff_leaf (pgd_diff gd) i = Some l \<Longrightarrow> i \<notin> set (removed_of q) \<Longrightarrow> leaf_key l \<notin> set (new_keys q commit)"
proof -
  let ?old = "set (map (\<lambda>(_, l). leaf_key l) (filter (\<lambda>(i, _). i \<notin> set (removed_of q)) (full_leaves (pg_treesync g))))"
  have k: "(case commit_path commit of Some path \<Rightarrow> [leaf_key (up_leaf_node path)] | None \<Rightarrow> []) @
      (case commit_path commit of Some path \<Rightarrow> map upn_public_key (up_nodes path) | None \<Rightarrow> []) =
      (case commit_path commit of Some path \<Rightarrow> path_keys path | None \<Rightarrow> [])"
    by (simp add: path_keys_def split: option.split)
  have u: "distinct (new_keys q commit) \<and> set (new_keys q commit) \<inter> ({} \<union> ?old) = {}"
    using v unfolding validate_key_uniqueness_def Let_def outcome_bind_Ok_iff bind.bind_lunit k insert_keys_Ok_iff by (elim exE conjE) (intro conjI)
  then show "distinct (new_keys q commit)" by (rule conjunct1)
  show "leaf_key l \<notin> set (new_keys q commit)" if "AbDiff_leaf (pgd_diff gd) i = Some l" "i \<notin> set (removed_of q)"
  proof -
    have "(i, l) \<in> set (full_leaves (pg_treesync g))" using group_tree(3) [OF e wf] that(1) by simp
    then have "leaf_key l \<in> ?old" using that(2) by force
    then show ?thesis using u [THEN conjunct2] by blast
  qed
qed

section \<open>Validated commits\<close>

lemma from_proposal_and_sender_proposal: "from_proposal_and_sender tls c p pr s = Ok qp \<Longrightarrow> proposal qp = pr"
  by (auto simp: from_proposal_and_sender_def outcome_bind_Ok_iff)

lemma committed_loop_proposals:
  assumes "committed_loop tls c p by_reference s pors seen q = Ok q'" "ProposalQueue_wf q"
    "\<forall>qp \<in> set (queued_proposals q). \<not> removes_committer (proposal qp) s"
  shows "\<forall>qp \<in> set (queued_proposals q'). \<not> removes_committer (proposal qp) s"
  using assms
proof (induction pors arbitrary: seen q)
  case (Cons por pors)
  from Cons.prems(1) obtain qp seen' where qp: "\<not> removes_committer (proposal qp) s"
    "committed_loop tls c p by_reference s pors seen' (ProposalQueue_add qp q) = Ok q'"
    by (fastforce simp: outcome_bind_Ok_iff split: ProposalOrRef.splits if_splits option.splits
        dest: from_proposal_and_sender_proposal)
  show ?case
    using Cons.prems(3) qp(1) by (intro Cons.IH [OF qp(2)]) (auto simp: queued_proposals_add [OF Cons.prems(2)])
qed simp

lemma validate_commit_OkD:
  assumes "validate_commit tls p now epoch body s g = Ok (commit, q, sender_index)"
  shows "\<forall>qp \<in> set (queued_proposals q). \<not> removes_committer (proposal qp) s"
    "validate_key_uniqueness q (Some commit) g = Ok ()" "validate_remove_proposals q g = Ok ()"
    "\<forall>c. s = Member c \<longrightarrow> validate_update_proposals now q c g = Ok () \<and> sender_index = c"
proof -
  obtain c where b: "body = CommitBody c" and e: "epoch = gc_epoch (pg_group_context g)"
    using assms by (auto simp: validate_commit_def split: if_splits FramedContentBody.splits)
  note v = assms [unfolded validate_commit_def b e, simplified, unfolded outcome_bind_Ok_iff map_err_Ok_iff]
  have c: "c = commit" using v by blast
  have "from_committed_proposals tls (gc_ciphersuite (pg_group_context g)) p (commit_proposals commit) (pg_proposal_store g) s = Ok q"
    using v c by blast
  then show "\<forall>qp \<in> set (queued_proposals q). \<not> removes_committer (proposal qp) s"
    by (auto simp: from_committed_proposals_def Let_def dest!: committed_loop_proposals)
  show "validate_key_uniqueness q (Some commit) g = Ok ()" using v by (elim exE conjE) simp
  show "validate_remove_proposals q g = Ok ()" using v by (elim exE conjE) simp
  show "\<forall>c. s = Member c \<longrightarrow> validate_update_proposals now q c g = Ok () \<and> sender_index = c"
    using v by (elim exE conjE; cases s) (simp_all add: outcome_bind_Ok_iff)
qed

lemma validated_applicable:
  assumes e: "PublicGroup_empty_diff g = Some gd" and wf: "TreeSync_wf n (pgd_diff gd)"
    and v: "validate_remove_proposals q g = Ok ()"
    and senders: "\<forall>qp \<in> set (queued_proposals q). (\<forall>i. sender qp = Member i \<longrightarrow> i \<in> members (pgd_diff gd)) \<and>
      (proposal qp = SelfRemoveProposal \<longrightarrow> (\<exists>i. sender qp = Member i))"
  shows "list_all (applicable (pgd_diff gd)) (queued_proposals q)"
proof -
  have u: "\<forall>(_, s) \<in> set (updated_of q). \<exists>i. s = Member i"
  proof (rule ccontr)
    assume n: "\<not> (\<forall>(_, s) \<in> set (updated_of q). \<exists>i. s = Member i)"
    from v show False unfolding validate_remove_proposals_def update_senders if_not_P [OF n] by simp
  qed
  have r: "set (removed_of q) \<subseteq> members (pgd_diff gd)"
    using v unfolding validate_remove_proposals_def update_senders if_P [OF u] by (simp add: remove_loop_outcomes [OF e wf])
  have "applicable (pgd_diff gd) qp" if qp: "qp \<in> set (queued_proposals q)" for qp
  proof (cases "proposal qp")
    case (UpdateProposal l)
    with qp have "(l, sender qp) \<in> set (updated_of q)" unfolding in_iterators by blast
    then show ?thesis using u senders qp by (auto simp: applicable_def UpdateProposal)
  next
    case (RemoveProposal i)
    with qp have "i \<in> set (removed_of q)" unfolding in_iterators by blast
    then show ?thesis using r by (auto simp: applicable_def RemoveProposal)
  next
    case SelfRemoveProposal
    then show ?thesis using senders qp by (force simp: applicable_def)
  qed (simp_all add: applicable_def)
  then show ?thesis by (simp add: list_all_iff)
qed

lemma path_keys_fresh:
  assumes "distinct (new_keys q commit)"
    and "\<And>i l. f i = Some l \<Longrightarrow> i \<notin> set (removed_of q) \<Longrightarrow> leaf_key l \<notin> set (new_keys q commit)"
    and inv: "map snd invited = added_packages q" and path: "commit_path commit = Some path"
  shows "distinct (path_keys path)"
    and "invited_leaf invited (leaf_after (queued_proposals q) f) i = Some l \<Longrightarrow> leaf_key l \<notin> set (path_keys path)"
proof -
  show "distinct (path_keys path)" using assms(1) path by simp
  assume "invited_leaf invited (leaf_after (queued_proposals q) f) i = Some l"
  then show "leaf_key l \<notin> set (path_keys path)"
    using inv
  proof (cases rule: leaf_origin)
    case (added kp)
    then show ?thesis using assms(1) path by auto
  next
    case updated
    then have "leaf_key l \<in> set (map (\<lambda>(l, _). leaf_key l) (updated_of q))" by force
    then show ?thesis using assms(1) unfolding path option.case distinct_append set_append by blast
  next
    case kept
    then show ?thesis using assms(2) path by auto
  qed
qed

lemma committer_leaf:
  assumes "\<forall>qp \<in> set (queued_proposals q). \<not> removes_committer (proposal qp) (Member c)"
    and "validate_update_proposals now q c g = Ok ()"
    and "\<forall>qp \<in> set (queued_proposals q). proposal qp = SelfRemoveProposal \<longrightarrow> sender qp \<noteq> Member c"
  shows "leaf_after (queued_proposals q) f c = f c"
proof -
  have "c \<notin> removed_leaves (queued_proposals q)" using assms(1,3) by (auto simp: removed_leaves_def removes_committer_def)
  moreover have "updates_of c (queued_proposals q) = []"
  proof (rule ccontr)
    assume "updates_of c (queued_proposals q) \<noteq> []"
    then obtain l where "(l, Member c) \<in> set (updated_of q)" using updates_of_nonempty unfolding in_iterators by blast
    then show False using assms(2) by (force simp: validate_update_proposals_def try_for_each_Ok_iff)
  qed
  ultimately show ?thesis by (simp add: leaf_after_def)
qed

lemma validated_commit_effect:
  assumes e: "PublicGroup_empty_diff g = Some gd" and wf: "TreeSync_wf n (pgd_diff gd)" and keys: "distinct_leaf_keys (pgd_diff gd)"
    and valid: "validate_commit tls p now epoch body s g = Ok (commit, q, sender_index)"
    and senders: "\<forall>qp \<in> set (queued_proposals q). (\<forall>i. sender qp = Member i \<longrightarrow> i \<in> members (pgd_diff gd)) \<and>
      (proposal qp = SelfRemoveProposal \<longrightarrow> (\<exists>i. sender qp = Member i))"
    and room: "card (members (pgd_diff gd)) + length (added_packages q) \<le> 2 ^ 29"
  shows "\<exists>m gd' v. apply_proposals q own gd = (gd', Ok v) \<and> TreeSync_wf m (pgd_diff gd') \<and> distinct_leaf_keys (pgd_diff gd') \<and>
    (\<forall>path. commit_path commit = Some path \<longrightarrow> distinct (path_keys path) \<and> set (path_keys path) \<inter> leaf_keys (pgd_diff gd') = {}) \<and>
    (\<forall>c \<in> members (pgd_diff gd). s = Member c \<longrightarrow> sender_index = c \<and>
      ((\<forall>qp \<in> set (queued_proposals q). proposal qp = SelfRemoveProposal \<longrightarrow> sender qp \<noteq> Member c) \<longrightarrow>
        AbDiff_leaf (pgd_diff gd') c = AbDiff_leaf (pgd_diff gd) c))"
proof -
  note v = validate_commit_OkD [OF valid] and u = group_tree(2) [OF e wf]
  note app = validated_applicable [OF e wf v(3) senders]
  obtain m gd' av where a: "apply_proposals q own gd = (gd', Ok av)" "TreeSync_wf m (pgd_diff gd')"
    "map snd (invitation_list av) = added_packages q"
    "\<forall>i \<in> exclusion_list av. leaf_after (queued_proposals q) (AbDiff_leaf (pgd_diff gd)) i = None"
    and leaf: "AbDiff_leaf (pgd_diff gd') = invited_leaf (invitation_list av) (leaf_after (queued_proposals q) (AbDiff_leaf (pgd_diff gd)))"
    by (rule apply_proposals_effect [OF wf u app room, of own])
  note k = key_uniqueness [OF e wf v(2)]
  have old: "i = j" if "AbDiff_leaf (pgd_diff gd) i = Some l" "AbDiff_leaf (pgd_diff gd) j = Some l'" "leaf_key l = leaf_key l'" for i j l l'
    using keys that by (simp add: distinct_leaf_keys_def)
  have "distinct_leaf_keys (pgd_diff gd')"
    unfolding distinct_leaf_keys_def leaf by (intro allI impI) (rule keys_after [OF old k(1) k(2) a(3)])
  moreover have "distinct (path_keys path) \<and> set (path_keys path) \<inter> leaf_keys (pgd_diff gd') = {}"
    if "commit_path commit = Some path" for path
  proof -
    note f = path_keys_fresh [where f = "AbDiff_leaf (pgd_diff gd)", OF k(1) _ a(3) that]
    have "distinct (path_keys path)" by (rule f(1)) (rule k(2))
    moreover have "leaf_key l \<notin> set (path_keys path)" if "AbDiff_leaf (pgd_diff gd') i = Some l" for i l
      by (rule f(2) [OF k(2) that [unfolded leaf]])
    ultimately show ?thesis unfolding leaf_keys_def by blast
  qed
  moreover have "AbDiff_leaf (pgd_diff gd') c = AbDiff_leaf (pgd_diff gd) c"
    if "c \<in> members (pgd_diff gd)" "s = Member c" "\<forall>qp \<in> set (queued_proposals q). proposal qp = SelfRemoveProposal \<longrightarrow> sender qp \<noteq> Member c" for c
  proof -
    have "leaf_after (queued_proposals q) (AbDiff_leaf (pgd_diff gd)) c = AbDiff_leaf (pgd_diff gd) c"
      using v(1,4) that(2,3) by (intro committer_leaf) auto
    moreover have "map_of (invitation_list av) c = None" if "leaf_after (queued_proposals q) (AbDiff_leaf (pgd_diff gd)) c \<noteq> None"
      using a(4) that by (auto simp: exclusion_list_def map_of_eq_None_iff)
    ultimately show ?thesis using that(1) unfolding leaf by (simp add: members_def invited_leaf_def)
  qed
  ultimately show ?thesis using a(1,2) v(4) by metis
qed

text \<open>
  (C4) If a commit passes validation, its proposals apply to the tree of the group and give a
  well-formed tree in which the encryption keys of the members are pairwise distinct, if they were
  so before. The keys of the path of the commit are pairwise distinct and none of them is the key of
  a member. A committer that is a member keeps its leaf, unless the commit covers its own proposal
  to leave. Proposals of members have a sender in the tree, and proposals to leave are from members:
  this is checked when a proposal is received.
\<close>

theorem validated_commit_applies:
  assumes e: "PublicGroup_empty_diff g = Some gd" and wf: "TreeSync_wf n (pgd_diff gd)" and keys: "distinct_leaf_keys (pgd_diff gd)"
    and valid: "validate_commit tls p now epoch body s g = Ok (commit, q, sender_index)"
    and senders: "\<forall>qp \<in> set (queued_proposals q). (\<forall>i. sender qp = Member i \<longrightarrow> i \<in> members (pgd_diff gd)) \<and>
      (proposal qp = SelfRemoveProposal \<longrightarrow> (\<exists>i. sender qp = Member i))"
    and room: "card (members (pgd_diff gd)) + length (added_packages q) \<le> 2 ^ 29"
  shows "\<exists>m gd' v. apply_proposals q own gd = (gd', Ok v) \<and> TreeSync_wf m (pgd_diff gd') \<and> distinct_leaf_keys (pgd_diff gd') \<and>
    (\<forall>path. commit_path commit = Some path \<longrightarrow> distinct (path_keys path) \<and> set (path_keys path) \<inter> leaf_keys (pgd_diff gd') = {}) \<and>
    (\<forall>c \<in> members (pgd_diff gd). s = Member c \<longrightarrow> sender_index = c \<and>
      ((\<forall>qp \<in> set (queued_proposals q). proposal qp = SelfRemoveProposal \<longrightarrow> sender qp \<noteq> Member c) \<longrightarrow>
        AbDiff_leaf (pgd_diff gd') c = AbDiff_leaf (pgd_diff gd) c))"
  by (rule validated_commit_effect [OF assms])

text \<open>A commit of member 0 that removes member 1 of a group of two.\<close>

definition sample_removal :: QueuedProposal where
  "sample_removal =
     \<lparr>proposal = RemoveProposal 1, proposal_reference = replicate 32 0, sender = Member 0, proposal_or_ref_type = ProposalByValue\<rparr>"

definition sample_commit :: Commit where
  "sample_commit = \<lparr>commit_proposals = [PorProposal (RemoveProposal 1)], commit_path = None\<rparr>"

lemma sample_commit_valid:
  assumes e: "PublicGroup_empty_diff g = Some gd" "TreeSync_wf n (pgd_diff gd)" and m: "1 \<in> members (pgd_diff gd)"
    and g: "g = sample_public_group t" and q: "queued_proposals q = [sample_removal]" "q = ProposalQueue_add sample_removal ProposalQueue_default"
  shows "validate_commit (\<lambda>_. Ok []) zero_provider 0 0 (CommitBody sample_commit) (Member 0) g = Ok (sample_commit, q, 0)"
proof -
  have it: "removed_of q = [1]" "updated_of q = []" "added_packages q = []" "psks_of q = []"
    unfolding q(1) by (simp_all add: map_filter_simps sample_removal_def)
  have f: "filtered_by_type t q = []" if "t \<noteq> PRemove" for t
    using that unfolding filtered_by_type_eq q(1) by (auto simp: is_proposal_def sample_removal_def)
  have c: "from_committed_proposals (\<lambda>_. Ok []) suite1 zero_provider [PorProposal (RemoveProposal 1)] [] (Member 0) = Ok q"
    unfolding q(2) by (simp add: from_committed_proposals_def removes_committer_def PskProposalDuplicateChecker_check_def
        from_proposal_and_sender_def from_raw_proposal_def make_proposal_ref_def HashReference_new_def zero_provider_def sample_removal_def)
  have "validate_remove_proposals q g = Ok ()"
    unfolding validate_remove_proposals_def update_senders it using m by (simp add: remove_loop_outcomes [OF e] del: remove_loop.simps(2))
  moreover have "validate_proposal_type_support q g = Ok ()"
    unfolding validate_proposal_type_support_def Let_def q(1) by (simp add: sample_removal_def split: list.split)
  moreover have "app_data_update_proposals q = []" unfolding app_data_update_proposals_def q(1) by (simp add: sample_removal_def)
  ultimately show ?thesis
    using c q(1) it f unfolding g
    by (simp add: validate_commit_def sample_public_group_def GroupContext_new_def validate_key_uniqueness_def validate_add_proposals_def
        validate_capabilities_def validate_group_context_extensions_proposal_def validate_app_data_update_proposals_and_group_context_def
        validate_pre_shared_key_proposals_def validate_update_proposals_def validate_no_external_init_proposals_def map_filter_simps
        sample_commit_def sample_removal_def)
qed

abbreviation sample_queue :: ProposalQueue where
  "sample_queue \<equiv> ProposalQueue_add sample_removal ProposalQueue_default"

lemma sample_commit_facts:
  obtains d where "ABinaryTree_empty_diff two_members = Some d" "AbDiff_leaf d 0 = Some (sample_member [1])"
    "PublicGroup_empty_diff (sample_public_group two_members) = Some (sample_group d)" "TreeSync_wf 1 (pgd_diff (sample_group d))"
    "distinct_leaf_keys (pgd_diff (sample_group d))" "members (pgd_diff (sample_group d)) = {0, 1}"
    "validate_commit (\<lambda>_. Ok []) zero_provider 0 0 (CommitBody sample_commit) (Member 0) (sample_public_group two_members) =
       Ok (sample_commit, sample_queue, 0)"
proof -
  obtain d where d: "ABinaryTree_empty_diff two_members = Some d" "TreeSync_wf 1 d"
    "AbDiff_leaf d = (\<lambda>i. if i < 2 then [Some (sample_member [1]), Some (sample_member [2])] ! i else None)"
    by (rule two_members_wf)
  let ?gd = "sample_group d"
  have e: "PublicGroup_empty_diff (sample_public_group two_members) = Some ?gd" "TreeSync_wf 1 (pgd_diff ?gd)"
    using sample_public_group_diff [OF d(1)] d(2) by (simp_all add: sample_group_diff)
  have m: "members (pgd_diff ?gd) = {0, 1}" by (auto simp: members_def d(3) sample_group_diff less_2_cases_iff split: if_splits)
  have k: "distinct_leaf_keys (pgd_diff ?gd)"
    unfolding distinct_leaf_keys_def by (auto simp: sample_group_diff d(3) sample_member_def less_2_cases_iff split: if_splits)
  show thesis
    using that [OF d(1) _ e k m] sample_commit_valid [OF e, unfolded m, OF _ refl _ refl] d(3) by (simp add: queued_proposals_add)
qed

lemma sample_queue_proposals: "queued_proposals sample_queue = [sample_removal]" "added_packages sample_queue = []"
  by (simp_all add: queued_proposals_add sample_removal_def map_filter_simps)

theorem validated_commit_applies_witness:
  "\<exists>d m gd' v. ABinaryTree_empty_diff two_members = Some d \<and>
     validate_commit (\<lambda>_. Ok []) zero_provider 0 0 (CommitBody sample_commit) (Member 0) (sample_public_group two_members) =
       Ok (sample_commit, sample_queue, 0) \<and>
     apply_proposals sample_queue (Some 0) (sample_group d) = (gd', Ok v) \<and> TreeSync_wf m (pgd_diff gd') \<and>
     AbDiff_leaf (pgd_diff gd') 0 = Some (sample_member [1])"
proof -
  obtain d where d: "ABinaryTree_empty_diff two_members = Some d" "AbDiff_leaf d 0 = Some (sample_member [1])"
    and e: "PublicGroup_empty_diff (sample_public_group two_members) = Some (sample_group d)" "TreeSync_wf 1 (pgd_diff (sample_group d))"
      "distinct_leaf_keys (pgd_diff (sample_group d))"
    and m: "members (pgd_diff (sample_group d)) = {0, 1}"
    and valid: "validate_commit (\<lambda>_. Ok []) zero_provider 0 0 (CommitBody sample_commit) (Member 0) (sample_public_group two_members) =
       Ok (sample_commit, sample_queue, 0)"
    by (rule sample_commit_facts)
  have s: "\<forall>qp \<in> set (queued_proposals sample_queue). (\<forall>i. sender qp = Member i \<longrightarrow> i \<in> members (pgd_diff (sample_group d))) \<and>
      (proposal qp = SelfRemoveProposal \<longrightarrow> (\<exists>i. sender qp = Member i))"
    "card (members (pgd_diff (sample_group d))) + length (added_packages sample_queue) \<le> 2 ^ 29"
    unfolding sample_queue_proposals m by (simp_all add: sample_removal_def)
  have "\<forall>qp \<in> set (queued_proposals sample_queue). proposal qp = SelfRemoveProposal \<longrightarrow> sender qp \<noteq> Member 0"
    unfolding sample_queue_proposals by (simp add: sample_removal_def)
  with validated_commit_applies [OF e valid s, of "Some 0"] obtain n gd' v where
    a: "apply_proposals sample_queue (Some 0) (sample_group d) = (gd', Ok v)" "TreeSync_wf n (pgd_diff gd')"
      "AbDiff_leaf (pgd_diff gd') 0 = AbDiff_leaf (pgd_diff (sample_group d)) 0"
    unfolding m by blast
  then show ?thesis using d valid
    by (intro exI [of _ d] exI [of _ n] exI [of _ gd'] exI [of _ v]) (simp add: sample_group_diff)
qed

end
