(* ===== verification/Spec2Isabelle.thy ===== *)
theory Spec2Isabelle
  imports BinaryTree SecretTree Pprf Extensions Validation
begin

text \<open>
  A verification development of OpenMLS (\<open>src/openmls\<close>), an implementation of Messaging Layer
  Security. Paths below are relative to \<open>src/openmls/openmls/src\<close>.

  \<^bold>\<open>The program.\<close> A group is a left-balanced binary tree whose leaves are the members
  (\<open>binary_tree\<close>, \<open>treesync\<close>). It moves from epoch to epoch by commits. A commit covers
  proposals to add, update or remove members (\<open>group/mls_group/proposal_store.rs\<close>), which are
  validated and applied to a diff of the tree (\<open>group/public_group\<close>). It usually renews the keys
  on the path from the committer to the root (\<open>treesync/diff.rs\<close>, \<open>treesync/treekem.rs\<close>). The
  secret at the root goes into the key schedule (\<open>schedule\<close>) together with pre-shared keys. The
  secrets of the new epoch start a secret tree, whose leaves have the ratchets that give the keys of
  messages (\<open>tree\<close>), and an export tree for application components (\<open>schedule/pprf\<close>). Secrets
  of past epochs are kept for late messages (\<open>group/mls_group/past_secrets.rs\<close>).

  \<^bold>\<open>Conventions.\<close> Code that returns \<open>Result\<close> gives an \<open>outcome\<close>: \<open>Ok\<close>, \<open>Err\<close> or
  \<open>Panic\<close>. Code that can only panic gives an option. A method on \<open>&mut self\<close> gives the new
  state and the outcome, so that the state an error leaves behind is part of the model. Integers
  are natural numbers with the overflow checks of a debug build written out, or words where the code
  works on bits. Debug assertions are panics; the reuse guard of an emulator, whose assertions state the
  very property that matters, has a flag for them and is proved safe without them. A \<open>BTreeMap\<close> is a sorted association list, a \<open>HashMap\<close> a map, a \<open>HashSet\<close> a
  set. The crypto provider and the encodings that the external crate \<open>tls_codec\<close> derives are fields
  of the records \<open>provider\<close>, \<open>leaf_provider\<close>, \<open>tree_provider\<close> and \<open>schedule_provider\<close>, each
  extending the one before. What a property needs of them is a named hypothesis such as
  \<open>hpke_opens\<close>, \<open>signs_for\<close> or \<open>tree_provider_total\<close>. Random draws and the time are arguments.
  Both draft features, \<open>extensions-draft\<close> and \<open>virtual-clients-draft\<close>, are on, the second one
  as a flag where it changes behaviour.

  \<^bold>\<open>The theories.\<close>

  \<^item> \<open>Prelude\<close>: outcomes, loops, machine integers, sorted maps with the interface
    \<open>ordered_map\<close>, and the interface \<open>one_time_keys\<close> of key stores that give a key at most once.
  \<^item> \<open>TreeMath\<close> (\<open>array_representation/treemath.rs\<close>): node numbering. A node is given by its
    level and position, for which direct paths, copaths and common ancestors have closed forms.
    The direct path climbs to the root, the copath partitions the other leaves, the lowest common
    ancestor is one, and the loop of the direct path returns exactly for leaves of the tree.
  \<^item> \<open>BinaryTree\<close> (\<open>tree.rs\<close>, \<open>sorted_iter.rs\<close>, \<open>diff.rs\<close>): the tree and its diff, with the
    interface \<open>node_store\<close>. Every diff that the operations can make merges to a tree that reads as
    the diff did. Shrinking and growing a diff makes leaves of the original tree visible again.
  \<^item> \<open>Ciphersuite\<close>, \<open>Secrets\<close>, \<open>Registry\<close>, \<open>Extensions\<close>: algorithms, labelled derivations,
    AEAD keys and reuse guards, code points, capabilities, extension lists with the interface
    \<open>extension_validator\<close>, and the wire format of extensions.
  \<^item> \<open>SenderRatchet\<close>, \<open>SecretTree\<close> (\<open>tree\<close>): sender, decryption and dual-use ratchets and the
    tree of secrets above them. A receiver gets the key that the sender used, no key is given
    twice, and the secrets on the path to a used leaf are deleted. Which answer a request gets is told
    by the requests before it.
  \<^item> \<open>Pprf\<close> (\<open>schedule/pprf\<close>, \<open>schedule/application_export_tree.rs\<close>): the puncturable
    pseudorandom function. Each component gets its secret once.
  \<^item> \<open>PastSecrets\<close>: the store of past epochs with the interface \<open>bounded_log\<close>, its deletion
    policies, and which epochs it has after any history.
  \<^item> \<open>LeafNode\<close>, \<open>ParentNode\<close>, \<open>TreeSync\<close> (\<open>treesync\<close>): nodes with signatures, lifetimes and
    hashes, and the operations that change a ratchet tree's diff or that a commit with a path uses.
    Exporting the tree and encrypting the group secrets of a welcome are not among them.
  \<^item> \<open>Resolution\<close>, \<open>TreeKem\<close>, \<open>TreeUpdates\<close>, \<open>UpdatePaths\<close>: the invariant \<open>TreeSync_wf\<close> of a
    ratchet tree; what resolutions are; encrypting and decrypting a path; that the operations keep
    the invariant; that a sender and its receivers end with the same tree.
  \<^item> \<open>CommitAgreement\<close>: a member's commit with a path succeeds, and every other member that is not
    newly added derives the same commit secret and tree from it.
  \<^item> \<open>PreSharedKeys\<close>, \<open>KeySchedule\<close> (\<open>schedule/psk.rs\<close>, \<open>schedule/mod.rs\<close>): validation and
    secrets of pre-shared keys, the store of resumption secrets, every derivation of an epoch, and
    the state machine of the key schedule as runs over its calls.
  \<^item> \<open>Proposals\<close> (\<open>messages/proposals.rs\<close>, \<open>group/mls_group/proposal_store.rs\<close>): the queue a
    committer chooses and the one a receiver reconstructs from the commit.
  \<^item> \<open>ApplyProposals\<close> (\<open>group/public_group/diff\<close>): applying a queue to the tree and the
    context, and the members afterwards.
  \<^item> \<open>Validation\<close> (\<open>group/public_group/validation.rs\<close>, \<open>staged_commit.rs\<close>): the checks of a
    received commit, and that a commit that passes them applies and keeps keys distinct.

  This theory composes validation, proposals and update paths.

  \<^bold>\<open>Bounds and termination.\<close> No definition uses fuel. Loops that are not structural
  (\<open>direct_path_loop\<close>, \<open>lca_loop\<close>, \<open>level_loop\<close>, \<open>resolution\<close>, \<open>compute_tree_hash\<close>,
  \<open>grow_to\<close>, \<open>trim_loop\<close>, \<open>find_deepest\<close>, \<open>SortedIter_collect\<close>) are total functions with a
  measure: the levels left, the size of the tree, or the entries left. A tree has at most
  \<open>2 ^ 29\<close> leaves, as \<open>MAX_TREE_SIZE\<close> of the code allows, and hypotheses on room refer to this.

  \<^bold>\<open>Not modelled.\<close> Framing of public and private messages, and the processing of messages by
  \<open>MlsGroup\<close> that signs, frames, encrypts and stores: these are mostly derived wire formats and
  calls of the storage provider, and they compose the parts above. What framing ensures of the
  senders of proposals is a hypothesis where it is needed. The transcript hashes, as their input is
  the framed commit. Building and verifying key packages, welcomes and group information. Making a
  tree from one that was received. Virtual clients other than the reuse guard, targeted messages and
  fork resolution. Storage and crypto providers, the command line client, the delivery service,
  the interoperability client, and the JavaScript, React Native and server packages, which are I/O
  and bindings around the library. Some small constructors and accessors of modelled components,
  which no modelled operation uses, are left out too.
\<close>

section \<open>A commit from validation to the new tree\<close>

text \<open>
  (C3) If the commit of a member passes the validation of a receiver, then the committer and the
  receivers go on from its proposals to the same tree. The proposals apply to the tree of the group. On
  the result the committer can derive, apply and encrypt a path that leaves out the members it adds, if
  the provider, the signer and the random source do not fail. Applying the published path to the same
  result, a receiver accepts it and ends with the committer's tree, which is well-formed. The tree
  before has distinct keys at its leaves and room for the added members. As framing ensures, proposals
  that name a member as their sender come from a member of the group, and proposals to leave come from
  a member, here one other than the committer.
\<close>

theorem validated_path_applies:
  assumes e: "PublicGroup_empty_diff g = Some gd" and wf: "TreeSync_wf n (pgd_diff gd)" and keys: "distinct_leaf_keys (pgd_diff gd)"
    and valid: "validate_commit tls p' now epoch body (Member c) g = Ok (commit, q, sender_index)"
    and senders: "\<forall>qp \<in> set (queued_proposals q). (\<forall>i. sender qp = Member i \<longrightarrow> i \<in> members (pgd_diff gd)) \<and>
      (proposal qp = SelfRemoveProposal \<longrightarrow> (\<exists>i. sender qp = Member i \<and> i \<noteq> c))"
    and room: "card (members (pgd_diff gd)) + length (added_packages q) \<le> 2 ^ 29"
    and committer: "c \<in> members (pgd_diff gd)"
    and p: "tree_provider_total p" and rand: "\<forall>m. \<exists>b. rp m = Ok b" "\<forall>m. \<exists>b. rl m = Ok b"
    and sign: "\<forall>m. \<exists>b. signer m = Ok b"
  shows "\<exists>m gd' v d' plain kps cs nodes ln. apply_proposals q own gd = (gd', Ok v) \<and>
    apply_own_update_path rp rl p signer suite MemberCommit gid c params ov (pgd_diff gd') = (d', Ok (plain, kps, cs)) \<and>
    encrypt_path p suite plain ctx (exclusion_list v) c d' = Ok nodes \<and>
    AbDiff_leaf d' c = Some ln \<and>
    apply_received_update_path p suite sender_index \<lparr>up_leaf_node = ln, up_nodes = nodes\<rparr> (pgd_diff gd') = (d', Ok ()) \<and>
    TreeSync_wf m d'"
proof -
  have "\<forall>qp \<in> set (queued_proposals q). (\<forall>i. sender qp = Member i \<longrightarrow> i \<in> members (pgd_diff gd)) \<and>
      (proposal qp = SelfRemoveProposal \<longrightarrow> (\<exists>i. sender qp = Member i))" using senders by blast
  from validated_commit_effect [OF e wf keys valid this room, of own] obtain m gd' v where
    a: "apply_proposals q own gd = (gd', Ok v)" "TreeSync_wf m (pgd_diff gd')" "sender_index = c"
      "AbDiff_leaf (pgd_diff gd') c = AbDiff_leaf (pgd_diff gd) c"
    using committer senders by fastforce
  then have full: "AbDiff_leaf (pgd_diff gd') c \<noteq> None" using committer by (simp add: members_def)
  obtain d' plain kps cs nodes where
    o: "apply_own_update_path rp rl p signer suite MemberCommit gid c params ov (pgd_diff gd') = (d', Ok (plain, kps, cs))"
      "encrypt_path p suite plain ctx (exclusion_list v) c d' = Ok nodes"
    using own_commit_total [OF p rand sign a(2) full] by blast
  from own_commit_received [OF a(2) full o] a o show ?thesis by blast
qed

theorem validated_path_applies_witness:
  "\<exists>d gd' v d' plain kps cs nodes ln. ABinaryTree_empty_diff two_members = Some d \<and>
     apply_proposals sample_queue (Some 0) (sample_group d) = (gd', Ok v) \<and>
     apply_own_update_path (\<lambda>m. Ok (replicate m 1)) (\<lambda>m. Ok (replicate m 2)) sample_tree_provider (\<lambda>m. Ok (7 # m)) suite1
       MemberCommit [9] 0 sample_update_params None (pgd_diff gd') = (d', Ok (plain, kps, cs)) \<and>
     encrypt_path sample_tree_provider suite1 plain [8] (exclusion_list v) 0 d' = Ok nodes \<and>
     apply_received_update_path sample_tree_provider suite1 0 \<lparr>up_leaf_node = ln, up_nodes = nodes\<rparr> (pgd_diff gd') = (d', Ok ())"
proof -
  obtain d where d: "ABinaryTree_empty_diff two_members = Some d"
    and e: "PublicGroup_empty_diff (sample_public_group two_members) = Some (sample_group d)" "TreeSync_wf 1 (pgd_diff (sample_group d))"
      "distinct_leaf_keys (pgd_diff (sample_group d))"
    and m: "members (pgd_diff (sample_group d)) = {0, 1}"
    and valid: "validate_commit (\<lambda>_. Ok []) zero_provider 0 0 (CommitBody sample_commit) (Member 0) (sample_public_group two_members) =
       Ok (sample_commit, sample_queue, 0)"
    by (rule sample_commit_facts)
  have s: "\<forall>qp \<in> set (queued_proposals sample_queue). (\<forall>i. sender qp = Member i \<longrightarrow> i \<in> members (pgd_diff (sample_group d))) \<and>
      (proposal qp = SelfRemoveProposal \<longrightarrow> (\<exists>i. sender qp = Member i \<and> i \<noteq> 0))"
    "card (members (pgd_diff (sample_group d))) + length (added_packages sample_queue) \<le> 2 ^ 29"
    "0 \<in> members (pgd_diff (sample_group d))"
    unfolding sample_queue_proposals m by (simp_all add: sample_removal_def)
  have "\<forall>m. \<exists>b. (\<lambda>m. Ok (replicate m 1)) m = Ok b" "\<forall>m. \<exists>b. (\<lambda>m. Ok (replicate m 2)) m = Ok b" "\<forall>m. \<exists>b. (\<lambda>m. Ok (7 # m)) m = Ok b"
    by simp_all
  from validated_path_applies [OF e valid s sample_tree_provider_total this, of "Some 0" suite1 "[9]" sample_update_params None "[8]"]
  show ?thesis using d by blast
qed

end
